theory Spec2Isabelle
  imports Complex_Main "HOL-Library.Sublist" "HOL-Library.Word"
begin

section \<open>Values and errors\<close>

text \<open>
  A Value of the IR is an output slot of the Node that produces it
  (\<open>v->node()\<close>, \<open>v->offset()\<close>); a Node is known by its identity.
\<close>

type_synonym node_id = nat

datatype ir_value = Value (producer: node_id) (offset: nat)

text \<open>
  Every \<open>TORCH_CHECK\<close>, \<open>TORCH_INTERNAL_ASSERT\<close>, checked accessor and
  library exception of the source is a value of this type. A failed \<open>TORCH_CHECK\<close>
  carries the parts of its message; the failed check of \<open>findSubgraph\<close> carries
  the two Values whose debug names its message prints.
\<close>

datatype error =
    CheckFailed "string list"
  | UnexpectedValue ir_value ir_value
  | InternalAssert string
  | OutOfRange
  | AttributeError string
  | DanglingRef

definition ebind :: "error + 'a \<Rightarrow> ('a \<Rightarrow> error + 'b) \<Rightarrow> error + 'b" where
  "ebind x f = (case x of Inl e \<Rightarrow> Inl e | Inr a \<Rightarrow> f a)"

definition torch_check :: "bool \<Rightarrow> string list \<Rightarrow> error + unit" where
  "torch_check c msg = (if c then Inr () else Inl (CheckFailed msg))"

definition internal_assert :: "bool \<Rightarrow> string \<Rightarrow> error + unit" where
  "internal_assert c msg = (if c then Inr () else Inl (InternalAssert msg))"

section \<open>Quantization schemes\<close>

text \<open>
  \<open>c10::QScheme\<close>. The four schemes the source names, and any other enumerator
  (the \<open>default\<close> branch of \<open>toAffine\<close>).
\<close>

datatype qscheme =
    kPerTensorAffine
  | kPerChannelAffine
  | kPerTensorSymmetric
  | kPerChannelSymmetric
  | kOtherQScheme nat

fun toAffine :: "qscheme \<Rightarrow> qscheme" where
  "toAffine kPerTensorAffine = kPerTensorAffine"
| "toAffine kPerTensorSymmetric = kPerTensorAffine"
| "toAffine kPerChannelAffine = kPerChannelAffine"
| "toAffine kPerChannelSymmetric = kPerChannelAffine"
| "toAffine (kOtherQScheme k) = kOtherQScheme k"

definition isPerChannel :: "qscheme \<Rightarrow> bool" where
  "isPerChannel q = (q = kPerChannelAffine \<or> q = kPerChannelSymmetric)"

text \<open>
  Modelled from the spec: \<open>c10::toString(QScheme)\<close> is not in the sources; it names
  the scheme in the scheme-conflict message.
\<close>

fun toString :: "qscheme \<Rightarrow> string" where
  "toString kPerTensorAffine = ''per_tensor_affine''"
| "toString kPerChannelAffine = ''per_channel_affine''"
| "toString kPerTensorSymmetric = ''per_tensor_symmetric''"
| "toString kPerChannelSymmetric = ''per_channel_symmetric''"
| "toString (kOtherQScheme k) = ''other''"

section \<open>The scheme check of one Graph\<close>

type_synonym graph_id = nat

text \<open>
  A string literal used as an operand of \<open>||\<close> decays to a pointer that is not
  null, so it converts to \<open>true\<close>.
\<close>

definition literal_as_bool :: "string \<Rightarrow> bool" where
  "literal_as_bool s = True"

text \<open>
  \<open>InsertQuantDeQuantHelper::checkQScheme\<close> on the table \<open>qscheme_for_graph_\<close>.
  The condition of the source's \<open>TORCH_CHECK\<close> is
  \<open>qscheme_for_graph_.at(g) == qscheme || "Quantizing same graph ..."\<close>: the first
  message literal is joined to the comparison by \<open>||\<close>, the remaining arguments are
  the message.
\<close>

definition checkQScheme ::
  "(graph_id \<rightharpoonup> qscheme) \<Rightarrow> graph_id \<Rightarrow> qscheme \<Rightarrow> error + (graph_id \<rightharpoonup> qscheme)" where
  "checkQScheme qscheme_for_graph g q =
     (case qscheme_for_graph g of
        Some recorded \<Rightarrow>
          ebind
            (torch_check
               (recorded = q \<or>
                literal_as_bool
                  ''Quantizing same graph with different types of QSchemes is not supported.'')
               ['' Expecting:'', toString recorded, '' Got:'', toString q])
            (\<lambda>_. Inr qscheme_for_graph)
      | None \<Rightarrow> Inr (qscheme_for_graph(g \<mapsto> toAffine q)))"

section \<open>The graph IR\<close>

text \<open>
  The IR of the pass (\<open>torch/csrc/jit/ir/ir.h\<close>) is consumed, not built, by the
  sources. Modelled from the spec: Graph, Block, Node and Value of its data model.
  A Value is an output slot of the Node that produces it; the inputs of a Graph or Block
  are the outputs of its \<open>prim::Param\<close> Node and its outputs are the inputs of its
  \<open>prim::Return\<close> Node. A Node kind is its qualified symbol. Nodes live in a store
  indexed by identity. Blocks own their Nodes and Nodes own their nested Blocks, so the
  Blocks of a Graph are a tree of Node identities in program order; a Node that was
  created and not yet inserted is in the store and in no Block. Debug names and types of
  Values are not part of the model.
\<close>

record node =
  kind :: string
  inputs :: "ir_value list"
  num_outputs :: nat
  attr_name :: "string option"

datatype block = Block (param_node: node_id) (return_node: node_id) (b_nodes: "bnode list")
  and bnode = BNode (bn_id: node_id) (bn_blocks: "block list")

record graph =
  nodes :: "node_id \<rightharpoonup> node"
  top_block :: block
  next_node :: node_id
  insert_point :: node_id

definition get_node :: "graph \<Rightarrow> node_id \<Rightarrow> error + node" where
  "get_node g n = (case nodes g n of None \<Rightarrow> Inl DanglingRef | Some nd \<Rightarrow> Inr nd)"

text \<open>\<open>v->node()\<close>\<close>

definition node_of :: "graph \<Rightarrow> ir_value \<Rightarrow> error + node" where
  "node_of g v = get_node g (producer v)"

text \<open>\<open>n->s(attr::name)\<close> raises when the Node has no such attribute.\<close>

definition s_name :: "node \<Rightarrow> error + string" where
  "s_name nd = (case attr_name nd of None \<Rightarrow> Inl (AttributeError ''name'') | Some s \<Rightarrow> Inr s)"

text \<open>\<open>n->inputs().at(i)\<close> and \<open>n->input(i)\<close> are bounds-checked.\<close>

definition input_at :: "node \<Rightarrow> nat \<Rightarrow> error + ir_value" where
  "input_at nd i = (if i < length (inputs nd) then Inr (inputs nd ! i) else Inl OutOfRange)"

text \<open>\<open>std::string::find\<close>: the first position of the pattern, \<open>npos\<close> is \<open>None\<close>.\<close>

fun find_from :: "string \<Rightarrow> string \<Rightarrow> nat \<Rightarrow> nat option" where
  "find_from [] pat i = (if pat = [] then Some i else None)"
| "find_from (c # cs) pat i =
     (if prefix pat (c # cs) then Some i else find_from cs pat (Suc i))"

definition find_str :: "string \<Rightarrow> string \<Rightarrow> nat option" where
  "find_str s pat = find_from s pat 0"

section \<open>The observer locator\<close>

definition findObserverName :: "graph \<Rightarrow> ir_value \<Rightarrow> error + string option" where
  "findObserverName g v =
     ebind (node_of g v) (\<lambda>n.
       if kind n = ''prim::CallMethod'' then
         ebind (s_name n) (\<lambda>method.
           if method = ''forward'' then
             ebind (input_at n 0) (\<lambda>module_instance.
               ebind (node_of g module_instance) (\<lambda>m.
                 if kind m = ''prim::GetAttr'' then
                   ebind (s_name m) (\<lambda>a.
                     if find_str a ''_observer_'' \<noteq> None then Inr (Some a) else Inr None)
                 else Inr None))
           else Inr None)
       else Inr None)"

text \<open>
  The words of the claim: \<open>v\<close> is produced by a method call of \<open>forward\<close> whose
  module operand is produced by an attribute lookup of a name containing
  \<open>_observer_\<close>.
\<close>

definition is_observer_call :: "graph \<Rightarrow> ir_value \<Rightarrow> string \<Rightarrow> bool" where
  "is_observer_call g v a =
     (\<exists>n m. nodes g (producer v) = Some n \<and> kind n = ''prim::CallMethod'' \<and>
        attr_name n = Some ''forward'' \<and> inputs n \<noteq> [] \<and>
        nodes g (producer (hd (inputs n))) = Some m \<and> kind m = ''prim::GetAttr'' \<and>
        attr_name m = Some a \<and> sublist ''_observer_'' a)"

text \<open>
  The accessors of the locator succeed at \<open>v\<close>: its Node is live, a method call
  carries its method name and its module operand, whose Node is live, and an attribute
  lookup carries its attribute name.
\<close>

definition call_wellformed :: "graph \<Rightarrow> ir_value \<Rightarrow> bool" where
  "call_wellformed g v =
     (case nodes g (producer v) of
        None \<Rightarrow> False
      | Some n \<Rightarrow>
          kind n \<noteq> ''prim::CallMethod'' \<or>
          (attr_name n \<noteq> None \<and> inputs n \<noteq> [] \<and>
           (case nodes g (producer (hd (inputs n))) of
              None \<Rightarrow> False
            | Some m \<Rightarrow> kind m \<noteq> ''prim::GetAttr'' \<or> attr_name m \<noteq> None)))"

text \<open>
  A forward method whose input is observed: \<open>self._observer_0.forward(x)\<close> feeds
  \<open>aten::relu\<close>, whose result the Graph returns.
\<close>

definition observed_graph :: graph where
  "observed_graph =
     \<lparr> nodes = Map.empty(
         0 \<mapsto> \<lparr> kind = ''prim::Param'', inputs = [], num_outputs = 2,
                 attr_name = None \<rparr>,
         1 \<mapsto> \<lparr> kind = ''prim::Return'', inputs = [Value 4 0], num_outputs = 0,
                 attr_name = None \<rparr>,
         2 \<mapsto> \<lparr> kind = ''prim::GetAttr'', inputs = [Value 0 0], num_outputs = 1,
                 attr_name = Some ''_observer_0'' \<rparr>,
         3 \<mapsto> \<lparr> kind = ''prim::CallMethod'', inputs = [Value 2 0, Value 0 1],
                 num_outputs = 1, attr_name = Some ''forward'' \<rparr>,
         4 \<mapsto> \<lparr> kind = ''aten::relu'', inputs = [Value 3 0], num_outputs = 1,
                 attr_name = None \<rparr>),
       top_block = Block 0 1 [BNode 2 [], BNode 3 [], BNode 4 []],
       next_node = 5,
       insert_point = 1 \<rparr>"

section \<open>The weight subgraph extractor\<close>

text \<open>
  Modelled from the spec: \<open>hitGraphInput\<close> (\<open>helper.cpp\<close>) is not in the
  sources; a Value is a graph input when it is one of \<open>graph->inputs()\<close>, the outputs
  of the \<open>prim::Param\<close> Node of the top Block.
\<close>

definition graph_inputs :: "graph \<Rightarrow> ir_value list" where
  "graph_inputs g =
     (case nodes g (param_node (top_block g)) of
        None \<Rightarrow> []
      | Some p \<Rightarrow> map (Value (param_node (top_block g))) [0..<num_outputs p])"

definition hitGraphInput :: "graph \<Rightarrow> ir_value \<Rightarrow> bool" where
  "hitGraphInput g v = (v \<in> set (graph_inputs g))"

text \<open>
  \<open>InsertQuantDeQuantHelper::findSubgraph\<close>: the Node of \<open>input_val\<close> is pushed,
  then each of its inputs is followed unless it is a graph input, which must be
  \<open>self\<close>. The recursion of the source ends because a Graph is acyclic; the model
  takes fuel for the depth of the recursion, and \<open>None\<close> is a traversal that did not
  end within it.
\<close>

fun findSubgraph ::
    "nat \<Rightarrow> graph \<Rightarrow> ir_value \<Rightarrow> ir_value \<Rightarrow> node_id list \<Rightarrow> (error + node_id list) option"
  and findSubgraph_inputs ::
    "nat \<Rightarrow> graph \<Rightarrow> ir_value \<Rightarrow> ir_value list \<Rightarrow> node_id list \<Rightarrow> (error + node_id list) option"
  where
  "findSubgraph 0 g self input_val weight_subgraph = None"
| "findSubgraph (Suc k) g self input_val weight_subgraph =
     (case nodes g (producer input_val) of
        None \<Rightarrow> Some (Inl DanglingRef)
      | Some nd \<Rightarrow>
          findSubgraph_inputs k g self (inputs nd) (weight_subgraph @ [producer input_val]))"
| "findSubgraph_inputs k g self [] weight_subgraph = Some (Inr weight_subgraph)"
| "findSubgraph_inputs k g self (v # vs) weight_subgraph =
     (if \<not> hitGraphInput g v then
        (case findSubgraph k g self v weight_subgraph of
           Some (Inr ws) \<Rightarrow> findSubgraph_inputs k g self vs ws
         | r \<Rightarrow> r)
      else if v = self then findSubgraph_inputs k g self vs weight_subgraph
      else Some (Inl (UnexpectedValue v self)))"

text \<open>
  The Values the backward traversal from \<open>v\<close> reaches: the inputs of its Node, and
  the inputs of the Node of every reached Value that is not a graph input.
\<close>

inductive reaches :: "graph \<Rightarrow> ir_value \<Rightarrow> ir_value \<Rightarrow> bool" for g v where
  reaches_input:
    "nodes g (producer v) = Some nd \<Longrightarrow> u \<in> set (inputs nd) \<Longrightarrow> reaches g v u"
| reaches_step:
    "reaches g v w \<Longrightarrow> \<not> hitGraphInput g w \<Longrightarrow> nodes g (producer w) = Some nd \<Longrightarrow>
     u \<in> set (inputs nd) \<Longrightarrow> reaches g v u"

text \<open>
  A Graph is acyclic when its Nodes can be ranked so that every input of a Node is
  produced by a Node of smaller rank, and closed when the Node of every input is live.
\<close>

definition ranked :: "graph \<Rightarrow> (node_id \<Rightarrow> nat) \<Rightarrow> bool" where
  "ranked g rank =
     (\<forall>n nd. nodes g n = Some nd \<longrightarrow>
        (\<forall>u \<in> set (inputs nd). nodes g (producer u) \<noteq> None \<and> rank (producer u) < rank n))"

text \<open>
  A weight computed from two attributes of the module: \<open>self.a\<close> and \<open>self.b\<close>
  feed \<open>aten::add\<close>, which the weight observer \<open>self._observer_1\<close> observes. The
  Graph has a second input \<open>x\<close>.
\<close>

definition weight_graph :: graph where
  "weight_graph =
     \<lparr> nodes = Map.empty(
         0 \<mapsto> \<lparr> kind = ''prim::Param'', inputs = [], num_outputs = 2,
                 attr_name = None \<rparr>,
         1 \<mapsto> \<lparr> kind = ''prim::Return'', inputs = [Value 6 0], num_outputs = 0,
                 attr_name = None \<rparr>,
         2 \<mapsto> \<lparr> kind = ''prim::GetAttr'', inputs = [Value 0 0], num_outputs = 1,
                 attr_name = Some ''a'' \<rparr>,
         3 \<mapsto> \<lparr> kind = ''prim::GetAttr'', inputs = [Value 0 0], num_outputs = 1,
                 attr_name = Some ''b'' \<rparr>,
         4 \<mapsto> \<lparr> kind = ''aten::add'', inputs = [Value 2 0, Value 3 0], num_outputs = 1,
                 attr_name = None \<rparr>,
         5 \<mapsto> \<lparr> kind = ''prim::GetAttr'', inputs = [Value 0 0], num_outputs = 1,
                 attr_name = Some ''_observer_1'' \<rparr>,
         6 \<mapsto> \<lparr> kind = ''prim::CallMethod'', inputs = [Value 5 0, Value 4 0],
                 num_outputs = 1, attr_name = Some ''forward'' \<rparr>),
       top_block = Block 0 1 [BNode 2 [], BNode 3 [], BNode 4 [], BNode 5 [], BNode 6 []],
       next_node = 7,
       insert_point = 1 \<rparr>"

text \<open>The same Graph, where the weight adds the input \<open>x\<close> instead of \<open>self.b\<close>.\<close>

definition foreign_graph :: graph where
  "foreign_graph =
     weight_graph \<lparr> nodes := (nodes weight_graph)(
         4 \<mapsto> \<lparr> kind = ''aten::add'', inputs = [Value 2 0, Value 0 1], num_outputs = 1,
                 attr_name = None \<rparr>) \<rparr>"

definition weight_rank :: "node_id \<Rightarrow> nat" where
  "weight_rank n = (if n = 1 then 7 else n)"

text \<open>
  A list of Nodes is closed when every Node in it is live and each of its inputs is either
  the graph input \<open>self\<close> or a Value that is no graph input and is produced by a Node
  later in the list.
\<close>

definition closed_list :: "graph \<Rightarrow> ir_value \<Rightarrow> node_id list \<Rightarrow> bool" where
  "closed_list g self ns =
     (\<forall>pre n post. ns = pre @ n # post \<longrightarrow>
        (\<exists>nd. nodes g n = Some nd \<and>
           (\<forall>u \<in> set (inputs nd).
              (hitGraphInput g u \<and> u = self) \<or> (\<not> hitGraphInput g u \<and> producer u \<in> set post))))"

section \<open>Operations of the IR\<close>

text \<open>
  Modelled from the spec: the primitives of the IR the pass calls (Node creation,
  insertion and destruction, Block nesting, use lists and their replacement). The IR
  keeps the uses of a Value in the order they were registered; the model lists them by
  Node identity and input slot, an order no result below depends on.
\<close>

text \<open>\<open>n->output()\<close> asserts that the Node has exactly one output.\<close>

definition "output" :: "graph \<Rightarrow> node_id \<Rightarrow> error + ir_value" where
  "output g n =
     ebind (get_node g n) (\<lambda>nd.
       if num_outputs nd = 1 then Inr (Value n 0)
       else Inl (InternalAssert ''outputs_.size() == 1''))"

text \<open>\<open>n->input(i)\<close>\<close>

definition input :: "graph \<Rightarrow> node_id \<Rightarrow> nat \<Rightarrow> error + ir_value" where
  "input g n i = ebind (get_node g n) (\<lambda>nd. input_at nd i)"

text \<open>\<open>v->uses()\<close>: the pairs of a user Node and the input slot that reads \<open>v\<close>.\<close>

definition node_uses :: "ir_value \<Rightarrow> node_id \<Rightarrow> node \<Rightarrow> (node_id \<times> nat) list" where
  "node_uses v n nd =
     map (\<lambda>i. (n, i)) (filter (\<lambda>i. inputs nd ! i = v) [0..<length (inputs nd)])"

definition uses :: "graph \<Rightarrow> ir_value \<Rightarrow> (node_id \<times> nat) list" where
  "uses g v =
     concat (map (\<lambda>n. case nodes g n of None \<Rightarrow> [] | Some nd \<Rightarrow> node_uses v n nd)
       [0..<next_node g])"

text \<open>\<open>graph->create(kind, inputs, num_outputs)\<close>: a fresh Node, in no Block yet.\<close>

definition create :: "graph \<Rightarrow> string \<Rightarrow> ir_value list \<Rightarrow> nat \<Rightarrow> node_id \<times> graph" where
  "create g k ins n_out =
     (next_node g,
      g \<lparr> nodes := (nodes g)(next_node g \<mapsto>
             \<lparr> kind = k, inputs = ins, num_outputs = n_out, attr_name = None \<rparr>),
          next_node := Suc (next_node g) \<rparr>)"

fun first_some :: "'a option list \<Rightarrow> 'a option" where
  "first_some [] = None"
| "first_some (None # xs) = first_some xs"
| "first_some (Some x # xs) = Some x"

text \<open>The entry of a Node in the tree of Blocks, with the Blocks nested in it.\<close>

fun find_in_block :: "node_id \<Rightarrow> block \<Rightarrow> bnode option"
  and find_in_bnode :: "node_id \<Rightarrow> bnode \<Rightarrow> bnode option" where
  "find_in_block n (Block p r ns) = first_some (map (find_in_bnode n) ns)"
| "find_in_bnode n (BNode m bs) =
     (if m = n then Some (BNode m bs) else first_some (map (find_in_block n) bs))"

text \<open>\<open>n->blocks()\<close>\<close>

definition blocks :: "graph \<Rightarrow> node_id \<Rightarrow> block list" where
  "blocks g n = (case find_in_block n (top_block g) of None \<Rightarrow> [] | Some e \<Rightarrow> bn_blocks e)"

text \<open>Every Node of a Block or entry, nested ones and Param and Return Nodes included.\<close>

fun ids_block :: "block \<Rightarrow> node_id list" and ids_bnode :: "bnode \<Rightarrow> node_id list" where
  "ids_block (Block p r ns) = p # r # concat (map ids_bnode ns)"
| "ids_bnode (BNode m bs) = m # concat (map ids_block bs)"

text \<open>
  Insertion of an entry before the Node \<open>ip\<close>; before the Return Node of a Block is at
  the end of the Block.
\<close>

definition insert_at :: "node_id \<Rightarrow> node_id \<Rightarrow> bnode \<Rightarrow> bnode list \<Rightarrow> bnode list" where
  "insert_at ip r e ns =
     (if ip = r then ns @ [e] else concat (map (\<lambda>x. if bn_id x = ip then [e, x] else [x]) ns))"

fun insert_before_block :: "node_id \<Rightarrow> bnode \<Rightarrow> block \<Rightarrow> block"
  and insert_before_bnode :: "node_id \<Rightarrow> bnode \<Rightarrow> bnode \<Rightarrow> bnode" where
  "insert_before_block ip e (Block p r ns) =
     Block p r (insert_at ip r e (map (insert_before_bnode ip e) ns))"
| "insert_before_bnode ip e (BNode m bs) = BNode m (map (insert_before_block ip e) bs)"

fun remove_block :: "node_id \<Rightarrow> block \<Rightarrow> block"
  and remove_bnode :: "node_id \<Rightarrow> bnode \<Rightarrow> bnode" where
  "remove_block n (Block p r ns) =
     Block p r (filter (\<lambda>x. bn_id x \<noteq> n) (map (remove_bnode n) ns))"
| "remove_bnode n (BNode m bs) = BNode m (map (remove_block n) bs)"

text \<open>\<open>n->next()\<close>: the Node after \<open>n\<close> in its Block, the Return Node after the last.\<close>

fun next_in :: "node_id \<Rightarrow> node_id \<Rightarrow> bnode list \<Rightarrow> node_id option" where
  "next_in n r [] = None"
| "next_in n r [x] = (if bn_id x = n then Some r else None)"
| "next_in n r (x # y # ys) = (if bn_id x = n then Some (bn_id y) else next_in n r (y # ys))"

fun next_block :: "node_id \<Rightarrow> block \<Rightarrow> node_id option"
  and next_bnode :: "node_id \<Rightarrow> bnode \<Rightarrow> node_id option" where
  "next_block n (Block p r ns) =
     (case next_in n r ns of
        Some m \<Rightarrow> Some m
      | None \<Rightarrow> first_some (map (next_bnode n) ns))"
| "next_bnode n (BNode m bs) = first_some (map (next_block n) bs)"

definition "next" :: "graph \<Rightarrow> node_id \<Rightarrow> error + node_id" where
  "next g n = (case next_block n (top_block g) of None \<Rightarrow> Inl DanglingRef | Some m \<Rightarrow> Inr m)"

text \<open>\<open>graph->insertNode(n)\<close>: before the insert point.\<close>

definition insertNode :: "graph \<Rightarrow> node_id \<Rightarrow> graph" where
  "insertNode g n =
     g \<lparr> top_block := insert_before_block (insert_point g) (BNode n []) (top_block g) \<rparr>"

text \<open>\<open>n->moveBefore(target)\<close>\<close>

definition moveBefore :: "graph \<Rightarrow> node_id \<Rightarrow> node_id \<Rightarrow> graph" where
  "moveBefore g n target =
     (case find_in_block n (top_block g) of
        None \<Rightarrow> g
      | Some e \<Rightarrow>
          g \<lparr> top_block := insert_before_block target e (remove_block n (top_block g)) \<rparr>)"

text \<open>\<open>n->replaceInput(i, v)\<close> asserts that the slot exists.\<close>

definition replaceInput :: "graph \<Rightarrow> node_id \<Rightarrow> nat \<Rightarrow> ir_value \<Rightarrow> error + graph" where
  "replaceInput g n i v =
     ebind (get_node g n) (\<lambda>nd.
       if i < length (inputs nd)
       then Inr (g \<lparr> nodes := (nodes g)(n \<mapsto> nd \<lparr> inputs := (inputs nd)[i := v] \<rparr>) \<rparr>)
       else Inl (InternalAssert ''i < inputs_.size()''))"

definition replace_value :: "ir_value \<Rightarrow> ir_value \<Rightarrow> node \<Rightarrow> node" where
  "replace_value from to nd =
     nd \<lparr> inputs := map (\<lambda>x. if x = from then to else x) (inputs nd) \<rparr>"

text \<open>\<open>n->replaceInputWith(from, to)\<close>: every slot of \<open>n\<close> that reads \<open>from\<close>.\<close>

definition replaceInputWith :: "graph \<Rightarrow> node_id \<Rightarrow> ir_value \<Rightarrow> ir_value \<Rightarrow> error + graph" where
  "replaceInputWith g n from to =
     ebind (get_node g n) (\<lambda>nd. Inr (g \<lparr> nodes := (nodes g)(n \<mapsto> replace_value from to nd) \<rparr>))"

text \<open>\<open>v->replaceAllUsesWith(to)\<close>: every slot of every Node that reads \<open>v\<close>.\<close>

definition replaceAllUsesWith :: "graph \<Rightarrow> ir_value \<Rightarrow> ir_value \<Rightarrow> graph" where
  "replaceAllUsesWith g v to =
     g \<lparr> nodes := (\<lambda>n. map_option (replace_value v to) (nodes g n)) \<rparr>"

text \<open>\<open>n->removeAllInputs()\<close>\<close>

definition removeAllInputs :: "graph \<Rightarrow> node_id \<Rightarrow> error + graph" where
  "removeAllInputs g n =
     ebind (get_node g n) (\<lambda>nd. Inr (g \<lparr> nodes := (nodes g)(n \<mapsto> nd \<lparr> inputs := [] \<rparr>) \<rparr>))"

text \<open>
  \<open>n->destroy()\<close> asserts that no output of the Node has a use left, then frees the
  Node with the Blocks nested in it and unlinks it from its Block.
\<close>

definition destroy :: "graph \<Rightarrow> node_id \<Rightarrow> error + graph" where
  "destroy g n =
     ebind (get_node g n) (\<lambda>nd.
       if list_ex (\<lambda>i. uses g (Value n i) \<noteq> []) [0..<num_outputs nd]
       then Inl (InternalAssert ''uses().empty()'')
       else
         let dead = (case find_in_block n (top_block g) of None \<Rightarrow> [n] | Some e \<Rightarrow> ids_bnode e)
         in Inr (g \<lparr> nodes := (\<lambda>m. if m \<in> set dead then None else nodes g m),
                    top_block := remove_block n (top_block g) \<rparr>))"

text \<open>A loop over a list that stops at the first error.\<close>

fun foldE :: "('s \<Rightarrow> 'a \<Rightarrow> error + 's) \<Rightarrow> 's \<Rightarrow> 'a list \<Rightarrow> error + 's" where
  "foldE f s [] = Inr s"
| "foldE f s (x # xs) = ebind (f s x) (\<lambda>s'. foldE f s' xs)"

fun filterE :: "('a \<Rightarrow> error + bool) \<Rightarrow> 'a list \<Rightarrow> error + 'a list" where
  "filterE p [] = Inr []"
| "filterE p (x # xs) =
     ebind (p x) (\<lambda>b. ebind (filterE p xs) (\<lambda>ys. Inr (if b then x # ys else ys)))"

text \<open>
  The loop over \<open>blocks_to_visit\<close> that the passes share: the top of the stack is
  popped, its Nodes are visited in order and the Blocks nested in each are pushed. The
  result is the Nodes in the order the loop visits them.
\<close>

function visit_blocks :: "block list \<Rightarrow> node_id list" where
  "visit_blocks [] = []"
| "visit_blocks (b # stack) =
     map bn_id (b_nodes b) @ visit_blocks (rev (concat (map bn_blocks (b_nodes b))) @ stack)"
  by pat_completeness auto
termination
proof (relation "measure (\<lambda>stack. size_list size stack)")
  show "wf (measure (\<lambda>stack. size_list size stack))" by simp
next
  fix b :: block and stack :: "block list"
  have nested: "size_list size (concat (map bn_blocks ns)) \<le> size_list size ns"
    for ns :: "bnode list"
  proof (induction ns)
    case Nil
    then show ?case by simp
  next
    case (Cons x xs)
    then show ?case by (cases x) (simp add: size_list_append)
  qed
  have "size_list size (rev (concat (map bn_blocks (b_nodes b)))) < size b"
    using nested [of "b_nodes b"]
    by (cases b) (simp add: size_list_conv_sum_list rev_map [symmetric])
  then show "(rev (concat (map bn_blocks (b_nodes b))) @ stack, b # stack)
      \<in> measure (\<lambda>stack. size_list size stack)"
    by (simp add: size_list_append)
qed

section \<open>Insertion of dequantize Nodes\<close>

text \<open>
  \<open>WithInsertPoint ins(n)\<close> sets the insert point for a scope and restores the former
  one when the scope ends, also when it ends by an exception.
\<close>

definition with_insert_point ::
  "graph \<Rightarrow> node_id \<Rightarrow> (graph \<Rightarrow> error + 'a \<times> graph) \<Rightarrow> error + 'a \<times> graph" where
  "with_insert_point g n body =
     ebind (body (g \<lparr> insert_point := n \<rparr>))
       (\<lambda>(a, g'). Inr (a, g' \<lparr> insert_point := insert_point g \<rparr>))"

text \<open>
  \<open>insertDeQuant\<close>; the debug name and type it sets on the output, and so its
  arguments \<open>original_val\<close> and \<open>id\<close>, leave no trace in the model.
\<close>

definition insertDeQuant :: "graph \<Rightarrow> ir_value \<Rightarrow> node_id \<times> graph" where
  "insertDeQuant g quantized_val =
     (let (dequant, g1) = create g ''aten::dequantize'' [quantized_val] 1
      in (dequant, insertNode g1 dequant))"

fun insertDeQuant_uses ::
  "graph \<Rightarrow> ir_value \<Rightarrow> (node_id \<times> nat) list \<Rightarrow> error + ir_value list \<times> graph" where
  "insertDeQuant_uses g quantized_val [] = Inr ([], g)"
| "insertDeQuant_uses g quantized_val ((user, off) # us) =
     ebind
       (with_insert_point g user (\<lambda>g1.
          let (dequant, g2) = insertDeQuant g1 quantized_val
          in ebind (replaceInput g2 user off (Value dequant 0))
               (\<lambda>g3. Inr (Value dequant 0, g3))))
       (\<lambda>(out, g4).
          ebind (insertDeQuant_uses g4 quantized_val us)
            (\<lambda>(outs, g5). Inr (out # outs, g5)))"

text \<open>\<open>insertDeQuantForAllUse\<close>: the loop runs over a copy of the use list.\<close>

definition insertDeQuantForAllUse ::
  "graph \<Rightarrow> ir_value \<Rightarrow> ir_value \<Rightarrow> error + ir_value list \<times> graph" where
  "insertDeQuantForAllUse g quantized_val original_val =
     insertDeQuant_uses g quantized_val (uses g original_val)"

section \<open>Dequantize replication\<close>

definition multi_use_dequant :: "graph \<Rightarrow> node_id \<Rightarrow> error + bool" where
  "multi_use_dequant g n =
     ebind (get_node g n) (\<lambda>nd.
       if kind nd = ''aten::dequantize''
       then ebind (output g n) (\<lambda>out. Inr (length (uses g out) > 1))
       else Inr False)"

definition replicate_dequant :: "graph \<Rightarrow> node_id \<Rightarrow> error + graph" where
  "replicate_dequant g n =
     ebind (input g n 0) (\<lambda>quantized_val.
       ebind (output g n) (\<lambda>dequantized_val.
         ebind (insertDeQuantForAllUse g quantized_val dequantized_val)
           (\<lambda>(outs, g'). Inr g')))"

text \<open>
  \<open>ReplicateDeQuant\<close> changes the Graph in place by three loops over
  \<open>dequant_nodes_to_rewrite\<close>: the first replicates each Node, the second clears the
  inputs of each Node, the third destroys each Node. \<open>ReplicateDeQuant_loops\<close> is
  the Graph after each of the three loops; the last is the Graph that the pass leaves.
\<close>

definition ReplicateDeQuant_loops :: "graph \<Rightarrow> error + graph \<times> graph \<times> graph" where
  "ReplicateDeQuant_loops g =
     ebind (filterE (multi_use_dequant g) (visit_blocks [top_block g]))
       (\<lambda>dequant_nodes_to_rewrite.
          ebind (foldE replicate_dequant g dequant_nodes_to_rewrite) (\<lambda>g1.
            ebind (foldE removeAllInputs g1 dequant_nodes_to_rewrite) (\<lambda>g2.
              ebind (foldE destroy g2 dequant_nodes_to_rewrite) (\<lambda>g3.
                Inr (g1, g2, g3)))))"

definition ReplicateDeQuant :: "graph \<Rightarrow> error + graph" where
  "ReplicateDeQuant g = ebind (ReplicateDeQuant_loops g) (\<lambda>(g1, g2, g3). Inr g3)"

text \<open>
  A quantized Value whose dequantized form has two consumers: \<open>x\<close> is quantized, the
  dequantize output feeds \<open>aten::relu\<close> and both operands of \<open>aten::add\<close>.
\<close>

definition fanout_graph :: graph where
  "fanout_graph =
     \<lparr> nodes = Map.empty(
         0 \<mapsto> \<lparr> kind = ''prim::Param'', inputs = [], num_outputs = 2, attr_name = None \<rparr>,
         1 \<mapsto> \<lparr> kind = ''prim::Return'', inputs = [Value 4 0, Value 5 0], num_outputs = 0,
                 attr_name = None \<rparr>,
         2 \<mapsto> \<lparr> kind = ''aten::quantize_per_tensor'', inputs = [Value 0 1],
                 num_outputs = 1, attr_name = None \<rparr>,
         3 \<mapsto> \<lparr> kind = ''aten::dequantize'', inputs = [Value 2 0], num_outputs = 1,
                 attr_name = None \<rparr>,
         4 \<mapsto> \<lparr> kind = ''aten::relu'', inputs = [Value 3 0], num_outputs = 1,
                 attr_name = None \<rparr>,
         5 \<mapsto> \<lparr> kind = ''aten::add'', inputs = [Value 3 0, Value 3 0], num_outputs = 1,
                 attr_name = None \<rparr>),
       top_block = Block 0 1 [BNode 2 [], BNode 3 [], BNode 4 [], BNode 5 []],
       next_node = 6,
       insert_point = 1 \<rparr>"

text \<open>
  A dequantize Node that reads the output of a dequantize Node: \<open>x\<close> is quantized,
  the first dequantize output feeds the second dequantize Node and \<open>aten::relu\<close>, the
  second dequantize output feeds \<open>aten::relu\<close> and \<open>aten::sigmoid\<close>.
\<close>

definition chained_graph :: graph where
  "chained_graph =
     \<lparr> nodes = Map.empty(
         0 \<mapsto> \<lparr> kind = ''prim::Param'', inputs = [], num_outputs = 2, attr_name = None \<rparr>,
         1 \<mapsto> \<lparr> kind = ''prim::Return'', inputs = [Value 5 0, Value 6 0, Value 7 0],
                 num_outputs = 0, attr_name = None \<rparr>,
         2 \<mapsto> \<lparr> kind = ''aten::quantize_per_tensor'', inputs = [Value 0 1],
                 num_outputs = 1, attr_name = None \<rparr>,
         3 \<mapsto> \<lparr> kind = ''aten::dequantize'', inputs = [Value 2 0], num_outputs = 1,
                 attr_name = None \<rparr>,
         4 \<mapsto> \<lparr> kind = ''aten::dequantize'', inputs = [Value 3 0], num_outputs = 1,
                 attr_name = None \<rparr>,
         5 \<mapsto> \<lparr> kind = ''aten::relu'', inputs = [Value 3 0], num_outputs = 1,
                 attr_name = None \<rparr>,
         6 \<mapsto> \<lparr> kind = ''aten::relu'', inputs = [Value 4 0], num_outputs = 1,
                 attr_name = None \<rparr>,
         7 \<mapsto> \<lparr> kind = ''aten::sigmoid'', inputs = [Value 4 0], num_outputs = 1,
                 attr_name = None \<rparr>),
       top_block = Block 0 1 [BNode 2 [], BNode 3 [], BNode 4 [], BNode 5 [], BNode 6 [],
                     BNode 7 []],
       next_node = 8,
       insert_point = 1 \<rparr>"

section \<open>Well-formed stores\<close>

text \<open>
  Node identities are allocated in order: every live Node, and the producer of every
  input of a live Node, lies below \<open>next_node\<close>.
\<close>

definition bounded :: "graph \<Rightarrow> bool" where
  "bounded g =
     (\<forall>n nd. nodes g n = Some nd \<longrightarrow>
        n < next_node g \<and> (\<forall>v \<in> set (inputs nd). producer v < next_node g))"

text \<open>The input slot \<open>o\<close> of the live Node \<open>m\<close> reads \<open>v\<close>.\<close>

definition reads :: "graph \<Rightarrow> node_id \<Rightarrow> nat \<Rightarrow> ir_value \<Rightarrow> bool" where
  "reads g m slot v =
     (case nodes g m of
        None \<Rightarrow> False
      | Some nd \<Rightarrow> slot < length (inputs nd) \<and> inputs nd ! slot = v)"

definition dequantize_of :: "ir_value \<Rightarrow> node" where
  "dequantize_of q =
     \<lparr> kind = ''aten::dequantize'', inputs = [q], num_outputs = 1, attr_name = None \<rparr>"

text \<open>Every entry of the Node \<open>p\<close> in a tree of Blocks has no Block nested in it.\<close>

fun leaf_at_block :: "node_id \<Rightarrow> block \<Rightarrow> bool"
  and leaf_at_bnode :: "node_id \<Rightarrow> bnode \<Rightarrow> bool" where
  "leaf_at_block p (Block pn rn ns) = list_all (leaf_at_bnode p) ns"
| "leaf_at_bnode p (BNode m bs) = ((m = p \<longrightarrow> bs = []) \<and> list_all (leaf_at_block p) bs)"

text \<open>The shape of a Node: everything but the Values its inputs read.\<close>

definition shape :: "graph \<Rightarrow> node_id \<Rightarrow> (string \<times> nat \<times> string option \<times> nat) option" where
  "shape g m =
     map_option (\<lambda>nd. (kind nd, num_outputs nd, attr_name nd, length (inputs nd))) (nodes g m)"

text \<open>
  The Node \<open>u\<close> comes after the first occurrence of the Node \<open>d\<close> in a row of
  Nodes.
\<close>

fun precedes :: "node_id \<Rightarrow> node_id \<Rightarrow> node_id list \<Rightarrow> bool" where
  "precedes d u [] = False"
| "precedes d u (x # xs) = (if x = d then u \<in> set xs else precedes d u xs)"

text \<open>
  The Node \<open>d\<close> is placed before the Node \<open>u\<close> in the Block of \<open>u\<close>: both
  are in the row of one Block of the tree, \<open>d\<close> first, the row of a Block being its
  Nodes in order and then its Return Node.
\<close>

fun before_in_block :: "node_id \<Rightarrow> node_id \<Rightarrow> block \<Rightarrow> bool"
  and before_in_bnode :: "node_id \<Rightarrow> node_id \<Rightarrow> bnode \<Rightarrow> bool" where
  "before_in_block d u (Block p r ns) =
     (precedes d u (map bn_id ns @ [r]) \<or> list_ex (before_in_bnode d u) ns)"
| "before_in_bnode d u (BNode m bs) = list_ex (before_in_block d u) bs"

text \<open>The Node \<open>u\<close> is in the row of a Block of the tree.\<close>

fun in_block :: "node_id \<Rightarrow> block \<Rightarrow> bool"
  and in_bnode :: "node_id \<Rightarrow> bnode \<Rightarrow> bool" where
  "in_block u (Block p r ns) = (u \<in> set (map bn_id ns @ [r]) \<or> list_ex (in_bnode u) ns)"
| "in_bnode u (BNode m bs) = list_ex (in_block u) bs"

text \<open>A dequantize Node whose output has more than one use.\<close>

definition multi_use :: "graph \<Rightarrow> node_id \<Rightarrow> bool" where
  "multi_use g p =
     (case nodes g p of
        None \<Rightarrow> False
      | Some nd \<Rightarrow> kind nd = ''aten::dequantize'' \<and> 1 < length (uses g (Value p 0)))"

text \<open>
  No such Node reads the output of another one: a replicated dequantize reads a
  quantized Value, never the output of another replicated dequantize.
\<close>

definition independent :: "graph \<Rightarrow> bool" where
  "independent g =
     (\<forall>p slot v. multi_use g p \<longrightarrow> reads g p slot v \<longrightarrow> \<not> multi_use g (producer v))"

text \<open>
  What the IR keeps of every Graph: identities are allocated in order, a Node is in
  one Block once, the Nodes of the Blocks are live, a Node that reads a Value is in a
  Block, and a dequantize Node has one output, an input, and no Block nested in it.
\<close>

definition wellformed :: "graph \<Rightarrow> bool" where
  "wellformed g =
     (bounded g \<and> distinct (visit_blocks [top_block g]) \<and>
      (\<forall>m \<in> set (visit_blocks [top_block g]). nodes g m \<noteq> None) \<and>
      (\<forall>m slot v. reads g m slot v \<longrightarrow> in_block m (top_block g)) \<and>
      (\<forall>p nd. nodes g p = Some nd \<longrightarrow> kind nd = ''aten::dequantize'' \<longrightarrow>
         num_outputs nd = 1 \<and> inputs nd \<noteq> [] \<and> leaf_at_block p (top_block g)))"

text \<open>
  The Graph \<open>g\<close> is \<open>g0\<close> after the dequantize Nodes \<open>ps\<close> were replicated: the
  Nodes of \<open>g0\<close> keep their shapes and their places, every slot that read the output
  of a Node of \<open>ps\<close> reads a fresh dequantize Node of its own that reads what that
  Node read and is placed before the reader in its Block, the fresh Nodes are nothing
  else, and every other slot reads what it read.
\<close>

definition replicated :: "graph \<Rightarrow> node_id list \<Rightarrow> graph \<Rightarrow> bool" where
  "replicated g0 ps g =
     (bounded g \<and> next_node g0 \<le> next_node g \<and>
      (\<forall>p. leaf_at_block p (top_block g0) \<longrightarrow> leaf_at_block p (top_block g)) \<and>
      (\<forall>u. in_block u (top_block g0) \<longrightarrow> in_block u (top_block g)) \<and>
      (\<forall>m < next_node g0. shape g m = shape g0 m) \<and>
      (\<forall>d. next_node g0 \<le> d \<and> d < next_node g \<longrightarrow>
         (\<exists>p \<in> set ps. \<exists>q. reads g0 p 0 q \<and> nodes g d = Some (dequantize_of q))) \<and>
      (\<forall>m slot p. p \<in> set ps \<longrightarrow> reads g0 m slot (Value p 0) \<longrightarrow>
         (\<exists>d q. next_node g0 \<le> d \<and> reads g0 p 0 q \<and> nodes g d = Some (dequantize_of q) \<and>
            reads g m slot (Value d 0) \<and> before_in_block d m (top_block g) \<and>
            (\<forall>m' s'. reads g m' s' (Value d 0) \<longrightarrow> m' = m \<and> s' = slot))) \<and>
      (\<forall>m slot v. m < next_node g0 \<longrightarrow> (\<forall>p \<in> set ps. \<not> reads g0 m slot (Value p 0)) \<longrightarrow>
         reads g m slot v = reads g0 m slot v))"

text \<open>
  The Graph \<open>g'\<close> has the dequantize Node \<open>n\<close> of the Graph \<open>g\<close>, which read
  \<open>q\<close>, fanned out: \<open>n\<close> is in no Block and not live, and there are as many
  fresh dequantize Nodes as the output of \<open>n\<close> had uses, one for each use in order,
  each reading \<open>q\<close>, having that use as its only use, and placed before its user in
  the Block of the user.
\<close>

definition fanned_out :: "graph \<Rightarrow> node_id \<Rightarrow> ir_value \<Rightarrow> graph \<Rightarrow> bool" where
  "fanned_out g n q g' =
     (nodes g' n = None \<and> find_in_block n (top_block g') = None \<and>
      (\<exists>ds. distinct ds \<and>
         list_all2 (\<lambda>d use. nodes g d = None \<and> nodes g' d = Some (dequantize_of q) \<and>
                      uses g' (Value d 0) = [use] \<and>
                      before_in_block d (fst use) (top_block g'))
           ds (uses g (Value n 0))))"

section \<open>Insertion of quantize and dequantize Nodes\<close>

text \<open>
  Modelled from the spec: \<open>graph->insertGetAttr(obj, field)\<close> and
  \<open>graph->insertConstant(value)\<close> create a \<open>prim::GetAttr\<close> Node of \<open>obj\<close>
  carrying the attribute name, and a \<open>prim::Constant\<close> Node, and insert them at the
  insert point. The value of a constant is not part of the model.
\<close>

definition insertGetAttr :: "graph \<Rightarrow> ir_value \<Rightarrow> string \<Rightarrow> ir_value \<times> graph" where
  "insertGetAttr g obj field =
     (let (n, g1) = create g ''prim::GetAttr'' [obj] 1;
          g2 = g1 \<lparr> nodes := (nodes g1)(n \<mapsto>
                 \<lparr> kind = ''prim::GetAttr'', inputs = [obj], num_outputs = 1,
                   attr_name = Some field \<rparr>) \<rparr>
      in (Value n 0, insertNode g2 n))"

definition insertConstant :: "graph \<Rightarrow> ir_value \<times> graph" where
  "insertConstant g =
     (let (n, g1) = create g ''prim::Constant'' [] 1 in (Value n 0, insertNode g1 n))"

text \<open>\<open>insertChooseQParams\<close>: the reduce-range constant, then the Node with two outputs.\<close>

definition insertChooseQParams :: "graph \<Rightarrow> ir_value \<Rightarrow> node_id \<times> graph" where
  "insertChooseQParams g original_val =
     (let (reduce_range, g1) = insertConstant g;
          (choose_qparams, g2) =
             create g1 ''aten::_choose_qparams_per_tensor'' [original_val, reduce_range] 2
      in (choose_qparams, insertNode g2 choose_qparams))"

definition insertQuant :: "graph \<Rightarrow> ir_value list \<Rightarrow> string \<Rightarrow> node_id \<times> graph" where
  "insertQuant g ins quant_kind =
     (let (quant, g1) = create g quant_kind ins 1 in (quant, insertNode g1 quant))"

definition insertChooseQParamQuantDequant ::
  "graph \<Rightarrow> ir_value \<Rightarrow> ir_value \<Rightarrow> string \<Rightarrow> (node_id \<times> node_id \<times> node_id) \<times> graph" where
  "insertChooseQParamQuantDequant g original_val dtype quant_kind =
     (let (choose_qparams, g1) = insertChooseQParams g original_val;
          quant_inputs = [original_val, Value choose_qparams 0, Value choose_qparams 1, dtype];
          (quant, g2) = insertQuant g1 quant_inputs quant_kind;
          (dequant, g3) = insertDeQuant g2 (Value quant 0)
      in ((choose_qparams, quant, dequant), g3))"

datatype QuantType = DYNAMIC | STATIC

text \<open>The loop that inserts one \<open>prim::GetAttr\<close> per qparam name, in order.\<close>

fun insertGetAttrs :: "graph \<Rightarrow> ir_value \<Rightarrow> string list \<Rightarrow> ir_value list \<times> graph" where
  "insertGetAttrs g self [] = ([], g)"
| "insertGetAttrs g self (qparam_name # rest) =
     (let (v, g1) = insertGetAttr g self qparam_name;
          (vs, g2) = insertGetAttrs g1 self rest
      in (v # vs, g2))"

text \<open>
  \<open>insertQuantizationOps\<close>. The result of \<open>isWeight(module, observer_out)\<close>, which
  walks the methods the Value is passed to, is the parameter \<open>is_weight\<close>; it is
  evaluated only for dynamic quantization. On the static path the source never assigns
  the pointer \<open>choose_qparams\<close> that the last loop compares with; the model takes it to
  be no Node.
\<close>

definition rewire_use ::
  "node_id \<Rightarrow> node_id \<Rightarrow> node_id option \<Rightarrow> ir_value \<Rightarrow> ir_value \<Rightarrow> graph \<Rightarrow>
   node_id \<times> nat \<Rightarrow> error + graph" where
  "rewire_use quant observer choose_qparams original_val dequant_out g use =
     (let user = fst use in
      if user \<noteq> quant \<and> user \<noteq> observer \<and> Some user \<noteq> choose_qparams
      then replaceInputWith g user original_val dequant_out
      else Inr g)"

definition insertQuantizationOps ::
  "graph \<Rightarrow> (error + bool) \<Rightarrow> ir_value \<Rightarrow> node_id \<Rightarrow> bool \<Rightarrow> string list \<Rightarrow> QuantType \<Rightarrow>
   error + graph" where
  "insertQuantizationOps g is_weight self observer is_per_channel qparam_names quant_type =
     ebind (output g observer) (\<lambda>observer_out.
     ebind (next g observer) (\<lambda>ip.
     ebind (with_insert_point g ip (\<lambda>g.
       let quantize_func =
             (if is_per_channel then ''quantize_per_channel'' else ''quantize_per_tensor'')
       in
       ebind (input g observer 1) (\<lambda>original_val.
       ebind (if quant_type = DYNAMIC then ebind is_weight (\<lambda>w. Inr (\<not> w)) else Inr False)
         (\<lambda>dynamic.
       ebind
         (if dynamic then
            (if qparam_names = [] then Inl OutOfRange
             else
               let (dtype, g1) = insertGetAttr g self (last qparam_names);
                   ((choose_qparams, quant, dequant), g2) =
                      insertChooseQParamQuantDequant g1 observer_out dtype
                        (''aten::'' @ quantize_func)
               in Inr ((quant, Some choose_qparams, dequant), g2))
          else
            let (attrs, g1) = insertGetAttrs g self qparam_names;
                (quant, g2) = insertQuant g1 (observer_out # attrs) (''aten::'' @ quantize_func);
                (dequant, g3) = insertDeQuant g2 (Value quant 0)
            in Inr ((quant, None, dequant), g3))
         (\<lambda>((quant, choose_qparams, dequant), g4).
            let g5 = replaceAllUsesWith g4 observer_out original_val
            in ebind
                 (foldE (rewire_use quant observer choose_qparams original_val (Value dequant 0))
                    g5 (uses g5 original_val))
                 (\<lambda>g6. Inr ((), g6)))))))
       (\<lambda>(u, g'). Inr g')))"

text \<open>Every live Node lies below \<open>next_node\<close>.\<close>

definition allocated :: "graph \<Rightarrow> bool" where
  "allocated g = (\<forall>m. nodes g m \<noteq> None \<longrightarrow> m < next_node g)"

text \<open>
  What insertion leaves behind, in the words of the claim: \<open>quant\<close> is a quantize Node
  of kind \<open>k\<close> reading the raw Value, \<open>dequant\<close> is a dequantize Node reading its
  output, \<open>choose_qparams\<close>, if any, is a parameter-selection Node reading the raw
  Value, and the observer still reads the raw Value; the output of the observer call has
  no use left; every input slot of another Node that read the raw Value or the observer's
  output reads the dequantize output; and the raw Value is read only by the observer,
  the quantize Node and the parameter-selection Node.
\<close>

definition redirected ::
  "graph \<Rightarrow> graph \<Rightarrow> string \<Rightarrow> node_id \<Rightarrow> ir_value \<Rightarrow> ir_value \<Rightarrow> node_id \<Rightarrow> node_id \<Rightarrow>
   node_id option \<Rightarrow> bool" where
  "redirected g g' k observer observer_out original_val quant dequant choose_qparams =
     (nodes g quant = None \<and> nodes g dequant = None \<and>
      map_option kind (nodes g' quant) = Some k \<and> reads g' quant 0 original_val \<and>
      nodes g' dequant = Some (dequantize_of (Value quant 0)) \<and>
      (\<forall>c. choose_qparams = Some c \<longrightarrow>
         nodes g c = None \<and>
         map_option kind (nodes g' c) = Some ''aten::_choose_qparams_per_tensor'' \<and>
         reads g' c 0 original_val) \<and>
      reads g' observer 1 original_val \<and>
      (\<forall>m slot. \<not> reads g' m slot observer_out) \<and>
      (\<forall>m slot. m \<noteq> observer \<longrightarrow>
         reads g m slot original_val \<or> reads g m slot observer_out \<longrightarrow>
         reads g' m slot (Value dequant 0)) \<and>
      (\<forall>m slot. reads g' m slot original_val \<longrightarrow>
         m = observer \<or> m = quant \<or> choose_qparams = Some m))"

definition quantize_kind :: "bool \<Rightarrow> string" where
  "quantize_kind is_per_channel =
     ''aten::'' @ (if is_per_channel then ''quantize_per_channel'' else ''quantize_per_tensor'')"

section \<open>Conditional quantize replication\<close>

definition quant_of_if :: "graph \<Rightarrow> node_id \<Rightarrow> error + bool" where
  "quant_of_if g n =
     ebind (get_node g n) (\<lambda>nd.
       if kind nd = ''aten::quantize_per_tensor'' \<or> kind nd = ''aten::quantize_per_channel''
       then ebind (input g n 0) (\<lambda>v.
              ebind (node_of g v) (\<lambda>p. Inr (kind p = ''prim::If'')))
       else Inr False)"

text \<open>
  The body of the loop over the Blocks of the conditional: the check on the outputs of
  the Block, then a quantize Node of the returned Value at the end of the Block, which
  becomes the output of the Block.
\<close>

definition replicate_quant_block :: "node_id \<Rightarrow> graph \<Rightarrow> block \<Rightarrow> error + graph" where
  "replicate_quant_block n g if_block =
     ebind (get_node g (return_node if_block)) (\<lambda>ret.
     ebind (torch_check (length (inputs ret) = 1)
              [''replicate quantize only works for `if` node with one output right now''])
       (\<lambda>_.
     let ret_val = inputs ret ! 0 in
     ebind (get_node g n) (\<lambda>nd.
     let quantize_inputs = (inputs nd)[0 := ret_val] in
     ebind (with_insert_point g (return_node if_block) (\<lambda>g.
              let (quant, g1) = create g (kind nd) quantize_inputs 1 in
              ebind (replaceInput g1 (return_node if_block) 0 (Value quant 0))
                (\<lambda>g2. Inr ((), insertNode g2 quant))))
       (\<lambda>(u, g'). Inr g'))))"

text \<open>
  The rewrite of one collected quantize Node: the producers of its quantization
  parameters move before the conditional, its uses move to the output of the conditional
  (\<open>if_node->output()\<close> asserts that there is exactly one), and every Block of the
  conditional gets its quantize Node.
\<close>

definition replicate_quant :: "graph \<Rightarrow> node_id \<Rightarrow> error + graph" where
  "replicate_quant g n =
     ebind (input g n 0) (\<lambda>v.
     let if_node = producer v in
     ebind (get_node g n) (\<lambda>nd.
     let g1 = fold (\<lambda>p g. moveBefore g (producer p) if_node) (tl (inputs nd)) g in
     ebind (output g1 n) (\<lambda>n_out.
     ebind (output g1 if_node) (\<lambda>if_out.
     let g2 = replaceAllUsesWith g1 n_out if_out in
     foldE (replicate_quant_block n) g2 (blocks g2 if_node)))))"

definition ReplicateQuant :: "graph \<Rightarrow> error + graph" where
  "ReplicateQuant g =
     ebind (filterE (quant_of_if g) (visit_blocks [top_block g]))
       (\<lambda>quant_nodes_to_rewrite.
          ebind (foldE replicate_quant g quant_nodes_to_rewrite) (\<lambda>g1.
            ebind (foldE removeAllInputs g1 quant_nodes_to_rewrite) (\<lambda>g2.
              foldE destroy g2 quant_nodes_to_rewrite)))"

text \<open>The Return Nodes of the Blocks of a tree.\<close>

fun return_nodes :: "block \<Rightarrow> node_id list"
  and return_nodes_bnode :: "bnode \<Rightarrow> node_id list" where
  "return_nodes (Block p r ns) = r # concat (map return_nodes_bnode ns)"
| "return_nodes_bnode (BNode m bs) = concat (map return_nodes bs)"

text \<open>
  A conditional with two outputs whose first output is quantized: each branch returns
  its two inputs from the enclosing Graph, and \<open>aten::quantize_per_tensor\<close> reads the
  first output of the conditional and a scale fetched from the module.
\<close>

definition two_output_if_graph :: graph where
  "two_output_if_graph =
     \<lparr> nodes = Map.empty(
         0 \<mapsto> \<lparr> kind = ''prim::Param'', inputs = [], num_outputs = 4, attr_name = None \<rparr>,
         1 \<mapsto> \<lparr> kind = ''prim::Return'', inputs = [Value 8 0, Value 2 1], num_outputs = 0,
                 attr_name = None \<rparr>,
         2 \<mapsto> \<lparr> kind = ''prim::If'', inputs = [Value 0 1], num_outputs = 2,
                 attr_name = None \<rparr>,
         3 \<mapsto> \<lparr> kind = ''prim::Param'', inputs = [], num_outputs = 0, attr_name = None \<rparr>,
         4 \<mapsto> \<lparr> kind = ''prim::Return'', inputs = [Value 0 2, Value 0 3], num_outputs = 0,
                 attr_name = None \<rparr>,
         5 \<mapsto> \<lparr> kind = ''prim::Param'', inputs = [], num_outputs = 0, attr_name = None \<rparr>,
         6 \<mapsto> \<lparr> kind = ''prim::Return'', inputs = [Value 0 3, Value 0 2], num_outputs = 0,
                 attr_name = None \<rparr>,
         7 \<mapsto> \<lparr> kind = ''prim::GetAttr'', inputs = [Value 0 0], num_outputs = 1,
                 attr_name = Some ''scale'' \<rparr>,
         8 \<mapsto> \<lparr> kind = ''aten::quantize_per_tensor'', inputs = [Value 2 0, Value 7 0],
                 num_outputs = 1, attr_name = None \<rparr>),
       top_block = Block 0 1 [BNode 2 [Block 3 4 [], Block 5 6 []], BNode 7 [], BNode 8 []],
       next_node = 9,
       insert_point = 1 \<rparr>"

text \<open>The same Graph with a conditional of one output.\<close>

definition one_output_if_graph :: graph where
  "one_output_if_graph =
     two_output_if_graph \<lparr> nodes := (nodes two_output_if_graph)(
         1 \<mapsto> \<lparr> kind = ''prim::Return'', inputs = [Value 8 0], num_outputs = 0,
                 attr_name = None \<rparr>,
         2 \<mapsto> \<lparr> kind = ''prim::If'', inputs = [Value 0 1], num_outputs = 1,
                 attr_name = None \<rparr>,
         4 \<mapsto> \<lparr> kind = ''prim::Return'', inputs = [Value 0 2], num_outputs = 0,
                 attr_name = None \<rparr>,
         6 \<mapsto> \<lparr> kind = ''prim::Return'', inputs = [Value 0 3], num_outputs = 0,
                 attr_name = None \<rparr>) \<rparr>"

text \<open>
  The quantize Node \<open>n\<close> reads at slot 0 the Value \<open>v\<close> of a Node that has not exactly
  one output, in a Graph whose Return Nodes all lie in \<open>R\<close>, and \<open>n\<close> is none of them.
\<close>

definition blocked :: "node_id set \<Rightarrow> graph \<Rightarrow> node_id \<Rightarrow> ir_value \<Rightarrow> bool" where
  "blocked R g n v =
     (allocated g \<and> reads g n 0 v \<and>
      (\<exists>nd. nodes g (producer v) = Some nd \<and> num_outputs nd \<noteq> 1) \<and>
      n \<notin> R \<and> set (return_nodes (top_block g)) \<subseteq> R)"

section \<open>Modules and their values\<close>

text \<open>
  Modelled from the spec: Module and IValue are collaborators that the sources consume.
  A Module is an object with a table of attributes and its methods, each with the Graph
  it owns; objects are known by identity. An IValue that holds a \<open>ScalarType\<close> or a
  \<open>QScheme\<close> is an Int holding the enumerator. Tensors and doubles are values of the
  tensor library, whose arithmetic is not part of the model: their types are the
  parameters \<open>'t\<close> and \<open>'f\<close>.
\<close>

type_synonym module_id = nat

datatype ('t, 'f) ivalue =
    INone
  | IInt int
  | IDouble 'f
  | ITensor 't
  | ITuple "('t, 'f) ivalue list"
  | IObject module_id

record ('t, 'f) module_obj =
  m_attrs :: "string \<rightharpoonup> ('t, 'f) ivalue"
  m_methods :: "string \<rightharpoonup> graph_id"

text \<open>
  The operations of \<open>at::Tensor\<close> that the extractor calls, a parameter:
  \<open>tensor.to(dtype)\<close>, and \<open>tensor.item<double>()\<close> and
  \<open>tensor.item<int64_t>()\<close>, which raise unless the Tensor can be read as one number.
\<close>

record ('t, 'f) tensor_ops =
  to_dtype :: "'t \<Rightarrow> int \<Rightarrow> 't"
  item_double :: "'t \<Rightarrow> error + 'f"
  item_int64 :: "'t \<Rightarrow> error + int"

text \<open>
  The enumerators of \<open>at::ScalarType\<close> that the sources name, by their position in
  \<open>c10/core/ScalarType.h\<close>.
\<close>

definition kInt :: int where "kInt = 3"
definition kFloat :: int where "kFloat = 6"
definition kQInt8 :: int where "kQInt8 = 12"
definition Undefined :: int where "Undefined = 16"

text \<open>\<open>static_cast<c10::QScheme>\<close> of the enumerator.\<close>

definition qscheme_of_int :: "int \<Rightarrow> qscheme" where
  "qscheme_of_int i =
     (if i = 0 then kPerTensorAffine
      else if i = 1 then kPerChannelAffine
      else if i = 2 then kPerTensorSymmetric
      else if i = 3 then kPerChannelSymmetric
      else kOtherQScheme (nat i))"

text \<open>\<open>module.attr(name)\<close> raises when the object has no such attribute.\<close>

definition attr :: "('t, 'f) module_obj \<Rightarrow> string \<Rightarrow> error + ('t, 'f) ivalue" where
  "attr m name = (case m_attrs m name of None \<Rightarrow> Inl (AttributeError name) | Some v \<Rightarrow> Inr v)"

definition toInt :: "('t, 'f) ivalue \<Rightarrow> error + int" where
  "toInt v = (case v of IInt i \<Rightarrow> Inr i | _ \<Rightarrow> Inl (InternalAssert ''isInt()''))"

definition toTensor :: "('t, 'f) ivalue \<Rightarrow> error + 't" where
  "toTensor v = (case v of ITensor t \<Rightarrow> Inr t | _ \<Rightarrow> Inl (InternalAssert ''isTensor()''))"

definition toModule ::
  "(module_id \<rightharpoonup> ('t, 'f) module_obj) \<Rightarrow> ('t, 'f) ivalue \<Rightarrow>
   error + module_id \<times> ('t, 'f) module_obj" where
  "toModule ms v =
     (case v of
        IObject m \<Rightarrow> (case ms m of None \<Rightarrow> Inl DanglingRef | Some obj \<Rightarrow> Inr (m, obj))
      | _ \<Rightarrow> Inl (InternalAssert ''isObject()''))"

section \<open>The parameter extractor\<close>

definition tagKind :: "('t, 'f) ivalue \<Rightarrow> string" where
  "tagKind v =
     (case v of INone \<Rightarrow> ''None'' | IInt _ \<Rightarrow> ''Int'' | IDouble _ \<Rightarrow> ''Double''
      | ITensor _ \<Rightarrow> ''Tensor'' | ITuple _ \<Rightarrow> ''Tuple'' | IObject _ \<Rightarrow> ''Object'')"

definition isTensor :: "('t, 'f) ivalue \<Rightarrow> bool" where
  "isTensor v = (case v of ITensor _ \<Rightarrow> True | _ \<Rightarrow> False)"

definition checkCalculateQParamsResult :: "('t, 'f) ivalue \<Rightarrow> error + unit" where
  "checkCalculateQParamsResult qparams =
     (case qparams of
        ITuple elements \<Rightarrow>
          ebind (torch_check (length elements = 2)
                   [''`calculate_qparams` function is expected to return a Tuple of size 2, got Tuple of size '']) (\<lambda>_.
          ebind (torch_check (isTensor (elements ! 0))
                   [''Element of Tuple is expected to be Tensor, but element '', ''0'',
                    '' has type: '', tagKind (elements ! 0)]) (\<lambda>_.
          torch_check (isTensor (elements ! 1))
                   [''Element of Tuple is expected to be Tensor, but element '', ''1'',
                    '' has type: '', tagKind (elements ! 1)]))
      | _ \<Rightarrow>
          Inl (CheckFailed [''`calculate_qparams` function is expected to return a Tuple, but got:'',
                 tagKind qparams]))"

type_synonym ('t, 'f) QParamVector = "(string \<times> ('t, 'f) ivalue) list"

text \<open>
  \<open>getQSchemeAndQParamVector\<close>. Running a method is the work of the interpreter: the
  parameter \<open>run_method\<close> gives what a method of an object returns when called without
  arguments, the calibration state of an observer. The parameter \<open>is_tensor\<close> tells
  whether the type of a Value is a Tensor type, and \<open>ops\<close> are the operations of the
  tensor library.
\<close>

definition getQSchemeAndQParamVector ::
  "('t, 'f) tensor_ops \<Rightarrow> (module_id \<Rightarrow> string \<Rightarrow> error + ('t, 'f) ivalue) \<Rightarrow>
   (ir_value \<Rightarrow> bool) \<Rightarrow> (module_id \<rightharpoonup> ('t, 'f) module_obj) \<Rightarrow> graph \<Rightarrow>
   ('t, 'f) module_obj \<Rightarrow> node_id \<Rightarrow> error + qscheme \<times> ('t, 'f) QParamVector" where
  "getQSchemeAndQParamVector ops run_method is_tensor ms g mdl n =
     ebind (output g n) (\<lambda>v.
     ebind (internal_assert (is_tensor v) ''Expected output of observer node to be Tensor'') (\<lambda>_.
     ebind (findObserverName g v) (\<lambda>observer_name.
     ebind (case observer_name of
              None \<Rightarrow> Inl (InternalAssert ''getQSchemeAndParamMap expects the corresponding observer'')
            | Some name \<Rightarrow> Inr name) (\<lambda>name.
     ebind (attr mdl name) (\<lambda>a.
     ebind (toModule ms a) (\<lambda>(observer_id, observer_module).
     ebind (case m_methods observer_module ''calculate_qparams'' of
              None \<Rightarrow> Inl (AttributeError ''calculate_qparams'')
            | Some _ \<Rightarrow> run_method observer_id ''calculate_qparams'') (\<lambda>result.
     ebind (checkCalculateQParamsResult result) (\<lambda>_.
     ebind (attr observer_module ''dtype'') (\<lambda>scalar_type.
     ebind (toInt scalar_type) (\<lambda>st.
     ebind (torch_check (st \<noteq> Undefined) [''dtype of observer can't be undefined'']) (\<lambda>_.
     case result of
       ITuple tp \<Rightarrow>
         ebind (toTensor (tp ! 0)) (\<lambda>t0.
         ebind (toTensor (tp ! 1)) (\<lambda>t1.
         let scale = to_dtype ops t0 kFloat; zero_point = to_dtype ops t1 kInt in
         ebind (attr observer_module ''qscheme'') (\<lambda>qs.
         ebind (toInt qs) (\<lambda>qi.
         let qscheme = qscheme_of_int qi in
         ebind
           (if isPerChannel qscheme then
              ebind (attr observer_module ''ch_axis'') (\<lambda>axis.
              ebind (toInt axis) (\<lambda>ax.
              Inr [(''_scale'', ITensor scale), (''_zero_point'', ITensor zero_point),
                   (''_axis'', IInt ax)]))
            else
              ebind (item_double ops scale) (\<lambda>s.
              ebind (item_int64 ops zero_point) (\<lambda>z.
              Inr [(''_scale'', IDouble s), (''_zero_point'', IInt z)])))
           (\<lambda>qparams. Inr (qscheme, qparams @ [(''_scalar_type'', scalar_type)]))))))
     | _ \<Rightarrow> Inl (InternalAssert ''isTuple()''))))))))))))"

text \<open>
  An example of the tensor library, for Tensors of bytes: a byte is a number of every
  numeric element type, so a conversion changes the element type only, and a Tensor is
  read as one number when it holds exactly one element. The element type is its
  \<open>ScalarType\<close> enumerator, \<open>kByte\<close> is 0.
\<close>

datatype byte_tensor = ByteTensor (bt_dtype: int) (bt_elems: "8 word list")

definition byte_item :: "byte_tensor \<Rightarrow> error + 8 word" where
  "byte_item t =
     (case bt_elems t of
        [x] \<Rightarrow> Inr x
      | _ \<Rightarrow> Inl (CheckFailed [''only one element tensors can be converted to scalars'']))"

definition byte_ops :: "(byte_tensor, real) tensor_ops" where
  "byte_ops =
     \<lparr> to_dtype = (\<lambda>t d. ByteTensor d (bt_elems t)),
       item_double = (\<lambda>t. ebind (byte_item t) (\<lambda>x. Inr (real (unat x)))),
       item_int64 = (\<lambda>t. ebind (byte_item t) (\<lambda>x. Inr (int (unat x)))) \<rparr>"

text \<open>
  A per-tensor observer for the observed Graph: the module holds the observer object 1
  under \<open>_observer_0\<close>, which declares \<open>dtype\<close> qint8 and the per-tensor affine
  scheme. Its calibration yields \<open>scale = 2\<close> and \<open>zero_point = 10\<close>; a second
  calibration yields two scales and two zero points.
\<close>

definition observer_obj :: "(byte_tensor, real) module_obj" where
  "observer_obj =
     \<lparr> m_attrs = Map.empty(''dtype'' \<mapsto> IInt kQInt8, ''qscheme'' \<mapsto> IInt 0),
       m_methods = Map.empty(''calculate_qparams'' \<mapsto> 1, ''forward'' \<mapsto> 2) \<rparr>"

definition root_obj :: "(byte_tensor, real) module_obj" where
  "root_obj =
     \<lparr> m_attrs = Map.empty(''_observer_0'' \<mapsto> IObject 1),
       m_methods = Map.empty(''forward'' \<mapsto> 0) \<rparr>"

definition module_store :: "module_id \<rightharpoonup> (byte_tensor, real) module_obj" where
  "module_store = Map.empty(0 \<mapsto> root_obj, 1 \<mapsto> observer_obj)"

definition calibrated :: "module_id \<Rightarrow> string \<Rightarrow> error + (byte_tensor, real) ivalue" where
  "calibrated m name = Inr (ITuple [ITensor (ByteTensor 0 [2]), ITensor (ByteTensor 0 [10])])"

definition calibrated_pair :: "module_id \<Rightarrow> string \<Rightarrow> error + (byte_tensor, real) ivalue" where
  "calibrated_pair m name =
     Inr (ITuple [ITensor (ByteTensor 0 [2, 4]), ITensor (ByteTensor 0 [10, 0])])"

section \<open>The insertion step\<close>

text \<open>
  The state of \<open>InsertQuantDeQuantHelper\<close>: its memo tables, with the Graphs and the
  Module objects that the step reads and writes, each known by identity. A \<open>Node*\<close>
  that keys a table is the Graph and the identity of the Node in it.
\<close>

record ('t, 'f) helper =
  graphs :: "graph_id \<rightharpoonup> graph"
  modules :: "module_id \<rightharpoonup> ('t, 'f) module_obj"
  observer_modules_to_remove :: "graph_id \<rightharpoonup> string list"
  nodes_to_destroy :: "graph_id \<rightharpoonup> node_id list"
  observer_nodes_for_graph :: "graph_id \<rightharpoonup> node_id list"
  qparam_name_map_for_node :: "graph_id \<times> node_id \<rightharpoonup> (string \<rightharpoonup> string)"
  qscheme_for_graph :: "graph_id \<rightharpoonup> qscheme"
  helper_quant_type :: QuantType

text \<open>
  What the step consumes from outside the sources: \<open>getInvokedModule\<close> and
  \<open>isWeight\<close> (\<open>helper.cpp\<close>), the interpreter that runs a method of an object,
  the operations of the tensor library, and the types and debug names of Values.
\<close>

record ('t, 'f) env =
  getInvokedModule ::
    "(module_id \<rightharpoonup> ('t, 'f) module_obj) \<Rightarrow> module_id \<Rightarrow> graph \<Rightarrow> node_id \<Rightarrow>
     ir_value \<Rightarrow> error + module_id"
  isWeight :: "module_id \<Rightarrow> graph \<Rightarrow> ir_value \<Rightarrow> error + bool"
  runMethod :: "module_id \<Rightarrow> string \<Rightarrow> error + ('t, 'f) ivalue"
  tensorOps :: "('t, 'f) tensor_ops"
  isTensorType :: "graph_id \<Rightarrow> ir_value \<Rightarrow> bool"
  debugName :: "graph_id \<Rightarrow> ir_value \<Rightarrow> string"

text \<open>\<open>table[k].push_back(x)\<close>\<close>

definition push_back :: "('k \<rightharpoonup> 'a list) \<Rightarrow> 'k \<Rightarrow> 'a \<Rightarrow> ('k \<rightharpoonup> 'a list)" where
  "push_back t k x = t(k \<mapsto> (case t k of None \<Rightarrow> [] | Some xs \<Rightarrow> xs) @ [x])"

definition get_graph :: "('t, 'f) helper \<Rightarrow> graph_id \<Rightarrow> error + graph" where
  "get_graph h gid = (case graphs h gid of None \<Rightarrow> Inl DanglingRef | Some g \<Rightarrow> Inr g)"

definition get_module :: "('t, 'f) helper \<Rightarrow> module_id \<Rightarrow> error + ('t, 'f) module_obj" where
  "get_module h mid = (case modules h mid of None \<Rightarrow> Inl DanglingRef | Some m \<Rightarrow> Inr m)"

text \<open>\<open>module.get_method(name).graph()\<close> raises when the method is not defined.\<close>

definition get_method :: "('t, 'f) module_obj \<Rightarrow> string \<Rightarrow> error + graph_id" where
  "get_method m name =
     (case m_methods m name of None \<Rightarrow> Inl (AttributeError name) | Some gid \<Rightarrow> Inr gid)"

text \<open>\<open>n->outputs()\<close>\<close>

definition outputs :: "graph \<Rightarrow> node_id \<Rightarrow> error + ir_value list" where
  "outputs g n = ebind (get_node g n) (\<lambda>nd. Inr (map (Value n) [0..<num_outputs nd]))"

text \<open>\<open>graph->inputs()[0]\<close>\<close>

definition self_of :: "graph \<Rightarrow> error + ir_value" where
  "self_of g = (case graph_inputs g of [] \<Rightarrow> Inl OutOfRange | v # vs \<Rightarrow> Inr v)"

text \<open>
  A step that may not return within its fuel, or may raise, or gives a result: the
  sequencing of such steps and the loop over a list.
\<close>

definition obind ::
  "(error + 'a) option \<Rightarrow> ('a \<Rightarrow> (error + 'b) option) \<Rightarrow> (error + 'b) option" where
  "obind x f = (case x of None \<Rightarrow> None | Some (Inl e) \<Rightarrow> Some (Inl e) | Some (Inr a) \<Rightarrow> f a)"

fun foldO :: "('s \<Rightarrow> 'a \<Rightarrow> (error + 's) option) \<Rightarrow> 's \<Rightarrow> 'a list \<Rightarrow> (error + 's) option" where
  "foldO f s [] = Some (Inr s)"
| "foldO f s (x # xs) = obind (f s x) (\<lambda>s'. foldO f s' xs)"

text \<open>
  \<open>getInvokedMethods\<close>: the methods called on \<open>self\<close> and on the child modules other
  than observers, in the order the Blocks are visited.
\<close>

definition invoked_method ::
  "('t, 'f) env \<Rightarrow> ('t, 'f) helper \<Rightarrow> module_id \<Rightarrow> graph \<Rightarrow> node_id \<Rightarrow> error + (module_id \<times> string) list" where
  "invoked_method e h mid g n =
     ebind (get_node g n) (\<lambda>nd.
       if kind nd = ''prim::CallMethod'' then
         ebind (input_at nd 0) (\<lambda>module_instance.
         ebind (s_name nd) (\<lambda>module_method_name.
         ebind (self_of g) (\<lambda>self.
         ebind
           (if module_instance = self then Inr (Some mid)
            else
              ebind (node_of g module_instance) (\<lambda>m.
                if kind m = ''prim::GetAttr'' then
                  ebind (s_name m) (\<lambda>a.
                    if find_str a ''_observer_'' = None
                    then ebind (getInvokedModule e (modules h) mid g n self) (\<lambda>c. Inr (Some c))
                    else Inr None)
                else Inr None))
           (\<lambda>m. Inr (case m of None \<Rightarrow> [] | Some c \<Rightarrow> [(c, module_method_name)])))))
       else Inr [])"

definition getInvokedMethods ::
  "('t, 'f) env \<Rightarrow> ('t, 'f) helper \<Rightarrow> module_id \<Rightarrow> string \<Rightarrow> error + (module_id \<times> string) list" where
  "getInvokedMethods e h mid method_name =
     ebind (get_module h mid) (\<lambda>mdl.
     ebind (get_method mdl method_name) (\<lambda>gid.
     ebind (get_graph h gid) (\<lambda>g.
       foldE (\<lambda>invoked_methods n.
                ebind (invoked_method e h mid g n) (\<lambda>ms. Inr (invoked_methods @ ms)))
         [] (visit_blocks [top_block g]))))"

text \<open>
  \<open>collectObserverNodesAndValueToQuantize\<close>. The owning Graph of the Value is the
  Graph that the caller walks.
\<close>

definition is_observer_forward :: "graph \<Rightarrow> node \<Rightarrow> string \<Rightarrow> error + bool" where
  "is_observer_forward g observer observer_name =
     (if kind observer = ''prim::CallMethod'' then
        ebind (s_name observer) (\<lambda>s.
          if s = ''forward'' then
            ebind (input_at observer 0) (\<lambda>v.
            ebind (node_of g v) (\<lambda>m.
              if kind m = ''prim::GetAttr''
              then ebind (s_name m) (\<lambda>a. Inr (a = observer_name))
              else Inr False))
          else Inr False)
      else Inr False)"

definition collectObserverNodesAndValueToQuantize ::
  "('t, 'f) helper \<Rightarrow> graph_id \<Rightarrow> ir_value \<Rightarrow> error + ('t, 'f) helper" where
  "collectObserverNodesAndValueToQuantize h gid v =
     ebind (get_graph h gid) (\<lambda>g.
     ebind (findObserverName g v) (\<lambda>observer_name.
       case observer_name of
         None \<Rightarrow> Inr h
       | Some name \<Rightarrow>
           let h1 = h\<lparr>observer_modules_to_remove :=
                       push_back (observer_modules_to_remove h) gid name\<rparr>;
               observer = producer v
           in
           ebind (get_node g observer) (\<lambda>nd.
           ebind (is_observer_forward g nd name) (\<lambda>ok.
           ebind (internal_assert ok ''observer is a forward call of the observer module'') (\<lambda>_.
           ebind (input_at nd 0) (\<lambda>m.
             Inr (h1\<lparr>nodes_to_destroy :=
                        push_back (push_back (nodes_to_destroy h1) gid observer) gid (producer m),
                      observer_nodes_for_graph :=
                        push_back (observer_nodes_for_graph h1) gid observer\<rparr>)))))))"

text \<open>\<open>c10::to_string\<close> of a \<open>size_t\<close>: its decimal digits.\<close>

fun to_string :: "nat \<Rightarrow> string" where
  "to_string n =
     (if n < 10 then [char_of (48 + n)]
      else to_string (n div 10) @ [char_of (48 + n mod 10)])"

text \<open>
  The search for an attribute name that the module does not have yet: the first of
  \<open>base0\<close>, \<open>base1\<close>, ... The loop of the source ends when the module has finitely
  many attributes; the model takes fuel, and \<open>None\<close> is a search that did not end
  within it.
\<close>

primrec fresh_name :: "nat \<Rightarrow> (string \<Rightarrow> bool) \<Rightarrow> string \<Rightarrow> nat \<Rightarrow> string option" where
  "fresh_name 0 hasattr base uid = None"
| "fresh_name (Suc k) hasattr base uid =
     (if hasattr (base @ to_string uid) then fresh_name k hasattr base (Suc uid)
      else Some (base @ to_string uid))"

text \<open>
  Modelled from the spec: the operations of Module are not in the sources.
  \<open>module.hasattr(name)\<close> tells whether the object holds the attribute;
  \<open>module.register_attribute(name, type, value)\<close> on a name that the module does not
  have, and \<open>module._ivalue()->setAttr(name, value)\<close>, store the value under the
  name. The slot of a recorded name is in the class type of the module, for the Graph
  was processed with an object of this type.
\<close>

definition setAttr :: "('t, 'f) helper \<Rightarrow> module_id \<Rightarrow> string \<Rightarrow> ('t, 'f) ivalue \<Rightarrow> error + ('t, 'f) helper" where
  "setAttr h mid name v =
     ebind (get_module h mid) (\<lambda>mdl.
       Inr (h\<lparr>modules := (modules h)(mid \<mapsto> mdl\<lparr>m_attrs := (m_attrs mdl)(name \<mapsto> v)\<rparr>)\<rparr>))"

text \<open>The body of the loop of \<open>quantizeTensors\<close> over the qparams of an observer.\<close>

definition register_qparam ::
  "('t, 'f) env \<Rightarrow> nat \<Rightarrow> module_id \<Rightarrow> graph_id \<Rightarrow> node_id \<Rightarrow> ir_value \<Rightarrow> ('t, 'f) helper \<times> string list \<Rightarrow>
   string \<times> ('t, 'f) ivalue \<Rightarrow> (error + ('t, 'f) helper \<times> string list) option" where
  "register_qparam e k mid gid n original_value acc pr =
     (let (h, qparam_names) = acc; (name, qparam) = pr in
      obind (Some (get_module h mid)) (\<lambda>mdl.
        case fresh_name k (\<lambda>s. m_attrs mdl s \<noteq> None)
               (debugName e gid original_value @ name @ ''_'') 0 of
          None \<Rightarrow> None
        | Some qparam_name \<Rightarrow>
            let h1 = h\<lparr>qparam_name_map_for_node :=
                        (qparam_name_map_for_node h)((gid, n) \<mapsto>
                           (case qparam_name_map_for_node h (gid, n) of
                              None \<Rightarrow> Map.empty | Some names \<Rightarrow> names)(name \<mapsto> qparam_name))\<rparr>
            in obind (Some (setAttr h1 mid qparam_name qparam)) (\<lambda>h2.
                 Some (Inr (h2, qparam_names @ [qparam_name])))))"

text \<open>The body of the loop of \<open>quantizeTensors\<close> over the observers of a Graph.\<close>

definition quantize_observer ::
  "('t, 'f) env \<Rightarrow> nat \<Rightarrow> module_id \<Rightarrow> graph_id \<Rightarrow> ir_value \<Rightarrow> ('t, 'f) helper \<Rightarrow> node_id \<Rightarrow>
   (error + ('t, 'f) helper) option" where
  "quantize_observer e k mid gid self h n =
     obind (Some (get_graph h gid)) (\<lambda>g.
     obind (Some (input g n 1)) (\<lambda>original_value.
     obind (Some (get_module h mid)) (\<lambda>mdl.
     obind (Some (getQSchemeAndQParamVector (tensorOps e) (runMethod e) (isTensorType e gid) (modules h)
                    g mdl n)) (\<lambda>(qscheme, qparam_map).
     obind (Some (checkQScheme (qscheme_for_graph h) gid qscheme)) (\<lambda>qs.
     obind (foldO (register_qparam e k mid gid n original_value)
              (h\<lparr>qscheme_for_graph := qs\<rparr>, []) qparam_map) (\<lambda>(h1, qparam_names).
     obind (Some (insertQuantizationOps g (ebind (output g n) (isWeight e mid g)) self n
                    (isPerChannel qscheme) qparam_names (helper_quant_type h1))) (\<lambda>g'.
       Some (Inr (h1\<lparr>graphs := (graphs h1)(gid \<mapsto> g')\<rparr>)))))))))"

definition quantizeTensors ::
  "('t, 'f) env \<Rightarrow> nat \<Rightarrow> module_id \<Rightarrow> graph_id \<Rightarrow> ir_value \<Rightarrow> ('t, 'f) helper \<Rightarrow> (error + ('t, 'f) helper) option" where
  "quantizeTensors e k mid gid self h =
     (case observer_nodes_for_graph h gid of
        None \<Rightarrow> Some (Inr h)
      | Some ns \<Rightarrow> foldO (quantize_observer e k mid gid self) h ns)"

text \<open>
  The body of the loop of \<open>run\<close> over the observers of a Graph that is recorded: the
  calibration is read again and each qparam is stored under its recorded attribute.
\<close>

definition reset_qparams ::
  "('t, 'f) env \<Rightarrow> module_id \<Rightarrow> graph_id \<Rightarrow> ('t, 'f) helper \<Rightarrow> node_id \<Rightarrow> error + ('t, 'f) helper" where
  "reset_qparams e mid gid h n =
     ebind (get_graph h gid) (\<lambda>g.
     ebind (get_module h mid) (\<lambda>mdl.
     ebind (getQSchemeAndQParamVector (tensorOps e) (runMethod e) (isTensorType e gid) (modules h)
              g mdl n) (\<lambda>(qscheme, qparam_map).
     ebind (checkQScheme (qscheme_for_graph h) gid qscheme) (\<lambda>qs.
       case qparam_name_map_for_node h (gid, n) of
         None \<Rightarrow> Inl (InternalAssert ''Expected to have a qparam_name_map for node'')
       | Some qparam_name_map \<Rightarrow>
           foldE (\<lambda>h pr.
                    case qparam_name_map (fst pr) of
                      None \<Rightarrow> Inl OutOfRange
                    | Some a \<Rightarrow> setAttr h mid a (snd pr))
             (h\<lparr>qscheme_for_graph := qs\<rparr>) qparam_map))))"

text \<open>The body of the loop of \<open>run\<close> over the Nodes of a Graph that is not recorded.\<close>

definition collect_outputs :: "('t, 'f) env \<Rightarrow> graph_id \<Rightarrow> ('t, 'f) helper \<Rightarrow> node_id \<Rightarrow> error + ('t, 'f) helper" where
  "collect_outputs e gid h n =
     ebind (get_graph h gid) (\<lambda>g.
     ebind (outputs g n) (\<lambda>vs.
       foldE (\<lambda>h v. if isTensorType e gid v
                     then collectObserverNodesAndValueToQuantize h gid v else Inr h) h vs))"

text \<open>
  \<open>InsertQuantDeQuantHelper::run\<close>. The recursion of the source follows the methods
  that a method invokes; the model takes fuel for its depth and for the search of
  attribute names, and \<open>None\<close> is a run that did not end within it.
\<close>

primrec run :: "('t, 'f) env \<Rightarrow> nat \<Rightarrow> ('t, 'f) helper \<Rightarrow> module_id \<Rightarrow> string \<Rightarrow> (error + ('t, 'f) helper) option" where
  "run e 0 h mid method_name = None"
| "run e (Suc k) h mid method_name =
     obind (Some (getInvokedMethods e h mid method_name)) (\<lambda>invoked_methods.
     obind (foldO (\<lambda>h invoked. run e k h (fst invoked) (snd invoked)) h invoked_methods) (\<lambda>h1.
     obind (Some (ebind (get_module h1 mid) (\<lambda>mdl. get_method mdl method_name))) (\<lambda>gid.
       case observer_nodes_for_graph h1 gid of
         Some ns \<Rightarrow> Some (foldE (reset_qparams e mid gid) h1 ns)
       | None \<Rightarrow>
           obind (Some (get_graph h1 gid)) (\<lambda>g.
             let input_values = filter (isTensorType e gid) (tl (graph_inputs g)) in
             obind (Some (foldE (collect_outputs e gid) h1 (visit_blocks [top_block g]))) (\<lambda>h2.
             obind (Some (foldE (\<lambda>h v. collectObserverNodesAndValueToQuantize h gid v)
                            h2 input_values)) (\<lambda>h3.
             obind (Some (self_of g)) (\<lambda>self.
               quantizeTensors e k mid gid self h3)))))))"

text \<open>
  Two states of the helper, the second reached from the first. Every Module object is
  still there with its methods. In \<open>recorded_kept\<close>, every Graph that was recorded in
  \<open>observer_nodes_for_graph_\<close> is what it was, with its observers and the attribute
  names recorded for them; in \<open>others_kept\<close>, every Graph but one is, recorded or
  not.
\<close>

definition methods_kept :: "('t, 'f) helper \<Rightarrow> ('t, 'f) helper \<Rightarrow> bool" where
  "methods_kept h h' =
     (\<forall>m. rel_option (\<lambda>a b. m_methods b = m_methods a) (modules h m) (modules h' m))"

definition graph_kept :: "('t, 'f) helper \<Rightarrow> ('t, 'f) helper \<Rightarrow> graph_id \<Rightarrow> bool" where
  "graph_kept h h' gid =
     (graphs h' gid = graphs h gid \<and>
      observer_nodes_for_graph h' gid = observer_nodes_for_graph h gid \<and>
      (\<forall>n. qparam_name_map_for_node h' (gid, n) = qparam_name_map_for_node h (gid, n)))"

definition recorded_kept :: "('t, 'f) helper \<Rightarrow> ('t, 'f) helper \<Rightarrow> bool" where
  "recorded_kept h h' =
     (methods_kept h h' \<and>
      (\<forall>gid. observer_nodes_for_graph h gid \<noteq> None \<longrightarrow> graph_kept h h' gid))"

definition others_kept :: "graph_id \<Rightarrow> ('t, 'f) helper \<Rightarrow> ('t, 'f) helper \<Rightarrow> bool" where
  "others_kept gid h h' =
     (methods_kept h h' \<and> (\<forall>x. x \<noteq> gid \<longrightarrow> graph_kept h h' x))"

text \<open>In \<open>tables_kept\<close>, every Graph is, and only attribute values and schemes differ.\<close>

definition tables_kept :: "('t, 'f) helper \<Rightarrow> ('t, 'f) helper \<Rightarrow> bool" where
  "tables_kept h h' = (methods_kept h h' \<and> (\<forall>gid. graph_kept h h' gid))"

text \<open>
  What running the step again on a recorded Graph is to do, for one observer Node: the
  calibration of the observer is read again, its scheme is checked against the scheme of
  the Graph, and every qparam is stored in the module under the attribute name that is
  recorded for it. \<open>store_qparams\<close> is the attribute table after the qparams are
  stored, in the order of the qparam list.
\<close>

definition store_qparams ::
  "(string \<rightharpoonup> string) \<Rightarrow> (string \<rightharpoonup> ('t, 'f) ivalue) \<Rightarrow> ('t, 'f) QParamVector \<Rightarrow>
   (string \<rightharpoonup> ('t, 'f) ivalue)" where
  "store_qparams names attrs qparams =
     foldl (\<lambda>m pr. case names (fst pr) of None \<Rightarrow> m | Some a \<Rightarrow> m(a \<mapsto> snd pr)) attrs qparams"

definition re_set ::
  "('t, 'f) env \<Rightarrow> module_id \<Rightarrow> graph_id \<Rightarrow> ('t, 'f) helper \<Rightarrow> node_id \<Rightarrow> ('t, 'f) helper \<Rightarrow> bool" where
  "re_set e mid gid h n h' =
     (\<exists>g mdl qscheme qparams schemes names.
        graphs h gid = Some g \<and> modules h mid = Some mdl \<and>
        getQSchemeAndQParamVector (tensorOps e) (runMethod e) (isTensorType e gid) (modules h)
          g mdl n = Inr (qscheme, qparams) \<and>
        checkQScheme (qscheme_for_graph h) gid qscheme = Inr schemes \<and>
        qparam_name_map_for_node h (gid, n) = Some names \<and>
        (\<forall>pr \<in> set qparams. names (fst pr) \<noteq> None) \<and>
        h' = h \<lparr> modules :=
                   (modules h)(mid \<mapsto> mdl \<lparr> m_attrs := store_qparams names (m_attrs mdl) qparams \<rparr>),
                 qscheme_for_graph := schemes \<rparr>)"

text \<open>The same for the observer Nodes of the Graph, one after the other.\<close>

fun re_set_all ::
  "('t, 'f) env \<Rightarrow> module_id \<Rightarrow> graph_id \<Rightarrow> ('t, 'f) helper \<Rightarrow> node_id list \<Rightarrow> ('t, 'f) helper \<Rightarrow>
   bool" where
  "re_set_all e mid gid h [] h' = (h' = h)"
| "re_set_all e mid gid h (n # ns) h' =
     (\<exists>h1. re_set e mid gid h n h1 \<and> re_set_all e mid gid h1 ns h')"

text \<open>
  The state after the observed Graph was processed with the module 0: the Graph and the
  attribute names of the qparams of its observer are recorded, and the module holds the
  qparams of an earlier calibration. The second state is the first after the step ran
  again with the calibration \<open>scale = 2\<close> and \<open>zero_point = 10\<close>.
\<close>

definition quantized_root_obj :: "(byte_tensor, real) module_obj" where
  "quantized_root_obj =
     \<lparr> m_attrs = Map.empty(''_observer_0'' \<mapsto> IObject 1, ''x_scale_0'' \<mapsto> IDouble 1,
         ''x_zero_point_0'' \<mapsto> IInt 0, ''x_scalar_type_0'' \<mapsto> IInt kQInt8),
       m_methods = Map.empty(''forward'' \<mapsto> 0) \<rparr>"

definition recorded_helper :: "(byte_tensor, real) helper" where
  "recorded_helper =
     \<lparr> graphs = Map.empty(0 \<mapsto> observed_graph),
       modules = Map.empty(0 \<mapsto> quantized_root_obj, 1 \<mapsto> observer_obj),
       observer_modules_to_remove = Map.empty(0 \<mapsto> [''_observer_0'']),
       nodes_to_destroy = Map.empty(0 \<mapsto> [3, 2]),
       observer_nodes_for_graph = Map.empty(0 \<mapsto> [3]),
       qparam_name_map_for_node =
         Map.empty((0, 3) \<mapsto> Map.empty(''_scale'' \<mapsto> ''x_scale_0'',
            ''_zero_point'' \<mapsto> ''x_zero_point_0'', ''_scalar_type'' \<mapsto> ''x_scalar_type_0'')),
       qscheme_for_graph = Map.empty(0 \<mapsto> kPerTensorAffine),
       helper_quant_type = STATIC \<rparr>"

definition calibrated_env :: "(byte_tensor, real) env" where
  "calibrated_env =
     \<lparr> getInvokedModule = (\<lambda>ms m g n self. Inl DanglingRef),
       isWeight = (\<lambda>m g v. Inr False),
       runMethod = calibrated,
       tensorOps = byte_ops,
       isTensorType = (\<lambda>gid v. True),
       debugName = (\<lambda>gid v. ''x'') \<rparr>"

definition recalibrated_helper :: "(byte_tensor, real) helper" where
  "recalibrated_helper = recorded_helper\<lparr>modules := (modules recorded_helper)(0 \<mapsto>
      quantized_root_obj\<lparr>m_attrs := (m_attrs quantized_root_obj)(''x_scale_0'' \<mapsto> IDouble 2,
         ''x_zero_point_0'' \<mapsto> IInt 10, ''x_scalar_type_0'' \<mapsto> IInt kQInt8)\<rparr>)\<rparr>"

section \<open>Replication of the dynamic quantization chain\<close>

text \<open>
  \<open>ReplicateChooseQParamsQuantDequant\<close>. Finding the matches of the pattern
  \<open>_choose_qparams_per_tensor\<close>, \<open>quantize_per_tensor\<close>, \<open>dequantize\<close> is the
  work of the subgraph matcher (\<open>findPatternMatches\<close>); the matches are a parameter,
  each the three Nodes of a chain in the order of \<open>DynamicQuantOps\<close>.
\<close>

type_synonym DynamicQuantOps = "node_id \<times> node_id \<times> node_id"

definition multi_use_match :: "graph \<Rightarrow> DynamicQuantOps \<Rightarrow> error + bool" where
  "multi_use_match g m =
     (case m of (matched_choose_qparam, matched_quantize, matched_dequantize) \<Rightarrow>
        ebind (output g matched_dequantize) (\<lambda>out. Inr (length (uses g out) > 1)))"

text \<open>The body of the loop over the uses of the dequantized Value.\<close>

definition replicate_chain_use ::
  "ir_value \<Rightarrow> ir_value \<Rightarrow> string \<Rightarrow> ir_value \<Rightarrow> graph \<Rightarrow> node_id \<times> nat \<Rightarrow> error + graph" where
  "replicate_chain_use original_val dtype quant_kind dequant_out g use =
     (let user = fst use in
      ebind
        (with_insert_point g user (\<lambda>g1.
           let (quant_ops, g2) = insertChooseQParamQuantDequant g1 original_val dtype quant_kind;
               (choose_qparams, quant, dequant) = quant_ops
           in ebind (output g2 dequant) (\<lambda>out.
              ebind (replaceInputWith g2 user dequant_out out) (\<lambda>g3. Inr ((), g3)))))
        (\<lambda>(u, g'). Inr g'))"

definition replicate_chain :: "graph \<Rightarrow> DynamicQuantOps \<Rightarrow> error + graph" where
  "replicate_chain g ops =
     (case ops of (choose_qparams, quant_node, dequant_node) \<Rightarrow>
        ebind (get_node g quant_node) (\<lambda>qn.
        ebind (input_at qn 0) (\<lambda>original_val.
        ebind (output g dequant_node) (\<lambda>dequant_out.
        ebind (input_at qn 3) (\<lambda>dtype.
          foldE (replicate_chain_use original_val dtype (kind qn) dequant_out) g
            (uses g dequant_out))))))"

definition remove_chain_inputs :: "graph \<Rightarrow> DynamicQuantOps \<Rightarrow> error + graph" where
  "remove_chain_inputs g ops =
     (case ops of (choose_qparams, quant, dequant) \<Rightarrow>
        ebind (removeAllInputs g dequant) (\<lambda>g1.
        ebind (removeAllInputs g1 quant) (\<lambda>g2.
          removeAllInputs g2 choose_qparams)))"

definition destroy_chain :: "graph \<Rightarrow> DynamicQuantOps \<Rightarrow> error + graph" where
  "destroy_chain g ops =
     (case ops of (choose_qparams, quant, dequant) \<Rightarrow>
        ebind (destroy g dequant) (\<lambda>g1.
        ebind (destroy g1 quant) (\<lambda>g2.
          destroy g2 choose_qparams)))"

definition ReplicateChooseQParamsQuantDequant ::
  "DynamicQuantOps list \<Rightarrow> graph \<Rightarrow> error + graph" where
  "ReplicateChooseQParamsQuantDequant matches g =
     (if matches = [] then Inr g
      else
        ebind (filterE (multi_use_match g) matches) (\<lambda>nodes_to_rewrite.
        ebind (foldE replicate_chain g nodes_to_rewrite) (\<lambda>g1.
        ebind (foldE remove_chain_inputs g1 nodes_to_rewrite) (\<lambda>g2.
          foldE destroy_chain g2 nodes_to_rewrite))))"

text \<open>The Node \<open>m\<close> is a quantize Node that wraps \<open>v\<close>: its first input is \<open>v\<close>.\<close>

definition quantizes :: "graph \<Rightarrow> node_id \<Rightarrow> ir_value \<Rightarrow> bool" where
  "quantizes g m v =
     (case nodes g m of
        None \<Rightarrow> False
      | Some nd \<Rightarrow>
          (kind nd = ''aten::quantize_per_tensor'' \<or> kind nd = ''aten::quantize_per_channel'') \<and>
          reads g m 0 v)"

definition choose_qparams_of :: "ir_value \<Rightarrow> ir_value \<Rightarrow> node" where
  "choose_qparams_of a reduce_range =
     \<lparr> kind = ''aten::_choose_qparams_per_tensor'', inputs = [a, reduce_range],
       num_outputs = 2, attr_name = None \<rparr>"

definition quantize_of :: "ir_value \<Rightarrow> node_id \<Rightarrow> ir_value \<Rightarrow> node" where
  "quantize_of a c dtype =
     \<lparr> kind = ''aten::quantize_per_tensor'', inputs = [a, Value c 0, Value c 1, dtype],
       num_outputs = 1, attr_name = None \<rparr>"

text \<open>
  What a match of the pattern is: the three Nodes of the chain of \<open>a\<close>, entries of
  their Block without nested Blocks; the outputs of the first are read by the second
  only, the output of the second by the third only, and the chain reads no Value of its
  own dequantize Node.
\<close>

definition dynamic_chain :: "graph \<Rightarrow> DynamicQuantOps \<Rightarrow> ir_value \<Rightarrow> ir_value \<Rightarrow> bool" where
  "dynamic_chain g m a dtype =
     (case m of (c, q, d) \<Rightarrow>
        (\<exists>reduce_range. nodes g c = Some (choose_qparams_of a reduce_range) \<and>
                         producer reduce_range \<noteq> d) \<and>
        nodes g q = Some (quantize_of a c dtype) \<and>
        nodes g d = Some (dequantize_of (Value q 0)) \<and>
        producer a \<notin> {c, q, d} \<and> producer dtype \<notin> {c, q, d} \<and>
        (\<forall>m slot i. reads g m slot (Value c i) \<longrightarrow> m = q) \<and>
        (\<forall>m slot. reads g m slot (Value q 0) \<longrightarrow> m = d) \<and>
        leaf_at_block c (top_block g) \<and> leaf_at_block q (top_block g) \<and>
        leaf_at_block d (top_block g))"

text \<open>
  A Value quantized dynamically in front of two linear operators: the chain of \<open>x\<close>
  as \<open>insertQuantizationOps\<close> leaves it, its dequantized form read by both.
\<close>

definition dynamic_graph :: graph where
  "dynamic_graph =
     \<lparr> nodes = Map.empty(
         0 \<mapsto> \<lparr> kind = ''prim::Param'', inputs = [], num_outputs = 4, attr_name = None \<rparr>,
         1 \<mapsto> \<lparr> kind = ''prim::Return'', inputs = [Value 7 0, Value 8 0], num_outputs = 0,
                 attr_name = None \<rparr>,
         2 \<mapsto> \<lparr> kind = ''prim::GetAttr'', inputs = [Value 0 0], num_outputs = 1,
                 attr_name = Some ''x_scalar_type_0'' \<rparr>,
         3 \<mapsto> \<lparr> kind = ''prim::Constant'', inputs = [], num_outputs = 1, attr_name = None \<rparr>,
         4 \<mapsto> choose_qparams_of (Value 0 1) (Value 3 0),
         5 \<mapsto> quantize_of (Value 0 1) 4 (Value 2 0),
         6 \<mapsto> dequantize_of (Value 5 0),
         7 \<mapsto> \<lparr> kind = ''aten::linear'', inputs = [Value 6 0, Value 0 2, Value 0 3],
                 num_outputs = 1, attr_name = None \<rparr>,
         8 \<mapsto> \<lparr> kind = ''aten::linear'', inputs = [Value 6 0, Value 0 2, Value 0 3],
                 num_outputs = 1, attr_name = None \<rparr>),
       top_block = Block 0 1 [BNode 2 [], BNode 3 [], BNode 4 [], BNode 5 [], BNode 6 [],
                              BNode 7 [], BNode 8 []],
       next_node = 9,
       insert_point = 1 \<rparr>"

definition constant_node :: node where
  "constant_node =
     \<lparr> kind = ''prim::Constant'', inputs = [], num_outputs = 1, attr_name = None \<rparr>"

text \<open>
  The Graph \<open>g'\<close> is \<open>g\<close> after a chain of \<open>a\<close> was inserted for each of the uses
  \<open>us\<close> of the dequantized Value \<open>dout\<close>: the Nodes of \<open>g\<close> keep their shapes, the
  slots of the users that read \<open>dout\<close> read the dequantize Node of a fresh chain, no
  other slot has changed, and the fresh Nodes are the chains, four Nodes each.
\<close>

definition chain_fanned ::
  "graph \<Rightarrow> ir_value \<Rightarrow> ir_value \<Rightarrow> string \<Rightarrow> ir_value \<Rightarrow> (node_id \<times> nat) list \<Rightarrow> graph \<Rightarrow> bool" where
  "chain_fanned g a dtype k dout us g' =
     (next_node g' = next_node g + 4 * length us \<and> bounded g' \<and>
      (\<forall>p. leaf_at_block p (top_block g) \<longrightarrow> leaf_at_block p (top_block g')) \<and>
      (\<forall>m < next_node g. shape g' m = shape g m) \<and>
      (\<forall>m < next_node g. m \<notin> fst ` set us \<longrightarrow> nodes g' m = nodes g m) \<and>
      (\<forall>i < length us.
         nodes g' (next_node g + 4 * i) = Some constant_node \<and>
         nodes g' (next_node g + 4 * i + 1) =
           Some \<lparr> kind = ''aten::_choose_qparams_per_tensor'',
                  inputs = [a, Value (next_node g + 4 * i) 0], num_outputs = 2,
                  attr_name = None \<rparr> \<and>
         nodes g' (next_node g + 4 * i + 2) =
           Some \<lparr> kind = k,
                  inputs = [a, Value (next_node g + 4 * i + 1) 0,
                            Value (next_node g + 4 * i + 1) 1, dtype],
                  num_outputs = 1, attr_name = None \<rparr> \<and>
         nodes g' (next_node g + 4 * i + 3) =
           Some (dequantize_of (Value (next_node g + 4 * i + 2) 0))) \<and>
      (\<forall>m slot v. m < next_node g \<longrightarrow> v \<noteq> dout \<longrightarrow> reads g m slot v \<longrightarrow> reads g' m slot v) \<and>
      (\<forall>m slot. m \<in> fst ` set us \<longrightarrow> reads g m slot dout \<longrightarrow>
         (\<exists>i < length us. reads g' m slot (Value (next_node g + 4 * i + 3) 0))) \<and>
      (\<forall>m slot v. m < next_node g \<longrightarrow> producer v < next_node g \<longrightarrow> reads g' m slot v \<longrightarrow>
         reads g m slot v \<and> (v = dout \<longrightarrow> m \<notin> fst ` set us)))"

section \<open>Scheme consistency\<close>

text \<open>
  C1. All observers of one Graph must yield the same affine-collapsed scheme, and a
  differing scheme must abort with a scheme-conflict error. The code does not: with
  per-tensor-affine recorded for Graph 0, an observer yielding per-channel-affine passes
  the check, and the table is returned as it was.
\<close>

theorem checkQScheme_accepts_conflict:
  "checkQScheme (Map.empty(0 \<mapsto> kPerTensorAffine)) 0 kPerChannelAffine
     = Inr (Map.empty(0 \<mapsto> kPerTensorAffine))"
  by (simp add: checkQScheme_def torch_check_def ebind_def literal_as_bool_def)


section \<open>Locating observers\<close>

lemma find_from_sublist: "find_from s pat i \<noteq> None \<longleftrightarrow> sublist pat s"
  by (induction s arbitrary: i) (auto simp: sublist_Cons_right)

lemma find_sublist: "find_str s pat \<noteq> None \<longleftrightarrow> sublist pat s"
  unfolding find_str_def by (rule find_from_sublist)

lemma findObserverName_Some:
  "findObserverName g v = Inr (Some a) \<longleftrightarrow> is_observer_call g v a"
  unfolding findObserverName_def is_observer_call_def node_of_def get_node_def s_name_def
    input_at_def ebind_def
  using find_sublist [of _ "''_observer_''"]
  by (auto split: option.splits if_splits simp: hd_conv_nth)

lemma findObserverName_None:
  assumes "call_wellformed g v" and "\<And>a. \<not> is_observer_call g v a"
  shows "findObserverName g v = Inr None"
proof (cases "findObserverName g v")
  case (Inl e)
  with assms(1) show ?thesis
    unfolding findObserverName_def call_wellformed_def node_of_def get_node_def s_name_def
      input_at_def ebind_def
    by (auto split: option.splits if_splits simp: hd_conv_nth)
next
  case (Inr r)
  with assms(2) show ?thesis
    by (cases r) (auto simp: findObserverName_Some)
qed

text \<open>
  C10. The locator returns a name exactly when \<open>v\<close> is the result of a
  \<open>forward\<close> method call on a module fetched by an attribute lookup whose name
  contains \<open>_observer_\<close>, and the name is that attribute name; on every other Value
  whose producing call is well formed it returns none.
\<close>

theorem findObserverName_exactly:
  "(findObserverName g v = Inr (Some a) \<longleftrightarrow> is_observer_call g v a) \<and>
   (call_wellformed g v \<longrightarrow> (\<forall>b. \<not> is_observer_call g v b) \<longrightarrow>
      findObserverName g v = Inr None)"
  using findObserverName_Some findObserverName_None by blast

lemma observed_graph_call: "is_observer_call observed_graph (Value 3 0) ''_observer_0''"
  unfolding is_observer_call_def observed_graph_def
  by (simp add: sublist_code)

lemma observed_graph_relu: "\<not> is_observer_call observed_graph (Value 4 0) b"
  unfolding is_observer_call_def observed_graph_def by simp

theorem findObserverName_exactly_witness:
  "findObserverName observed_graph (Value 3 0) = Inr (Some ''_observer_0'') \<and>
   call_wellformed observed_graph (Value 4 0) \<and>
   findObserverName observed_graph (Value 4 0) = Inr None"
proof -
  have wf: "call_wellformed observed_graph (Value 4 0)"
    by (simp add: call_wellformed_def observed_graph_def)
  from findObserverName_exactly [of observed_graph "Value 3 0" "''_observer_0''"]
  have a: "findObserverName observed_graph (Value 3 0) = Inr (Some ''_observer_0'')"
    using observed_graph_call by blast
  from findObserverName_exactly [of observed_graph "Value 4 0" "''x''"]
  have b: "findObserverName observed_graph (Value 4 0) = Inr None"
    using wf observed_graph_relu by blast
  from a wf b show ?thesis by blast
qed

section \<open>The weight subgraph\<close>

lemma closed_list_Nil: "closed_list g self []"
  by (simp add: closed_list_def)

lemma closed_list_append:
  assumes "closed_list g self xs" "closed_list g self ys"
  shows "closed_list g self (xs @ ys)"
  unfolding closed_list_def
proof (intro allI impI)
  fix pre n post assume eq: "xs @ ys = pre @ n # post"
  then consider (l) t where "xs = pre @ n # t" "post = t @ ys"
    | (r) t where "pre = xs @ t" "ys = t @ n # post"
    by (auto simp: append_eq_append_conv2 append_eq_Cons_conv Cons_eq_append_conv)
  then show "\<exists>nd. nodes g n = Some nd \<and>
           (\<forall>u \<in> set (inputs nd).
              (hitGraphInput g u \<and> u = self) \<or> (\<not> hitGraphInput g u \<and> producer u \<in> set post))"
  proof cases
    case l
    with assms(1) show ?thesis unfolding closed_list_def by fastforce
  next
    case r
    with assms(2) show ?thesis unfolding closed_list_def by fastforce
  qed
qed

lemma closed_list_Cons:
  assumes "nodes g n = Some nd"
    and "\<forall>u \<in> set (inputs nd).
              (hitGraphInput g u \<and> u = self) \<or> (\<not> hitGraphInput g u \<and> producer u \<in> set ns)"
    and "closed_list g self ns"
  shows "closed_list g self (n # ns)"
  unfolding closed_list_def
proof (intro allI impI)
  fix pre m post assume eq: "n # ns = pre @ m # post"
  show "\<exists>nd. nodes g m = Some nd \<and>
           (\<forall>u \<in> set (inputs nd).
              (hitGraphInput g u \<and> u = self) \<or> (\<not> hitGraphInput g u \<and> producer u \<in> set post))"
  proof (cases pre)
    case Nil
    with eq assms(1,2) show ?thesis by auto
  next
    case (Cons a pre')
    with eq have "ns = pre' @ m # post" by simp
    with assms(3) show ?thesis unfolding closed_list_def by blast
  qed
qed

lemma findSubgraph_collects:
  "findSubgraph k g self v ws = Some (Inr ws') \<Longrightarrow>
      \<exists>new. ws' = ws @ producer v # new \<and> closed_list g self (producer v # new)"
  "findSubgraph_inputs k g self vs ws = Some (Inr ws') \<Longrightarrow>
      \<exists>new. ws' = ws @ new \<and> closed_list g self new \<and>
         (\<forall>u \<in> set vs. (hitGraphInput g u \<and> u = self) \<or>
                         (\<not> hitGraphInput g u \<and> producer u \<in> set new))"
proof (induction k g self v ws and k g self vs ws arbitrary: ws' and ws'
    rule: findSubgraph_findSubgraph_inputs.induct)
  case (1 g self input_val weight_subgraph)
  then show ?case by simp
next
  case (2 k g self input_val weight_subgraph)
  from "2.prems" obtain nd where nd: "nodes g (producer input_val) = Some nd"
    by (auto split: option.splits)
  with "2.prems" have "findSubgraph_inputs k g self (inputs nd)
      (weight_subgraph @ [producer input_val]) = Some (Inr ws')" by simp
  from "2.IH" [OF nd this] obtain new where
    new: "ws' = (weight_subgraph @ [producer input_val]) @ new"
      "closed_list g self new"
      "\<forall>u \<in> set (inputs nd). (hitGraphInput g u \<and> u = self) \<or>
                         (\<not> hitGraphInput g u \<and> producer u \<in> set new)"
    by blast
  from closed_list_Cons [OF nd new(3) new(2)] new(1)
  show ?case by auto
next
  case (3 k g self weight_subgraph)
  then show ?case by (auto simp: closed_list_Nil)
next
  case (4 k g self v vs weight_subgraph)
  show ?case
  proof (cases "hitGraphInput g v")
    case True
    with "4.prems" have vs: "v = self"
      "findSubgraph_inputs k g self vs weight_subgraph = Some (Inr ws')"
      by (auto split: if_splits)
    from "4.IH"(3) [OF _ vs(1) vs(2)] True obtain new where
      "ws' = weight_subgraph @ new" "closed_list g self new"
      "\<forall>u \<in> set vs. (hitGraphInput g u \<and> u = self) \<or>
                      (\<not> hitGraphInput g u \<and> producer u \<in> set new)"
      by blast
    with True vs(1) show ?thesis by auto
  next
    case False
    with "4.prems" obtain ws1 where
      w1: "findSubgraph k g self v weight_subgraph = Some (Inr ws1)" and
      w2: "findSubgraph_inputs k g self vs ws1 = Some (Inr ws')"
      by (auto split: option.splits sum.splits)
    from "4.IH"(1) [OF False w1] obtain n1 where
      n1: "ws1 = weight_subgraph @ producer v # n1" "closed_list g self (producer v # n1)"
      by blast
    from "4.IH"(2) [OF False w1 _ w2] obtain n2 where
      n2: "ws' = ws1 @ n2" "closed_list g self n2"
        "\<forall>u \<in> set vs. (hitGraphInput g u \<and> u = self) \<or>
                        (\<not> hitGraphInput g u \<and> producer u \<in> set n2)"
      by blast
    from closed_list_append [OF n1(2) n2(2)] n1(1) n2(1,3) False
    show ?thesis by auto
  qed
qed


lemma closed_list_rev_order:
  assumes "closed_list g self ns" and "i < length (rev ns)"
  shows "\<exists>nd. nodes g (rev ns ! i) = Some nd \<and>
           (\<forall>u \<in> set (inputs nd). u = self \<or> producer u \<in> set (take i (rev ns)))"
proof -
  from assms(2) have i: "i < length (rev ns)" by simp
  have "rev ns = take i (rev ns) @ (rev ns ! i) # drop (Suc i) (rev ns)"
    using i by (rule id_take_nth_drop)
  then have "ns = rev (drop (Suc i) (rev ns)) @ (rev ns ! i) # rev (take i (rev ns))"
    by (metis rev_append rev.simps(2) rev_rev_ident append.assoc append_Cons append_Nil)
  with assms(1) show ?thesis
    unfolding closed_list_def by (metis set_rev)
qed

lemma findSubgraph_total:
  assumes "ranked g rank"
  shows "rank (producer v) < k \<Longrightarrow> findSubgraph k g self v ws \<noteq> None"
    and "\<forall>u \<in> set vs. \<not> hitGraphInput g u \<longrightarrow> rank (producer u) < k \<Longrightarrow>
         findSubgraph_inputs k g self vs ws \<noteq> None"
  using assms
proof (induction k g self v ws and k g self vs ws
    rule: findSubgraph_findSubgraph_inputs.induct)
  case (1 g self input_val weight_subgraph)
  then show ?case by simp
next
  case (2 k g self input_val weight_subgraph)
  show ?case
  proof (cases "nodes g (producer input_val)")
    case None
    then show ?thesis by simp
  next
    case (Some nd)
    with "2.prems" have "\<forall>u \<in> set (inputs nd). rank (producer u) < k"
      unfolding ranked_def by fastforce
    with "2.IH" [OF Some] "2.prems"(2) Some show ?thesis by simp
  qed
next
  case (3 k g self weight_subgraph)
  then show ?case by simp
next
  case (4 k g self v vs weight_subgraph)
  show ?case
  proof (cases "hitGraphInput g v")
    case True
    show ?thesis
    proof (cases "v = self")
      case vs: True
      from "4.IH"(3) [OF _ vs] True "4.prems" vs show ?thesis by simp
    next
      case False
      with True show ?thesis by simp
    qed
  next
    case False
    with "4.prems" have r: "rank (producer v) < k" by simp
    from "4.IH"(1) [OF False r "4.prems"(2)]
    obtain x where x: "findSubgraph k g self v weight_subgraph = Some x" by blast
    show ?thesis
    proof (cases x)
      case (Inl e)
      with x False show ?thesis by simp
    next
      case (Inr b)
      with "4.IH"(2) [OF False x Inr] "4.prems" x False show ?thesis by simp
    qed
  qed
qed

lemma closed_list_reaches:
  assumes "closed_list g self (producer v # new)" and "reaches g v u"
  shows "(hitGraphInput g u \<and> u = self) \<or>
         (\<not> hitGraphInput g u \<and> producer u \<in> set (producer v # new))"
  using assms(2)
proof (induction rule: reaches.induct)
  case (reaches_input nd u)
  from assms(1) have "\<exists>nd. nodes g (producer v) = Some nd \<and>
           (\<forall>u \<in> set (inputs nd).
              (hitGraphInput g u \<and> u = self) \<or> (\<not> hitGraphInput g u \<and> producer u \<in> set new))"
    unfolding closed_list_def by (metis append_Nil)
  with reaches_input show ?case by auto
next
  case (reaches_step w nd u)
  then have "producer w \<in> set (producer v # new)" by blast
  then obtain pre post where "producer v # new = pre @ producer w # post"
    by (meson split_list)
  with assms(1) have "\<exists>nd. nodes g (producer w) = Some nd \<and>
           (\<forall>u \<in> set (inputs nd).
              (hitGraphInput g u \<and> u = self) \<or> (\<not> hitGraphInput g u \<and> producer u \<in> set post))"
    unfolding closed_list_def by blast
  moreover have "set post \<subseteq> set (producer v # new)"
    using \<open>producer v # new = pre @ producer w # post\<close>
    by (metis set_append set_subset_Cons sup.coboundedI2)
  ultimately show ?case using reaches_step by auto
qed

lemma findSubgraph_error:
  "findSubgraph k g self v ws = Some (Inl e) \<Longrightarrow>
     e = DanglingRef \<or>
     (\<exists>u. e = UnexpectedValue u self \<and> reaches g v u \<and> hitGraphInput g u \<and> u \<noteq> self)"
  "findSubgraph_inputs k g self vs ws = Some (Inl e) \<Longrightarrow>
     e = DanglingRef \<or>
     (\<exists>u. e = UnexpectedValue u self \<and> hitGraphInput g u \<and> u \<noteq> self \<and>
        (u \<in> set vs \<or> (\<exists>w \<in> set vs. \<not> hitGraphInput g w \<and> reaches g w u)))"
proof (induction k g self v ws and k g self vs ws
    rule: findSubgraph_findSubgraph_inputs.induct)
  case (1 g self input_val weight_subgraph)
  then show ?case by simp
next
  case (2 k g self input_val weight_subgraph)
  show ?case
  proof (cases "nodes g (producer input_val)")
    case None
    with "2.prems" show ?thesis by simp
  next
    case (Some nd)
    with "2.prems" have "findSubgraph_inputs k g self (inputs nd)
      (weight_subgraph @ [producer input_val]) = Some (Inl e)" by simp
    from "2.IH" [OF Some this] show ?thesis
    proof
      assume "e = DanglingRef" then show ?thesis ..
    next
      assume "\<exists>u. e = UnexpectedValue u self \<and> hitGraphInput g u \<and> u \<noteq> self \<and>
        (u \<in> set (inputs nd) \<or> (\<exists>w \<in> set (inputs nd). \<not> hitGraphInput g w \<and> reaches g w u))"
      then obtain u where u: "e = UnexpectedValue u self" "hitGraphInput g u" "u \<noteq> self"
        "u \<in> set (inputs nd) \<or> (\<exists>w \<in> set (inputs nd). \<not> hitGraphInput g w \<and> reaches g w u)"
        by blast
      from u(4) have "reaches g input_val u"
      proof
        assume "u \<in> set (inputs nd)"
        with Some show ?thesis by (rule reaches_input)
      next
        assume "\<exists>w \<in> set (inputs nd). \<not> hitGraphInput g w \<and> reaches g w u"
        then obtain w where w: "w \<in> set (inputs nd)" "\<not> hitGraphInput g w" "reaches g w u"
          by blast
        from w(3) show ?thesis
        proof (induction rule: reaches.induct)
          case (reaches_input nd' u')
          from reaches.reaches_input [OF Some w(1)] w(2) reaches_input.hyps
          show ?case by (rule reaches.reaches_step)
        next
          case (reaches_step w' nd' u')
          then show ?case by (meson reaches.reaches_step)
        qed
      qed
      with u show ?thesis by blast
    qed
  qed
next
  case (3 k g self weight_subgraph)
  then show ?case by simp
next
  case (4 k g self v vs weight_subgraph)
  show ?case
  proof (cases "hitGraphInput g v")
    case True
    show ?thesis
    proof (cases "v = self")
      case True
      with \<open>hitGraphInput g v\<close> "4.prems" have
        "findSubgraph_inputs k g self vs weight_subgraph = Some (Inl e)" by simp
      from "4.IH"(3) [OF _ True this] \<open>hitGraphInput g v\<close> show ?thesis by auto
    next
      case False
      with True "4.prems" show ?thesis by auto
    qed
  next
    case False
    from "4.prems" False obtain x where x: "findSubgraph k g self v weight_subgraph = Some x"
      by (auto split: option.splits)
    show ?thesis
    proof (cases x)
      case (Inl e')
      with x False "4.prems" have "e' = e" by simp
      with "4.IH"(1) [OF False] x Inl False show ?thesis by auto
    next
      case (Inr b)
      with x False "4.prems" have "findSubgraph_inputs k g self vs b = Some (Inl e)" by simp
      from "4.IH"(2) [OF False x Inr this] show ?thesis by auto
    qed
  qed
qed


lemma findSubgraph_no_dangling:
  assumes "ranked g rank"
  shows "nodes g (producer v) \<noteq> None \<Longrightarrow> findSubgraph k g self v ws \<noteq> Some (Inl DanglingRef)"
    and "\<forall>u \<in> set vs. nodes g (producer u) \<noteq> None \<Longrightarrow>
         findSubgraph_inputs k g self vs ws \<noteq> Some (Inl DanglingRef)"
  using assms
proof (induction k g self v ws and k g self vs ws
    rule: findSubgraph_findSubgraph_inputs.induct)
  case (1 g self input_val weight_subgraph)
  then show ?case by simp
next
  case (2 k g self input_val weight_subgraph)
  from "2.prems"(1) obtain nd where nd: "nodes g (producer input_val) = Some nd" by blast
  with "2.prems"(2) have "\<forall>u \<in> set (inputs nd). nodes g (producer u) \<noteq> None"
    unfolding ranked_def by fastforce
  from "2.IH" [OF nd this "2.prems"(2)] nd show ?case by simp
next
  case (3 k g self weight_subgraph)
  then show ?case by simp
next
  case (4 k g self v vs weight_subgraph)
  from "4.prems" have v: "nodes g (producer v) \<noteq> None"
    and vs: "\<forall>u \<in> set vs. nodes g (producer u) \<noteq> None" by simp_all
  show ?case
  proof (cases "hitGraphInput g v")
    case True
    show ?thesis
    proof (cases "v = self")
      case eq: True
      from "4.IH"(3) [OF _ eq vs "4.prems"(2)] True eq show ?thesis by simp
    next
      case False
      with True show ?thesis by simp
    qed
  next
    case False
    note a = "4.IH"(1) [OF False v "4.prems"(2)]
    show ?thesis
    proof (cases "findSubgraph k g self v weight_subgraph")
      case None
      with False show ?thesis by simp
    next
      case (Some x)
      show ?thesis
      proof (cases x)
        case (Inl e)
        with Some a False show ?thesis by simp
      next
        case (Inr b)
        from "4.IH"(2) [OF False Some Inr vs "4.prems"(2)] Some Inr False
        show ?thesis by simp
      qed
    qed
  qed
qed

text \<open>
  C6. When the backward traversal from the weight succeeds, the collected list reversed is
  an execution order: every Node of the reversed list is live, and each of its inputs is
  the root input \<open>self\<close> or is produced by a Node earlier in the reversed list.
  (By \<open>findSubgraph_total\<close> the traversal of an acyclic Graph ends once the fuel
  exceeds the rank of the weight's Node.)
\<close>

theorem findSubgraph_reversed_is_execution_order:
  assumes "findSubgraph k g self weight_value [] = Some (Inr weight_subgraph)"
    and "i < length (rev weight_subgraph)"
  shows "\<exists>nd. nodes g (rev weight_subgraph ! i) = Some nd \<and>
           (\<forall>u \<in> set (inputs nd).
              u = self \<or> producer u \<in> set (take i (rev weight_subgraph)))"
proof -
  from findSubgraph_collects(1) [OF assms(1)]
  have "closed_list g self weight_subgraph" by auto
  from closed_list_rev_order [OF this assms(2)] show ?thesis .
qed

lemma weight_graph_run:
  "findSubgraph 10 weight_graph (Value 0 0) (Value 6 0) [] = Some (Inr [6, 5, 4, 2, 3])"
  by (simp add: numeral_eq_Suc weight_graph_def hitGraphInput_def graph_inputs_def upt_rec)

theorem findSubgraph_reversed_is_execution_order_witness:
  "findSubgraph 10 weight_graph (Value 0 0) (Value 6 0) [] = Some (Inr [6, 5, 4, 2, 3]) \<and>
   (\<exists>nd. nodes weight_graph (rev [6, 5, 4, 2, 3] ! 2) = Some nd \<and>
      (\<forall>u \<in> set (inputs nd).
         u = Value 0 0 \<or> producer u \<in> set (take 2 (rev [6, 5, 4, 2, 3 :: nat]))))"
  using findSubgraph_reversed_is_execution_order [OF weight_graph_run, of 2] weight_graph_run
  by simp

lemma reaches_live: "reaches g v u \<Longrightarrow> nodes g (producer v) \<noteq> None"
  by (induction rule: reaches.induct) auto

text \<open>
  C7. In an acyclic Graph, when the backward traversal from the weight reaches a graph
  input other than \<open>self\<close>, the extractor fails with the error that carries such a
  reached graph input and \<open>self\<close>; and whenever it succeeds, every collected Node is
  live and has no graph input other than \<open>self\<close> among its inputs.
\<close>

theorem findSubgraph_checks_graph_inputs:
  "(ranked g rank \<and> rank (producer weight_value) < k \<and> reaches g weight_value u \<and>
      hitGraphInput g u \<and> u \<noteq> self \<longrightarrow>
      (\<exists>u'. findSubgraph k g self weight_value [] = Some (Inl (UnexpectedValue u' self)) \<and>
            reaches g weight_value u' \<and> hitGraphInput g u' \<and> u' \<noteq> self)) \<and>
   (findSubgraph k g self weight_value [] = Some (Inr weight_subgraph) \<longrightarrow>
      (\<forall>n \<in> set weight_subgraph. \<exists>nd. nodes g n = Some nd \<and>
         (\<forall>x \<in> set (inputs nd). hitGraphInput g x \<longrightarrow> x = self)))"
proof (intro conjI impI)
  assume a: "ranked g rank \<and> rank (producer weight_value) < k \<and> reaches g weight_value u \<and>
      hitGraphInput g u \<and> u \<noteq> self"
  then have live: "nodes g (producer weight_value) \<noteq> None"
    by (blast dest: reaches_live)
  from a findSubgraph_total(1) [of g rank weight_value k self "[]"]
  obtain r where r: "findSubgraph k g self weight_value [] = Some r" by blast
  show "\<exists>u'. findSubgraph k g self weight_value [] = Some (Inl (UnexpectedValue u' self)) \<and>
            reaches g weight_value u' \<and> hitGraphInput g u' \<and> u' \<noteq> self"
  proof (cases r)
    case (Inl e)
    from findSubgraph_no_dangling(1) [of g rank weight_value k self "[]"] a live r Inl
    have "e \<noteq> DanglingRef" by auto
    with findSubgraph_error(1) [of k g self weight_value "[]" e] r Inl
    show ?thesis by auto
  next
    case (Inr ws)
    from findSubgraph_collects(1) [of k g self weight_value "[]" ws] r Inr
    obtain new where "closed_list g self (producer weight_value # new)" by auto
    from closed_list_reaches [OF this, of u] a have False by blast
    then show ?thesis ..
  qed
next
  assume s: "findSubgraph k g self weight_value [] = Some (Inr weight_subgraph)"
  from findSubgraph_collects(1) [OF s]
  have c: "closed_list g self weight_subgraph" by auto
  show "\<forall>n \<in> set weight_subgraph. \<exists>nd. nodes g n = Some nd \<and>
         (\<forall>x \<in> set (inputs nd). hitGraphInput g x \<longrightarrow> x = self)"
  proof
    fix n assume "n \<in> set weight_subgraph"
    then obtain pre post where "weight_subgraph = pre @ n # post" by (meson split_list)
    with c show "\<exists>nd. nodes g n = Some nd \<and>
         (\<forall>x \<in> set (inputs nd). hitGraphInput g x \<longrightarrow> x = self)"
      unfolding closed_list_def by blast
  qed
qed

lemma foreign_graph_ranked: "ranked foreign_graph weight_rank"
  unfolding ranked_def foreign_graph_def weight_graph_def weight_rank_def
  by (auto split: if_splits)

lemma foreign_graph_input: "hitGraphInput foreign_graph (Value 0 1)"
  by (simp add: foreign_graph_def weight_graph_def hitGraphInput_def graph_inputs_def upt_rec)

lemma foreign_graph_reaches: "reaches foreign_graph (Value 6 0) (Value 0 1)"
proof -
  have a: "reaches foreign_graph (Value 6 0) (Value 4 0)"
    by (rule reaches_input [where nd = "\<lparr> kind = ''prim::CallMethod'',
          inputs = [Value 5 0, Value 4 0], num_outputs = 1, attr_name = Some ''forward'' \<rparr>"])
      (simp_all add: foreign_graph_def weight_graph_def)
  have b: "\<not> hitGraphInput foreign_graph (Value 4 0)"
    by (simp add: foreign_graph_def weight_graph_def hitGraphInput_def graph_inputs_def upt_rec)
  show ?thesis
    by (rule reaches_step [OF a b, where nd = "\<lparr> kind = ''aten::add'',
          inputs = [Value 2 0, Value 0 1], num_outputs = 1, attr_name = None \<rparr>"])
      (simp_all add: foreign_graph_def weight_graph_def)
qed

lemma foreign_graph_run:
  "findSubgraph 10 foreign_graph (Value 0 0) (Value 6 0) []
     = Some (Inl (UnexpectedValue (Value 0 1) (Value 0 0)))"
  by (simp add: numeral_eq_Suc foreign_graph_def weight_graph_def hitGraphInput_def
      graph_inputs_def upt_rec)

theorem findSubgraph_checks_graph_inputs_witness:
  "ranked foreign_graph weight_rank \<and> weight_rank (producer (Value 6 0)) < 10 \<and>
   reaches foreign_graph (Value 6 0) (Value 0 1) \<and> hitGraphInput foreign_graph (Value 0 1) \<and>
   Value 0 1 \<noteq> Value 0 0 \<and>
   (\<exists>u'. findSubgraph 10 foreign_graph (Value 0 0) (Value 6 0) []
            = Some (Inl (UnexpectedValue u' (Value 0 0))) \<and>
          reaches foreign_graph (Value 6 0) u' \<and> hitGraphInput foreign_graph u' \<and>
          u' \<noteq> Value 0 0) \<and>
   findSubgraph 10 weight_graph (Value 0 0) (Value 6 0) [] = Some (Inr [6, 5, 4, 2, 3]) \<and>
   list_all (\<lambda>n. \<exists>nd. nodes weight_graph n = Some nd \<and>
      (\<forall>x \<in> set (inputs nd). hitGraphInput weight_graph x \<longrightarrow> x = Value 0 0))
     [6, 5, 4, 2, 3]"
proof -
  have rk: "weight_rank (producer (Value 6 0)) < 10" by (simp add: weight_rank_def)
  from findSubgraph_checks_graph_inputs
    [of foreign_graph weight_rank "Value 6 0" 10 "Value 0 1" "Value 0 0" "[]"]
    foreign_graph_ranked rk foreign_graph_reaches foreign_graph_input
  have f: "\<exists>u'. findSubgraph 10 foreign_graph (Value 0 0) (Value 6 0) []
            = Some (Inl (UnexpectedValue u' (Value 0 0))) \<and>
          reaches foreign_graph (Value 6 0) u' \<and> hitGraphInput foreign_graph u' \<and>
          u' \<noteq> Value 0 0" by simp
  from findSubgraph_checks_graph_inputs
    [of weight_graph weight_rank "Value 6 0" 10 "Value 0 1" "Value 0 0" "[6, 5, 4, 2, 3]"]
    weight_graph_run
  have "\<forall>n \<in> set [6, 5, 4, 2, 3]. \<exists>nd. nodes weight_graph n = Some nd \<and>
      (\<forall>x \<in> set (inputs nd). hitGraphInput weight_graph x \<longrightarrow> x = Value 0 0)"
    by blast
  then have s: "list_all (\<lambda>n. \<exists>nd. nodes weight_graph n = Some nd \<and>
      (\<forall>x \<in> set (inputs nd). hitGraphInput weight_graph x \<longrightarrow> x = Value 0 0))
     [6, 5, 4, 2, 3]"
    unfolding list_all_iff .
  have ne: "Value 0 1 \<noteq> Value 0 0" by simp
  show ?thesis
    using foreign_graph_ranked rk foreign_graph_reaches foreign_graph_input ne f
      weight_graph_run s
    by (intro conjI) assumption+
qed

section \<open>Uses of a Value\<close>

lemma distinct_concat_Pair:
  "distinct ns \<Longrightarrow> (\<And>n. distinct (f n)) \<Longrightarrow>
   distinct (concat (map (\<lambda>n. map (Pair n) (f n)) ns))"
  by (induction ns) (auto simp: distinct_map inj_on_def)

lemma node_uses_Pair:
  "node_uses v n nd = map (Pair n) (filter (\<lambda>i. inputs nd ! i = v) [0..<length (inputs nd)])"
  by (simp add: node_uses_def)

lemma uses_distinct: "distinct (uses g v)"
proof -
  let ?f = "\<lambda>n. case nodes g n of None \<Rightarrow> []
            | Some nd \<Rightarrow> filter (\<lambda>i. inputs nd ! i = v) [0..<length (inputs nd)]"
  have "uses g v = concat (map (\<lambda>n. map (Pair n) (?f n)) [0..<next_node g])"
    unfolding uses_def by (rule arg_cong [where f = concat], rule map_cong)
      (auto simp: node_uses_def split: option.splits)
  moreover have "distinct (?f n)" for n by (auto split: option.splits)
  ultimately show ?thesis using distinct_concat_Pair [of "[0..<next_node g]" ?f] by simp
qed

lemma node_uses_iff:
  "(m, slot) \<in> set (node_uses v n nd) \<longleftrightarrow>
     m = n \<and> slot < length (inputs nd) \<and> inputs nd ! slot = v"
  by (auto simp: node_uses_def)

lemma uses_iff:
  "(m, slot) \<in> set (uses g v) \<longleftrightarrow> m < next_node g \<and> reads g m slot v"
proof -
  let ?F = "\<lambda>n. case nodes g n of None \<Rightarrow> [] | Some nd \<Rightarrow> node_uses v n nd"
  have F: "(m, slot) \<in> set (?F n) \<longleftrightarrow> n = m \<and> reads g m slot v" for n
    by (cases "nodes g n") (auto simp: node_uses_iff reads_def)
  have "set (uses g v) = (\<Union>n \<in> {0..<next_node g}. set (?F n))"
    unfolding uses_def by simp
  then have "(m, slot) \<in> set (uses g v) \<longleftrightarrow> (\<exists>n \<in> {0..<next_node g}. (m, slot) \<in> set (?F n))"
    by blast
  also have "\<dots> \<longleftrightarrow> m < next_node g \<and> reads g m slot v"
    unfolding F by auto
  finally show ?thesis .
qed

lemma reads_bounded: "bounded g \<Longrightarrow> reads g m slot v \<Longrightarrow> m < next_node g"
  unfolding bounded_def reads_def by (cases "nodes g m") simp_all

lemma uses_iff_bounded:
  "bounded g \<Longrightarrow> (m, slot) \<in> set (uses g v) \<longleftrightarrow> reads g m slot v"
  using reads_bounded [of g m slot v] by (auto simp: uses_iff)

lemma singleton_list:
  assumes "distinct xs" "set xs = {x}"
  shows "xs = [x]"
proof (cases xs)
  case Nil
  with assms show ?thesis by simp
next
  case (Cons y ys)
  with assms have "y = x" "set ys \<subseteq> {x}" "y \<notin> set ys" by auto
  then have "ys = []" by (cases ys) auto
  with \<open>y = x\<close> Cons show ?thesis by simp
qed

lemma uses_single:
  assumes "bounded g" "reads g m slot v" "\<And>m' s'. reads g m' s' v \<Longrightarrow> (m', s') = (m, slot)"
  shows "uses g v = [(m, slot)]"
proof -
  have "set (uses g v) = {(m, slot)}"
  proof (intro set_eqI iffI)
    fix x assume "x \<in> set (uses g v)"
    then have "reads g (fst x) (snd x) v"
      using uses_iff_bounded [OF assms(1), of "fst x" "snd x" v] by simp
    from assms(3) [OF this] show "x \<in> {(m, slot)}" by simp
  next
    fix x assume "x \<in> {(m, slot)}"
    with assms(2) show "x \<in> set (uses g v)"
      using uses_iff_bounded [OF assms(1), of m slot v] by simp
  qed
  with uses_distinct [of g v] show ?thesis by (rule singleton_list)
qed

section \<open>Stores and Blocks\<close>

lemma first_some_map:
  "first_some (map f xs) = Some e \<Longrightarrow> \<exists>x \<in> set xs. f x = Some e"
proof (induction xs)
  case Nil
  then show ?case by simp
next
  case (Cons a xs)
  then show ?case by (cases "f a") auto
qed

lemma find_in_leaf:
  "leaf_at_block p t \<Longrightarrow> find_in_block p t = Some e \<Longrightarrow> e = BNode p []"
  "leaf_at_bnode p x \<Longrightarrow> find_in_bnode p x = Some e \<Longrightarrow> e = BNode p []"
proof (induction p t and p x rule: leaf_at_block_leaf_at_bnode.induct)
  case (1 p pn rn ns)
  from "1.prems"(2) obtain x where "x \<in> set ns" "find_in_bnode p x = Some e"
    by (auto dest: first_some_map)
  with "1.IH" [of x] "1.prems"(1) show ?case by (auto simp: list_all_iff)
next
  case (2 p m bs)
  show ?case
  proof (cases "m = p")
    case True
    with "2.prems" show ?thesis by simp
  next
    case False
    with "2.prems"(2) obtain b where "b \<in> set bs" "find_in_block p b = Some e"
      by (auto dest: first_some_map)
    with "2.IH" [of b] "2.prems"(1) show ?thesis by (auto simp: list_all_iff)
  qed
qed

lemma leaf_at_insert:
  "leaf_at_block p t \<Longrightarrow> leaf_at_block p (insert_before_block ip (BNode n []) t)"
  "leaf_at_bnode p x \<Longrightarrow> leaf_at_bnode p (insert_before_bnode ip (BNode n []) x)"
proof (induction p t and p x rule: leaf_at_block_leaf_at_bnode.induct)
  case (1 p pn rn ns)
  then show ?case by (auto simp: list_all_iff insert_at_def split: if_splits)
next
  case (2 p m bs)
  then show ?case by (auto simp: list_all_iff)
qed

lemma leaf_at_remove:
  "leaf_at_block p t \<Longrightarrow> leaf_at_block p (remove_block n t)"
  "leaf_at_bnode p x \<Longrightarrow> leaf_at_bnode p (remove_bnode n x)"
proof (induction p t and p x rule: leaf_at_block_leaf_at_bnode.induct)
  case (1 p pn rn ns)
  then show ?case by (auto simp: list_all_iff)
next
  case (2 p m bs)
  then show ?case by (auto simp: list_all_iff)
qed

lemma bounded_readsI:
  assumes "\<And>d. d \<ge> next_node g \<Longrightarrow> nodes g d = None"
    and "\<And>m slot v. reads g m slot v \<Longrightarrow> producer v < next_node g"
  shows "bounded g"
  unfolding bounded_def
proof (intro allI impI conjI ballI)
  fix n nd assume n: "nodes g n = Some nd"
  with assms(1) [of n] show "n < next_node g" by (cases "n < next_node g") auto
  fix v assume "v \<in> set (inputs nd)"
  then obtain slot where "slot < length (inputs nd)" "inputs nd ! slot = v"
    by (auto simp: in_set_conv_nth)
  with n have "reads g n slot v" by (simp add: reads_def)
  from assms(2) [OF this] show "producer v < next_node g" .
qed

lemma bounded_reads: "bounded g \<Longrightarrow> reads g m slot v \<Longrightarrow> producer v < next_node g"
  unfolding bounded_def reads_def by (cases "nodes g m") auto

lemma bounded_live: "bounded g \<Longrightarrow> nodes g d = Some nd \<Longrightarrow> d < next_node g"
  unfolding bounded_def by blast

lemma bounded_None: "bounded g \<Longrightarrow> d \<ge> next_node g \<Longrightarrow> nodes g d = None"
  using bounded_live [of g d] by (cases "nodes g d") auto

lemma reads_fun: "reads g m slot v \<Longrightarrow> reads g m slot v' \<Longrightarrow> v = v'"
  unfolding reads_def by (cases "nodes g m") auto

lemma reads_live: "reads g m slot v \<Longrightarrow> nodes g m \<noteq> None"
  unfolding reads_def by (cases "nodes g m") auto

lemma dequantize_of_iff:
  "nodes g d = Some (dequantize_of q) \<longleftrightarrow>
     shape g d = Some (''aten::dequantize'', 1, None, 1) \<and> reads g d 0 q"
proof
  assume "nodes g d = Some (dequantize_of q)"
  then show "shape g d = Some (''aten::dequantize'', 1, None, 1) \<and> reads g d 0 q"
    by (simp add: shape_def reads_def dequantize_of_def)
next
  assume a: "shape g d = Some (''aten::dequantize'', 1, None, 1) \<and> reads g d 0 q"
  then obtain nd where nd: "nodes g d = Some nd" "kind nd = ''aten::dequantize''"
    "num_outputs nd = 1" "attr_name nd = None" "length (inputs nd) = 1"
    by (auto simp: shape_def)
  with a have "inputs nd = [q]" by (cases "inputs nd") (auto simp: reads_def)
  with nd show "nodes g d = Some (dequantize_of q)" by (simp add: dequantize_of_def)
qed

lemma input_reads: "input g p i = Inr q \<longleftrightarrow> reads g p i q"
  unfolding input_def get_node_def input_at_def ebind_def reads_def
  by (cases "nodes g p") auto

lemma output_iff: "output g p = Inr dv \<longleftrightarrow> shape g p \<noteq> None \<and> map_option (fst \<circ> snd) (shape g p) = Some 1 \<and> dv = Value p 0"
  unfolding output_def get_node_def ebind_def shape_def
  by (cases "nodes g p") auto

lemma uses_empty: "(\<And>m slot. \<not> reads g m slot v) \<Longrightarrow> uses g v = []"
proof -
  assume a: "\<And>m slot. \<not> reads g m slot v"
  show "uses g v = []"
  proof (cases "uses g v")
    case Nil
    then show ?thesis .
  next
    case (Cons x xs)
    then have "(fst x, snd x) \<in> set (uses g v)" by simp
    then have "reads g (fst x) (snd x) v" unfolding uses_iff by simp
    with a show ?thesis by blast
  qed
qed

lemma destroy_leaf:
  assumes nd: "nodes g p = Some nd" and o: "num_outputs nd = 1"
    and u: "\<And>m slot. \<not> reads g m slot (Value p 0)"
    and lf: "leaf_at_block p (top_block g)"
  shows "destroy g p = Inr (g \<lparr> nodes := (nodes g)(p := None),
           top_block := remove_block p (top_block g) \<rparr>)"
proof -
  have "uses g (Value p 0) = []" using u by (rule uses_empty)
  moreover have "(case find_in_block p (top_block g) of None \<Rightarrow> [p] | Some e \<Rightarrow> ids_bnode e) = [p]"
    using find_in_leaf(1) [OF lf] by (cases "find_in_block p (top_block g)") auto
  moreover have "(\<lambda>m. if m \<in> set [p] then None else nodes g m) = (nodes g)(p := None)"
    by auto
  ultimately show ?thesis
    using nd o by (simp add: destroy_def get_node_def ebind_def Let_def)
qed

lemma reads_removed:
  "reads (g \<lparr> nodes := (nodes g)(p := None), top_block := t \<rparr>) m slot v
     \<longleftrightarrow> m \<noteq> p \<and> reads g m slot v"
  by (simp add: reads_def)

lemma filterE_props:
  "filterE f xs = Inr ys \<Longrightarrow>
     (\<forall>y \<in> set ys. f y = Inr True) \<and> set ys \<subseteq> set xs \<and> (distinct xs \<longrightarrow> distinct ys) \<and>
     (\<forall>x \<in> set xs. f x = Inr True \<longrightarrow> x \<in> set ys)"
proof (induction xs arbitrary: ys)
  case Nil
  then show ?case by simp
next
  case (Cons x xs)
  from Cons.prems obtain b zs where b: "f x = Inr b" and zs: "filterE f xs = Inr zs"
    and ys: "ys = (if b then x # zs else zs)"
    by (auto simp: ebind_def split: sum.splits)
  from Cons.IH [OF zs] b ys show ?case by auto
qed

section \<open>Dequantize replication\<close>

lemma precedes_in: "precedes d u xs \<Longrightarrow> u \<in> set xs"
  by (induction xs) (auto split: if_splits)

lemma precedes_mid: "u \<in> set zs \<Longrightarrow> precedes d u (xs @ d # zs)"
  by (induction xs) auto

lemma precedes_insert:
  "precedes d u (xs @ zs) \<Longrightarrow> precedes d u (xs @ n # zs)"
  by (induction xs) (auto dest: precedes_in)

lemma precedes_spread:
  "precedes d u xs \<Longrightarrow> precedes d u (concat (map (\<lambda>x. if x = ip then [n, x] else [x]) xs))"
proof (induction xs)
  case Nil
  then show ?case by simp
next
  case (Cons x xs)
  have sub: "set xs \<subseteq> set (concat (map (\<lambda>x. if x = ip then [n, x] else [x]) xs))"
    by auto
  show ?case
  proof (cases "x = d")
    case True
    with Cons.prems sub show ?thesis by auto
  next
    case False
    with Cons.prems have "precedes d u xs" by simp
    from Cons.IH [OF this] False show ?thesis by (auto dest: precedes_in)
  qed
qed

lemma precedes_spread_new:
  "u \<in> set xs \<Longrightarrow> precedes n u (concat (map (\<lambda>x. if x = u then [n, x] else [x]) xs))"
proof (induction xs)
  case Nil
  then show ?case by simp
next
  case (Cons x xs)
  have sub: "set xs \<subseteq> set (concat (map (\<lambda>x. if x = u then [n, x] else [x]) xs))"
    by auto
  show ?case
  proof (cases "x = u")
    case True
    then show ?thesis by simp
  next
    case False
    with Cons.prems have "u \<in> set xs" by simp
    with Cons.IH sub False show ?thesis by auto
  qed
qed

lemma precedes_filter:
  "precedes d u (xs @ [r]) \<Longrightarrow> p \<noteq> d \<Longrightarrow> p \<noteq> u \<Longrightarrow>
     precedes d u (filter (\<lambda>x. x \<noteq> p) xs @ [r])"
  by (induction xs) (auto split: if_splits)

lemma bn_id_insert: "bn_id (insert_before_bnode ip e x) = bn_id x"
  by (cases x) simp

lemma bn_id_remove: "bn_id (remove_bnode p x) = bn_id x"
  by (cases x) simp

lemma row_insert_at:
  "map bn_id (insert_at ip r (BNode n []) ns) @ [r] =
     (if ip = r then map bn_id ns @ [n, r]
      else concat (map (\<lambda>x. if x = ip then [n, x] else [x]) (map bn_id ns)) @ [r])"
  unfolding insert_at_def by (induction ns) auto

lemma row_insert:
  "map bn_id (insert_at ip r (BNode n []) (map (insert_before_bnode ip (BNode n [])) ns)) @ [r] =
     (if ip = r then map bn_id ns @ [n, r]
      else concat (map (\<lambda>x. if x = ip then [n, x] else [x]) (map bn_id ns)) @ [r])"
  unfolding row_insert_at by (simp add: bn_id_insert comp_def)

lemma list_ex_insert_at:
  "list_ex P ns \<Longrightarrow> list_ex P (insert_at ip r e ns)"
  unfolding insert_at_def by (auto simp: list_ex_iff)

lemma precedes_row_insert:
  assumes "precedes d u (map bn_id ns @ [r])"
  shows "precedes d u (if ip = r then map bn_id ns @ [n, r]
      else concat (map (\<lambda>x. if x = ip then [n, x] else [x]) (map bn_id ns)) @ [r])"
proof (cases "ip = r")
  case True
  with precedes_insert [of d u "map bn_id ns" "[r]" n] assms show ?thesis by simp
next
  case False
  have "concat (map (\<lambda>x. if x = ip then [n, x] else [x]) (map bn_id ns @ [r]))
          = concat (map (\<lambda>x. if x = ip then [n, x] else [x]) (map bn_id ns)) @ [r]"
    using False by simp
  with precedes_spread [OF assms, of ip n] False show ?thesis by simp
qed

lemma before_insert:
  "before_in_block d u t \<Longrightarrow> before_in_block d u (insert_before_block ip (BNode n []) t)"
  "before_in_bnode d u x \<Longrightarrow> before_in_bnode d u (insert_before_bnode ip (BNode n []) x)"
proof (induction d u t and d u x rule: before_in_block_before_in_bnode.induct)
  case (1 d u p r ns)
  from "1.prems" consider (row) "precedes d u (map bn_id ns @ [r])"
    | (nested) "list_ex (before_in_bnode d u) ns" by auto
  then show ?case
  proof cases
    case row
    then show ?thesis
      using precedes_row_insert [of d u ns r ip n]
      by (simp only: insert_before_block.simps before_in_block.simps row_insert) simp
  next
    case nested
    then obtain x where x: "x \<in> set ns" "before_in_bnode d u x" by (auto simp: list_ex_iff)
    with "1.IH" have "before_in_bnode d u (insert_before_bnode ip (BNode n []) x)" by simp
    with x(1) have "list_ex (before_in_bnode d u) (map (insert_before_bnode ip (BNode n [])) ns)"
      by (auto simp: list_ex_iff)
    then have "list_ex (before_in_bnode d u)
        (insert_at ip r (BNode n []) (map (insert_before_bnode ip (BNode n [])) ns))"
      by (rule list_ex_insert_at)
    then show ?thesis by simp
  qed
next
  case (2 d u m bs)
  then show ?case by (auto simp: list_ex_iff)
qed

lemma in_insert:
  "in_block u t \<Longrightarrow> in_block u (insert_before_block ip (BNode n []) t)"
  "in_bnode u x \<Longrightarrow> in_bnode u (insert_before_bnode ip (BNode n []) x)"
proof (induction u t and u x rule: in_block_in_bnode.induct)
  case (1 u p r ns)
  from "1.prems" consider (row) "u \<in> set (map bn_id ns @ [r])"
    | (nested) "list_ex (in_bnode u) ns" by auto
  then show ?case
  proof cases
    case row
    have "u \<in> set (map bn_id (insert_at ip r (BNode n [])
              (map (insert_before_bnode ip (BNode n [])) ns)) @ [r])"
      unfolding row_insert using row by auto
    then show ?thesis
      by (simp only: insert_before_block.simps in_block.simps) simp
  next
    case nested
    then obtain x where x: "x \<in> set ns" "in_bnode u x" by (auto simp: list_ex_iff)
    with "1.IH" have "in_bnode u (insert_before_bnode ip (BNode n []) x)" by simp
    with x(1) have "list_ex (in_bnode u) (map (insert_before_bnode ip (BNode n [])) ns)"
      by (auto simp: list_ex_iff)
    then have "list_ex (in_bnode u)
        (insert_at ip r (BNode n []) (map (insert_before_bnode ip (BNode n [])) ns))"
      by (rule list_ex_insert_at)
    then show ?thesis by simp
  qed
next
  case (2 u m bs)
  then show ?case by (auto simp: list_ex_iff)
qed

lemma before_insert_new:
  "in_block u t \<Longrightarrow> before_in_block n u (insert_before_block u (BNode n []) t)"
  "in_bnode u x \<Longrightarrow> before_in_bnode n u (insert_before_bnode u (BNode n []) x)"
proof (induction u t and u x rule: in_block_in_bnode.induct)
  case (1 u p r ns)
  from "1.prems" consider (row) "u \<in> set (map bn_id ns @ [r])"
    | (nested) "list_ex (in_bnode u) ns" by auto
  then show ?case
  proof cases
    case row
    have "precedes n u (map bn_id (insert_at u r (BNode n [])
              (map (insert_before_bnode u (BNode n [])) ns)) @ [r])"
    proof (cases "u = r")
      case True
      with precedes_mid [of r "[r]" n "map bn_id ns"] show ?thesis
        unfolding row_insert by simp
    next
      case False
      with row have "u \<in> set (map bn_id ns)" by simp
      from precedes_spread_new [OF this, of n] have
        "precedes n u (concat (map (\<lambda>x. if x = u then [n, x] else [x]) (map bn_id ns)))" .
      then have "precedes n u
          (concat (map (\<lambda>x. if x = u then [n, x] else [x]) (map bn_id ns)) @ [] @ [r])"
        using precedes_insert [of n u _ "[]" r] by simp
      with False show ?thesis unfolding row_insert by simp
    qed
    then show ?thesis
      by (simp only: insert_before_block.simps before_in_block.simps) simp
  next
    case nested
    then obtain x where x: "x \<in> set ns" "in_bnode u x" by (auto simp: list_ex_iff)
    with "1.IH" have "before_in_bnode n u (insert_before_bnode u (BNode n []) x)" by simp
    with x(1) have "list_ex (before_in_bnode n u) (map (insert_before_bnode u (BNode n [])) ns)"
      by (auto simp: list_ex_iff)
    then have "list_ex (before_in_bnode n u)
        (insert_at u r (BNode n []) (map (insert_before_bnode u (BNode n [])) ns))"
      by (rule list_ex_insert_at)
    then show ?thesis by simp
  qed
next
  case (2 u m bs)
  then show ?case by (auto simp: list_ex_iff)
qed

lemma before_remove:
  "before_in_block d u t \<Longrightarrow> leaf_at_block p t \<Longrightarrow> p \<noteq> d \<Longrightarrow> p \<noteq> u \<Longrightarrow>
     before_in_block d u (remove_block p t)"
  "before_in_bnode d u x \<Longrightarrow> leaf_at_bnode p x \<Longrightarrow> p \<noteq> d \<Longrightarrow> p \<noteq> u \<Longrightarrow>
     before_in_bnode d u (remove_bnode p x)"
proof (induction d u t and d u x rule: before_in_block_before_in_bnode.induct)
  case (1 d u pn r ns)
  have row: "map bn_id (filter (\<lambda>x. bn_id x \<noteq> p) (map (remove_bnode p) ns))
               = filter (\<lambda>x. x \<noteq> p) (map bn_id ns)"
    by (induction ns) (auto simp: bn_id_remove)
  from "1.prems"(1) consider (row) "precedes d u (map bn_id ns @ [r])"
    | (nested) "list_ex (before_in_bnode d u) ns" by auto
  then show ?case
  proof cases
    case row
    from precedes_filter [OF this "1.prems"(3,4)] show ?thesis
      by (simp add: \<open>map bn_id (filter (\<lambda>x. bn_id x \<noteq> p) (map (remove_bnode p) ns))
               = filter (\<lambda>x. x \<noteq> p) (map bn_id ns)\<close>)
  next
    case nested
    then obtain x where x: "x \<in> set ns" "before_in_bnode d u x" by (auto simp: list_ex_iff)
    from "1.prems"(2) x(1) have lf: "leaf_at_bnode p x" by (auto simp: list_all_iff)
    have "bn_id x \<noteq> p"
    proof
      assume "bn_id x = p"
      with lf have "x = BNode p []" by (cases x) auto
      with x(2) show False by simp
    qed
    moreover from "1.IH" [OF x(1) x(2) lf "1.prems"(3,4)]
    have "before_in_bnode d u (remove_bnode p x)" .
    ultimately have "list_ex (before_in_bnode d u)
        (filter (\<lambda>x. bn_id x \<noteq> p) (map (remove_bnode p) ns))"
      using x(1) by (auto simp: list_ex_iff bn_id_remove)
    then show ?thesis by simp
  qed
next
  case (2 d u m bs)
  then show ?case by (auto simp: list_ex_iff list_all_iff)
qed

lemma insertDeQuant_use_effect:
  assumes nd: "nodes g u = Some nd" and s: "s < length (inputs nd)" and b: "bounded g"
    and q: "producer q < next_node g"
  shows "\<exists>g4. with_insert_point g u (\<lambda>g1.
          let (dequant, g2) = insertDeQuant g1 q
          in ebind (replaceInput g2 u s (Value dequant 0))
               (\<lambda>g3. Inr (Value dequant 0, g3))) = Inr (Value (next_node g) 0, g4) \<and>
     next_node g4 = Suc (next_node g) \<and> insert_point g4 = insert_point g \<and>
     nodes g4 = (nodes g)(next_node g \<mapsto> dequantize_of q,
                   u \<mapsto> nd \<lparr> inputs := (inputs nd)[s := Value (next_node g) 0] \<rparr>) \<and>
     top_block g4 = insert_before_block u (BNode (next_node g) []) (top_block g)"
proof -
  from b nd have "u < next_node g" unfolding bounded_def by blast
  then have "u \<noteq> next_node g" by simp
  with nd s show ?thesis
    unfolding with_insert_point_def insertDeQuant_def create_def insertNode_def
      replaceInput_def get_node_def ebind_def Let_def dequantize_of_def
    by simp
qed

lemma insertDeQuant_uses_effect:
  assumes "bounded g" and "distinct us"
    and "\<forall>(u, s) \<in> set us. \<exists>v. reads g u s v"
    and "producer q < next_node g"
  shows "\<exists>outs g'. insertDeQuant_uses g q us = Inr (outs, g') \<and>
     next_node g' = next_node g + length us \<and> insert_point g' = insert_point g \<and>
     bounded g' \<and>
     (\<forall>p. leaf_at_block p (top_block g) \<longrightarrow> leaf_at_block p (top_block g')) \<and>
     (\<forall>m < next_node g. shape g' m = shape g m) \<and>
     (\<forall>i < length us. nodes g' (next_node g + i) = Some (dequantize_of q)) \<and>
     (\<forall>i < length us. reads g' (fst (us ! i)) (snd (us ! i)) (Value (next_node g + i) 0)) \<and>
     (\<forall>m slot v. m < next_node g \<longrightarrow> (m, slot) \<notin> set us \<longrightarrow>
        reads g' m slot v = reads g m slot v) \<and>
     (\<forall>d u. before_in_block d u (top_block g) \<longrightarrow> before_in_block d u (top_block g')) \<and>
     (\<forall>u. in_block u (top_block g) \<longrightarrow> in_block u (top_block g')) \<and>
     (\<forall>i < length us. in_block (fst (us ! i)) (top_block g) \<longrightarrow>
        before_in_block (next_node g + i) (fst (us ! i)) (top_block g'))"
  using assms
proof (induction us arbitrary: g)
  case Nil
  then show ?case by simp
next
  case (Cons x us)
  obtain u s where x: "x = (u, s)" by (cases x)
  from Cons.prems(3) x obtain nd where nd: "nodes g u = Some nd" "s < length (inputs nd)"
    by (auto simp: reads_def split: option.splits)
  from insertDeQuant_use_effect [OF nd Cons.prems(1) Cons.prems(4)]
  obtain g4 where g4: "with_insert_point g u (\<lambda>g1.
          let (dequant, g2) = insertDeQuant g1 q
          in ebind (replaceInput g2 u s (Value dequant 0))
               (\<lambda>g3. Inr (Value dequant 0, g3))) = Inr (Value (next_node g) 0, g4)"
    "next_node g4 = Suc (next_node g)" "insert_point g4 = insert_point g"
    "nodes g4 = (nodes g)(next_node g \<mapsto> dequantize_of q,
                   u \<mapsto> nd \<lparr> inputs := (inputs nd)[s := Value (next_node g) 0] \<rparr>)"
    "top_block g4 = insert_before_block u (BNode (next_node g) []) (top_block g)"
    by blast
  have u: "u < next_node g" using bounded_live [OF Cons.prems(1) nd(1)] .
  have r4: "reads g4 m slot v \<longleftrightarrow>
      (if m = u then (if slot = s then v = Value (next_node g) 0 else reads g m slot v)
       else if m = next_node g then slot = 0 \<and> v = q else reads g m slot v)" for m slot v
    using nd u by (auto simp: reads_def g4(4) dequantize_of_def nth_list_update)
  have b4: "bounded g4"
  proof (rule bounded_readsI)
    fix d assume "d \<ge> next_node g4"
    with g4(2,4) u bounded_None [OF Cons.prems(1), of d] show "nodes g4 d = None" by auto
  next
    fix m slot v assume "reads g4 m slot v"
    with r4 [of m slot v] bounded_reads [OF Cons.prems(1), of m slot v] Cons.prems(4) g4(2)
    show "producer v < next_node g4" by (auto split: if_splits)
  qed
  have d4: "distinct us" using Cons.prems(2) by simp
  have v4: "\<forall>(u', s') \<in> set us. \<exists>v. reads g4 u' s' v"
  proof (clarify)
    fix u' s' assume "(u', s') \<in> set us"
    with Cons.prems(3) obtain v where v: "reads g u' s' v" by auto
    then have "u' < next_node g" by (rule reads_bounded [OF Cons.prems(1)])
    with v r4 [of u' s'] show "\<exists>v. reads g4 u' s' v" by (cases "u' = u"; cases "s' = s") auto
  qed
  have q4: "producer q < next_node g4" using Cons.prems(4) g4(2) by simp
  from Cons.IH [OF b4 d4 v4 q4] obtain outs g' where
    run: "insertDeQuant_uses g4 q us = Inr (outs, g')" and
    n': "next_node g' = next_node g4 + length us" and
    ip': "insert_point g' = insert_point g4" and
    b': "bounded g'" and
    lf': "\<forall>p. leaf_at_block p (top_block g4) \<longrightarrow> leaf_at_block p (top_block g')" and
    sh': "\<forall>m < next_node g4. shape g' m = shape g4 m" and
    new': "\<forall>i < length us. nodes g' (next_node g4 + i) = Some (dequantize_of q)" and
    rd': "\<forall>i < length us. reads g' (fst (us ! i)) (snd (us ! i)) (Value (next_node g4 + i) 0)" and
    fr': "\<forall>m slot v. m < next_node g4 \<longrightarrow> (m, slot) \<notin> set us \<longrightarrow>
        reads g' m slot v = reads g4 m slot v" and
    bf': "\<forall>d u. before_in_block d u (top_block g4) \<longrightarrow> before_in_block d u (top_block g')" and
    ib': "\<forall>u. in_block u (top_block g4) \<longrightarrow> in_block u (top_block g')" and
    nb': "\<forall>i < length us. in_block (fst (us ! i)) (top_block g4) \<longrightarrow>
        before_in_block (next_node g4 + i) (fst (us ! i)) (top_block g')"
    by blast
  have bound_us: "(m, slot) \<in> set us \<Longrightarrow> m < next_node g" for m slot
    using Cons.prems(3) reads_bounded [OF Cons.prems(1)] by fastforce
  have res: "insertDeQuant_uses g q (x # us) = Inr (Value (next_node g) 0 # outs, g')"
    using g4(1) run unfolding x by (simp add: ebind_def)
  have sh: "\<forall>m < next_node g. shape g' m = shape g m"
  proof (intro allI impI)
    fix m assume m: "m < next_node g"
    with sh' g4(2) have "shape g' m = shape g4 m" by simp
    also have "\<dots> = shape g m" using m nd by (auto simp: shape_def g4(4))
    finally show "shape g' m = shape g m" .
  qed
  have new0: "nodes g' (next_node g) = Some (dequantize_of q)"
  proof -
    have "shape g' (next_node g) = shape g4 (next_node g)" using sh' g4(2) by simp
    then obtain nd' where nd': "nodes g' (next_node g) = Some nd'" "kind nd' = ''aten::dequantize''"
      "num_outputs nd' = 1" "attr_name nd' = None" "length (inputs nd') = 1"
      using u by (auto simp: shape_def g4(4) dequantize_of_def)
    have "(next_node g, 0) \<notin> set us" using bound_us by blast
    with fr' g4(2) have "reads g' (next_node g) 0 q = reads g4 (next_node g) 0 q" by simp
    with r4 [of "next_node g" 0 q] u have "reads g' (next_node g) 0 q" by simp
    with nd' have "inputs nd' = [q]" by (cases "inputs nd'") (auto simp: reads_def)
    with nd' show ?thesis by (simp add: dequantize_of_def)
  qed
  have new: "\<forall>i < length (x # us). nodes g' (next_node g + i) = Some (dequantize_of q)"
  proof (intro allI impI)
    fix i assume "i < length (x # us)"
    then show "nodes g' (next_node g + i) = Some (dequantize_of q)"
      using new0 new' g4(2) by (cases i) auto
  qed
  have rd: "\<forall>i < length (x # us).
      reads g' (fst ((x # us) ! i)) (snd ((x # us) ! i)) (Value (next_node g + i) 0)"
  proof (intro allI impI)
    fix i assume i: "i < length (x # us)"
    show "reads g' (fst ((x # us) ! i)) (snd ((x # us) ! i)) (Value (next_node g + i) 0)"
    proof (cases i)
      case 0
      have "(u, s) \<notin> set us" using Cons.prems(2) x by simp
      with fr' u g4(2) have "reads g' u s (Value (next_node g) 0)
          = reads g4 u s (Value (next_node g) 0)" by simp
      with r4 [of u s] 0 x show ?thesis by simp
    next
      case (Suc j)
      with i rd' g4(2) show ?thesis by simp
    qed
  qed
  have fr: "\<forall>m slot v. m < next_node g \<longrightarrow> (m, slot) \<notin> set (x # us) \<longrightarrow>
        reads g' m slot v = reads g m slot v"
  proof (intro allI impI)
    fix m slot v assume m: "m < next_node g" and ns: "(m, slot) \<notin> set (x # us)"
    then have "reads g' m slot v = reads g4 m slot v" using fr' g4(2) by simp
    also have "\<dots> = reads g m slot v" using r4 [of m slot v] m ns x by auto
    finally show "reads g' m slot v = reads g m slot v" .
  qed
  have lf: "\<forall>p. leaf_at_block p (top_block g) \<longrightarrow> leaf_at_block p (top_block g')"
    using lf' g4(5) leaf_at_insert(1) by simp
  have bf: "\<forall>d u. before_in_block d u (top_block g) \<longrightarrow> before_in_block d u (top_block g')"
    using bf' g4(5) before_insert(1) by simp
  have ib: "\<forall>u. in_block u (top_block g) \<longrightarrow> in_block u (top_block g')"
    using ib' g4(5) in_insert(1) by simp
  have nb: "\<forall>i < length (x # us). in_block (fst ((x # us) ! i)) (top_block g) \<longrightarrow>
        before_in_block (next_node g + i) (fst ((x # us) ! i)) (top_block g')"
  proof (intro allI impI)
    fix i assume i: "i < length (x # us)"
      and pl: "in_block (fst ((x # us) ! i)) (top_block g)"
    show "before_in_block (next_node g + i) (fst ((x # us) ! i)) (top_block g')"
    proof (cases i)
      case 0
      with pl x have "in_block u (top_block g)" by simp
      then have "before_in_block (next_node g) u (top_block g4)"
        unfolding g4(5) by (rule before_insert_new(1))
      with bf' 0 x show ?thesis by simp
    next
      case (Suc j)
      with pl have "in_block (fst (us ! j)) (top_block g)" by simp
      then have "in_block (fst (us ! j)) (top_block g4)"
        unfolding g4(5) by (rule in_insert(1))
      with nb' i Suc g4(2) show ?thesis by simp
    qed
  qed
  have "next_node g' = next_node g + length (x # us)" using n' g4(2) by simp
  moreover have "insert_point g' = insert_point g" using ip' g4(3) by simp
  ultimately show ?case using res b' lf sh new rd fr bf ib nb by blast
qed

lemma replicate_dequant_effect:
  assumes b: "bounded g" and q: "reads g p 0 q" and o: "output g p = Inr dv"
  shows "\<exists>g'. replicate_dequant g p = Inr g' \<and>
     next_node g \<le> next_node g' \<and> bounded g' \<and>
     (\<forall>p. leaf_at_block p (top_block g) \<longrightarrow> leaf_at_block p (top_block g')) \<and>
     (\<forall>m < next_node g. shape g' m = shape g m) \<and>
     (\<forall>d. next_node g \<le> d \<and> d < next_node g' \<longrightarrow> nodes g' d = Some (dequantize_of q)) \<and>
     (\<forall>m slot. reads g m slot (Value p 0) \<longrightarrow>
        (\<exists>d. next_node g \<le> d \<and> d < next_node g' \<and> reads g' m slot (Value d 0) \<and>
           (in_block m (top_block g) \<longrightarrow> before_in_block d m (top_block g')) \<and>
           (\<forall>m' s'. reads g' m' s' (Value d 0) \<longrightarrow> m' = m \<and> s' = slot))) \<and>
     (\<forall>m slot v. m < next_node g \<longrightarrow> \<not> reads g m slot (Value p 0) \<longrightarrow>
        reads g' m slot v = reads g m slot v) \<and>
     (\<forall>d u. before_in_block d u (top_block g) \<longrightarrow> before_in_block d u (top_block g')) \<and>
     (\<forall>u. in_block u (top_block g) \<longrightarrow> in_block u (top_block g'))"
proof -
  let ?us = "uses g (Value p 0)"
  from o have dv: "dv = Value p 0" by (simp add: output_iff)
  have us: "(m, slot) \<in> set ?us \<longleftrightarrow> reads g m slot (Value p 0)" for m slot
    by (rule uses_iff_bounded [OF b])
  have v: "\<forall>(u, s) \<in> set ?us. \<exists>v. reads g u s v" using us by auto
  have pq: "producer q < next_node g" using bounded_reads [OF b q] .
  from insertDeQuant_uses_effect [OF b uses_distinct v pq] obtain outs g' where
    run: "insertDeQuant_uses g q ?us = Inr (outs, g')" and
    n': "next_node g' = next_node g + length ?us" and
    b': "bounded g'" and
    lf': "\<forall>p. leaf_at_block p (top_block g) \<longrightarrow> leaf_at_block p (top_block g')" and
    sh': "\<forall>m < next_node g. shape g' m = shape g m" and
    new': "\<forall>i < length ?us. nodes g' (next_node g + i) = Some (dequantize_of q)" and
    rd': "\<forall>i < length ?us. reads g' (fst (?us ! i)) (snd (?us ! i)) (Value (next_node g + i) 0)" and
    fr': "\<forall>m slot v. m < next_node g \<longrightarrow> (m, slot) \<notin> set ?us \<longrightarrow>
        reads g' m slot v = reads g m slot v" and
    bf': "\<forall>d u. before_in_block d u (top_block g) \<longrightarrow> before_in_block d u (top_block g')" and
    ib': "\<forall>u. in_block u (top_block g) \<longrightarrow> in_block u (top_block g')" and
    nb': "\<forall>i < length ?us. in_block (fst (?us ! i)) (top_block g) \<longrightarrow>
        before_in_block (next_node g + i) (fst (?us ! i)) (top_block g')"
    by blast
  have res: "replicate_dequant g p = Inr g'"
    using q o run unfolding replicate_dequant_def insertDeQuantForAllUse_def dv
    by (simp add: input_reads [symmetric] ebind_def)
  have new: "\<forall>d. next_node g \<le> d \<and> d < next_node g' \<longrightarrow> nodes g' d = Some (dequantize_of q)"
  proof (intro allI impI)
    fix d assume d: "next_node g \<le> d \<and> d < next_node g'"
    define i where "i = d - next_node g"
    with d n' have "d = next_node g + i" "i < length ?us" by linarith+
    with new' show "nodes g' d = Some (dequantize_of q)" by simp
  qed
  have rew: "\<forall>m slot. reads g m slot (Value p 0) \<longrightarrow>
        (\<exists>d. next_node g \<le> d \<and> d < next_node g' \<and> reads g' m slot (Value d 0) \<and>
           (in_block m (top_block g) \<longrightarrow> before_in_block d m (top_block g')) \<and>
           (\<forall>m' s'. reads g' m' s' (Value d 0) \<longrightarrow> m' = m \<and> s' = slot))"
  proof (intro allI impI)
    fix m slot assume "reads g m slot (Value p 0)"
    then have "(m, slot) \<in> set ?us" by (simp add: us)
    then obtain i where i: "i < length ?us" "?us ! i = (m, slot)"
      by (auto simp: in_set_conv_nth)
    let ?d = "next_node g + i"
    have r: "reads g' m slot (Value ?d 0)" using rd' [rule_format, OF i(1)] i(2) by simp
    have uniq: "m' = m \<and> s' = slot" if a: "reads g' m' s' (Value ?d 0)" for m' s'
    proof (cases "m' < next_node g")
      case True
      show ?thesis
      proof (cases "(m', s') \<in> set ?us")
        case in_us: True
        then obtain j where j: "j < length ?us" "?us ! j = (m', s')"
          by (auto simp: in_set_conv_nth)
        with rd' [rule_format, OF j(1)] have "reads g' m' s' (Value (next_node g + j) 0)" by simp
        from reads_fun [OF this a] have "j = i" by simp
        with i j show ?thesis by simp
      next
        case False
        with fr' True a have "reads g m' s' (Value ?d 0)" by simp
        from bounded_reads [OF b this] show ?thesis by simp
      qed
    next
      case False
      from a have "nodes g' m' \<noteq> None" by (rule reads_live)
      then have "m' < next_node g'" using bounded_None [OF b', of m'] by (cases "m' < next_node g'") auto
      with False new have "nodes g' m' = Some (dequantize_of q)" by simp
      with a have "q = Value ?d 0" by (auto simp: reads_def dequantize_of_def)
      with pq show ?thesis by simp
    qed
    have pl: "in_block m (top_block g) \<longrightarrow> before_in_block ?d m (top_block g')"
      using nb' [rule_format, OF i(1)] i(2) by simp
    have "next_node g \<le> ?d \<and> ?d < next_node g'" using i(1) n' by simp
    with r uniq pl show "\<exists>d. next_node g \<le> d \<and> d < next_node g' \<and> reads g' m slot (Value d 0) \<and>
           (in_block m (top_block g) \<longrightarrow> before_in_block d m (top_block g')) \<and>
           (\<forall>m' s'. reads g' m' s' (Value d 0) \<longrightarrow> m' = m \<and> s' = slot)"
      by blast
  qed
  have fr: "\<forall>m slot v. m < next_node g \<longrightarrow> \<not> reads g m slot (Value p 0) \<longrightarrow>
        reads g' m slot v = reads g m slot v"
    using fr' us by simp
  have "next_node g \<le> next_node g'" using n' by simp
  with res b' lf' sh' new rew fr bf' ib' show ?thesis by blast
qed

lemma replicated_step:
  assumes b0: "bounded g0" and inv: "replicated g0 ps g"
    and pL: "p \<in> set ns" and pP: "p \<notin> set ps" and PL: "set ps \<subseteq> set ns"
    and ind: "\<forall>p \<in> set ns. \<forall>slot v. reads g0 p slot v \<longrightarrow> producer v \<notin> set ns"
    and pl: "\<forall>m slot v. reads g0 m slot v \<longrightarrow> in_block m (top_block g0)"
    and q: "reads g0 p 0 q" and o: "output g0 p = Inr dv"
  shows "\<exists>g'. replicate_dequant g p = Inr g' \<and> replicated g0 (ps @ [p]) g'"
proof -
  from inv have b: "bounded g" and le: "next_node g0 \<le> next_node g"
    and lf: "\<forall>p. leaf_at_block p (top_block g0) \<longrightarrow> leaf_at_block p (top_block g)"
    and ib: "\<forall>u. in_block u (top_block g0) \<longrightarrow> in_block u (top_block g)"
    and sh: "\<forall>m < next_node g0. shape g m = shape g0 m"
    and nw: "\<forall>d. next_node g0 \<le> d \<and> d < next_node g \<longrightarrow>
         (\<exists>p \<in> set ps. \<exists>q. reads g0 p 0 q \<and> nodes g d = Some (dequantize_of q))"
    and rw: "\<forall>m slot p. p \<in> set ps \<longrightarrow> reads g0 m slot (Value p 0) \<longrightarrow>
         (\<exists>d q. next_node g0 \<le> d \<and> reads g0 p 0 q \<and> nodes g d = Some (dequantize_of q) \<and>
            reads g m slot (Value d 0) \<and> before_in_block d m (top_block g) \<and>
            (\<forall>m' s'. reads g m' s' (Value d 0) \<longrightarrow> m' = m \<and> s' = slot))"
    and fr: "\<forall>m slot v. m < next_node g0 \<longrightarrow> (\<forall>p \<in> set ps. \<not> reads g0 m slot (Value p 0)) \<longrightarrow>
         reads g m slot v = reads g0 m slot v"
    unfolding replicated_def by simp_all
  have p0: "p < next_node g0" using reads_bounded [OF b0 q] .
  have Lb: "x < next_node g0" if "x \<in> set ns" "reads g0 x s v" for x s v
    using reads_bounded [OF b0 that(2)] .
  have indq: "producer v \<notin> set ns" if "x \<in> set ns" "reads g0 x s v" for x s v
    using ind that by blast
  have qP: "q \<noteq> Value p' 0" if "p' \<in> set ns" for p'
    using indq [OF pL q] that by auto
  have gq: "reads g p 0 q"
  proof -
    have "\<forall>p' \<in> set ps. \<not> reads g0 p 0 (Value p' 0)"
      using reads_fun [OF q] qP PL by blast
    with fr p0 q show ?thesis by simp
  qed
  have go: "output g p = Inr dv"
    using o sh p0 by (simp add: output_iff)
  from replicate_dequant_effect [OF b gq go] obtain g' where
    res: "replicate_dequant g p = Inr g'" and
    le': "next_node g \<le> next_node g'" and b': "bounded g'" and
    lf': "\<forall>p. leaf_at_block p (top_block g) \<longrightarrow> leaf_at_block p (top_block g')" and
    sh': "\<forall>m < next_node g. shape g' m = shape g m" and
    nw': "\<forall>d. next_node g \<le> d \<and> d < next_node g' \<longrightarrow> nodes g' d = Some (dequantize_of q)" and
    rw': "\<forall>m slot. reads g m slot (Value p 0) \<longrightarrow>
        (\<exists>d. next_node g \<le> d \<and> d < next_node g' \<and> reads g' m slot (Value d 0) \<and>
           (in_block m (top_block g) \<longrightarrow> before_in_block d m (top_block g')) \<and>
           (\<forall>m' s'. reads g' m' s' (Value d 0) \<longrightarrow> m' = m \<and> s' = slot))" and
    fr': "\<forall>m slot v. m < next_node g \<longrightarrow> \<not> reads g m slot (Value p 0) \<longrightarrow>
        reads g' m slot v = reads g m slot v" and
    bf': "\<forall>d u. before_in_block d u (top_block g) \<longrightarrow> before_in_block d u (top_block g')" and
    ib': "\<forall>u. in_block u (top_block g) \<longrightarrow> in_block u (top_block g')"
    by blast
  \<comment> \<open>a dequantize Node made earlier is unchanged\<close>
  have keep: "nodes g' d = Some (dequantize_of q')"
    if d: "nodes g d = Some (dequantize_of q')" and q': "reads g0 p' 0 q'" and p': "p' \<in> set ns"
    for d q' p'
  proof -
    have dl: "d < next_node g" using bounded_live [OF b d] .
    have "q' \<noteq> Value p 0" using indq [OF p' q'] pL by auto
    moreover have "reads g d 0 q'" using d by (simp add: dequantize_of_iff)
    ultimately have "\<not> reads g d 0 (Value p 0)" using reads_fun by blast
    with fr' dl have "reads g' d 0 q' = reads g d 0 q'" by simp
    with d sh' dl show ?thesis by (simp add: dequantize_of_iff)
  qed
  have 3: "\<forall>d. next_node g0 \<le> d \<and> d < next_node g' \<longrightarrow>
         (\<exists>p' \<in> set (ps @ [p]). \<exists>q. reads g0 p' 0 q \<and> nodes g' d = Some (dequantize_of q))"
  proof (intro allI impI)
    fix d assume d: "next_node g0 \<le> d \<and> d < next_node g'"
    show "\<exists>p' \<in> set (ps @ [p]). \<exists>q. reads g0 p' 0 q \<and> nodes g' d = Some (dequantize_of q)"
    proof (cases "d < next_node g")
      case True
      with d nw obtain p' q' where "p' \<in> set ps" "reads g0 p' 0 q'"
        "nodes g d = Some (dequantize_of q')" by blast
      with keep [of d q' p'] PL show ?thesis by auto
    next
      case False
      with d nw' have "nodes g' d = Some (dequantize_of q)" by simp
      with q show ?thesis by auto
    qed
  qed
  have new_reads: False if "reads g' m' s' (Value d 0)" "next_node g0 \<le> d" "\<not> m' < next_node g"
    for m' s' d
  proof -
    from that(1) have "nodes g' m' \<noteq> None" by (rule reads_live)
    then have "m' < next_node g'"
      using bounded_None [OF b', of m'] by (cases "m' < next_node g'") auto
    with that(3) nw' have "nodes g' m' = Some (dequantize_of q)" by simp
    with that(1) have "q = Value d 0" by (auto simp: reads_def dequantize_of_def)
    with bounded_reads [OF b0 q] that(2) show False by simp
  qed
  have 4: "\<forall>m slot p'. p' \<in> set (ps @ [p]) \<longrightarrow> reads g0 m slot (Value p' 0) \<longrightarrow>
         (\<exists>d q. next_node g0 \<le> d \<and> reads g0 p' 0 q \<and> nodes g' d = Some (dequantize_of q) \<and>
            reads g' m slot (Value d 0) \<and> before_in_block d m (top_block g') \<and>
            (\<forall>m' s'. reads g' m' s' (Value d 0) \<longrightarrow> m' = m \<and> s' = slot))"
  proof (intro allI impI)
    fix m slot p' assume p': "p' \<in> set (ps @ [p])" and r0: "reads g0 m slot (Value p' 0)"
    show "\<exists>d q. next_node g0 \<le> d \<and> reads g0 p' 0 q \<and> nodes g' d = Some (dequantize_of q) \<and>
            reads g' m slot (Value d 0) \<and> before_in_block d m (top_block g') \<and>
            (\<forall>m' s'. reads g' m' s' (Value d 0) \<longrightarrow> m' = m \<and> s' = slot)"
    proof (cases "p' \<in> set ps")
      case True
      with rw r0 obtain d q' where d: "next_node g0 \<le> d" "reads g0 p' 0 q'"
        "nodes g d = Some (dequantize_of q')" "reads g m slot (Value d 0)"
        "\<forall>m' s'. reads g m' s' (Value d 0) \<longrightarrow> m' = m \<and> s' = slot"
        and dpl: "before_in_block d m (top_block g)" by blast
      from dpl bf' have dpl': "before_in_block d m (top_block g')" by blast
      have k: "nodes g' d = Some (dequantize_of q')" using keep [OF d(3) d(2)] True PL by blast
      have ml: "m < next_node g" using reads_bounded [OF b d(4)] .
      have "Value d 0 \<noteq> Value p 0" using d(1) p0 by simp
      then have "\<not> reads g m slot (Value p 0)" using reads_fun [OF d(4)] by blast
      with fr' ml d(4) have r': "reads g' m slot (Value d 0)" by simp
      have u: "m' = m \<and> s' = slot" if a: "reads g' m' s' (Value d 0)" for m' s'
      proof (cases "m' < next_node g")
        case lt: True
        show ?thesis
        proof (cases "reads g m' s' (Value p 0)")
          case True
          with rw' obtain d2 where "next_node g \<le> d2" "reads g' m' s' (Value d2 0)" by blast
          with reads_fun [OF a this(2)] bounded_live [OF b d(3)] show ?thesis by simp
        next
          case False
          with fr' lt a have "reads g m' s' (Value d 0)" by simp
          with d(5) show ?thesis by blast
        qed
      next
        case False
        with new_reads [OF a d(1)] show ?thesis by blast
      qed
      from d(1,2) k r' u dpl' show ?thesis by blast
    next
      case False
      with p' have eq: "p' = p" by simp
      have m0: "m < next_node g0" using reads_bounded [OF b0 r0] .
      have "\<forall>p'' \<in> set ps. \<not> reads g0 m slot (Value p'' 0)"
        using reads_fun [OF r0] eq pP by auto
      with fr m0 r0 have "reads g m slot (Value p 0)" using eq by simp
      with rw' obtain d where d: "next_node g \<le> d" "d < next_node g'"
        "reads g' m slot (Value d 0)"
        "\<forall>m' s'. reads g' m' s' (Value d 0) \<longrightarrow> m' = m \<and> s' = slot"
        and dpl: "in_block m (top_block g) \<longrightarrow> before_in_block d m (top_block g')" by blast
      from pl r0 ib have "in_block m (top_block g)" by blast
      with dpl have dpl': "before_in_block d m (top_block g')" by simp
      from d(1,2) nw' have nd: "nodes g' d = Some (dequantize_of q)" by simp
      have d0: "next_node g0 \<le> d" using d(1) le by simp
      from d0 q nd d(3,4) dpl' show ?thesis unfolding eq by blast
    qed
  qed
  have 5: "\<forall>m slot v. m < next_node g0 \<longrightarrow> (\<forall>p' \<in> set (ps @ [p]). \<not> reads g0 m slot (Value p' 0)) \<longrightarrow>
         reads g' m slot v = reads g0 m slot v"
  proof (intro allI impI)
    fix m slot v assume m: "m < next_node g0"
      and n: "\<forall>p' \<in> set (ps @ [p]). \<not> reads g0 m slot (Value p' 0)"
    then have e: "reads g m slot w = reads g0 m slot w" for w using fr by simp
    with n have "\<not> reads g m slot (Value p 0)" by simp
    with fr' m le have "reads g' m slot v = reads g m slot v" by simp
    with e show "reads g' m slot v = reads g0 m slot v" by simp
  qed
  have 1: "next_node g0 \<le> next_node g'" using le le' by simp
  have 2: "\<forall>m < next_node g0. shape g' m = shape g0 m" using sh sh' le by simp
  have 0: "\<forall>p. leaf_at_block p (top_block g0) \<longrightarrow> leaf_at_block p (top_block g')"
    using lf lf' by blast
  have 6: "\<forall>u. in_block u (top_block g0) \<longrightarrow> in_block u (top_block g')"
    using ib ib' by blast
  have "replicated g0 (ps @ [p]) g'"
    unfolding replicated_def using b' 1 0 6 2 3 4 5 by blast
  with res show ?thesis by blast
qed

lemma replicated_init: "bounded g \<Longrightarrow> replicated g [] g"
  unfolding replicated_def
proof (intro conjI)
  assume b: "bounded g"
  show "\<forall>d. next_node g \<le> d \<and> d < next_node g \<longrightarrow>
         (\<exists>p \<in> set []. \<exists>q. reads g p 0 q \<and> nodes g d = Some (dequantize_of q))"
    by simp
qed simp_all

lemma replicated_fold:
  assumes b0: "bounded g0"
    and ind: "\<forall>p \<in> set ns. \<forall>slot v. reads g0 p slot v \<longrightarrow> producer v \<notin> set ns"
    and pl: "\<forall>m slot v. reads g0 m slot v \<longrightarrow> in_block m (top_block g0)"
    and inp: "\<forall>p \<in> set ns. (\<exists>q. reads g0 p 0 q) \<and> (\<exists>dv. output g0 p = Inr dv)"
  shows "replicated g0 ps g \<Longrightarrow> set ps \<subseteq> set ns \<Longrightarrow> set rs \<subseteq> set ns \<Longrightarrow>
     distinct (ps @ rs) \<Longrightarrow>
     \<exists>g1. foldE replicate_dequant g rs = Inr g1 \<and> replicated g0 (ps @ rs) g1"
proof (induction rs arbitrary: ps g)
  case Nil
  then show ?case by simp
next
  case (Cons p rs)
  from Cons.prems have pL: "p \<in> set ns" and pP: "p \<notin> set ps" by auto
  from inp pL obtain q dv where q: "reads g0 p 0 q" and o: "output g0 p = Inr dv" by blast
  from replicated_step [OF b0 Cons.prems(1) pL pP Cons.prems(2) ind pl q o]
  obtain g' where g': "replicate_dequant g p = Inr g'" "replicated g0 (ps @ [p]) g'" by blast
  have "set (ps @ [p]) \<subseteq> set ns" using Cons.prems(2) pL by simp
  moreover have "set rs \<subseteq> set ns" using Cons.prems(3) by simp
  moreover have "distinct ((ps @ [p]) @ rs)" using Cons.prems(4) by simp
  ultimately obtain g1 where "foldE replicate_dequant g' rs = Inr g1"
    "replicated g0 ((ps @ [p]) @ rs) g1"
    using Cons.IH [OF g'(2)] by blast
  with g'(1) show ?case by (simp add: ebind_def)
qed

lemma removeAllInputs_fold:
  "\<forall>p \<in> set ns. nodes g p \<noteq> None \<Longrightarrow>
   \<exists>g2. foldE removeAllInputs g ns = Inr g2 \<and> next_node g2 = next_node g \<and>
     top_block g2 = top_block g \<and>
     (\<forall>m. nodes g2 m =
        (if m \<in> set ns then map_option (\<lambda>nd. nd \<lparr> inputs := [] \<rparr>) (nodes g m) else nodes g m))"
proof (induction ns arbitrary: g)
  case Nil
  then show ?case by simp
next
  case (Cons p ns)
  from Cons.prems obtain nd where nd: "nodes g p = Some nd" by auto
  let ?g = "g \<lparr> nodes := (nodes g)(p \<mapsto> nd \<lparr> inputs := [] \<rparr>) \<rparr>"
  have step: "removeAllInputs g p = Inr ?g"
    using nd by (simp add: removeAllInputs_def get_node_def ebind_def)
  have "\<forall>p' \<in> set ns. nodes ?g p' \<noteq> None" using Cons.prems by simp
  from Cons.IH [OF this] obtain g2 where g2: "foldE removeAllInputs ?g ns = Inr g2"
    "next_node g2 = next_node ?g" "top_block g2 = top_block ?g"
    "\<forall>m. nodes g2 m =
        (if m \<in> set ns then map_option (\<lambda>nd. nd \<lparr> inputs := [] \<rparr>) (nodes ?g m) else nodes ?g m)"
    by blast
  have "\<forall>m. nodes g2 m =
        (if m \<in> set (p # ns) then map_option (\<lambda>nd. nd \<lparr> inputs := [] \<rparr>) (nodes g m)
         else nodes g m)"
    using g2(4) nd by auto
  with step g2(1,2,3) show ?case by (simp add: ebind_def)
qed

lemma first_some_None: "first_some (map f xs) = None \<longleftrightarrow> (\<forall>x \<in> set xs. f x = None)"
proof (induction xs)
  case Nil
  then show ?case by simp
next
  case (Cons a xs)
  then show ?case by (cases "f a") auto
qed

lemma find_remove_self:
  "find_in_block n (remove_block n t) = None"
  "bn_id x \<noteq> n \<Longrightarrow> find_in_bnode n (remove_bnode n x) = None"
proof (induction n t and n x rule: remove_block_remove_bnode.induct)
  case (1 n p r ns)
  then show ?case
    by (auto simp: first_some_None bn_id_remove)
next
  case (2 n m bs)
  then show ?case by (auto simp: first_some_None)
qed

lemma find_remove_None:
  "find_in_block n t = None \<Longrightarrow> find_in_block n (remove_block p t) = None"
  "find_in_bnode n x = None \<Longrightarrow> find_in_bnode n (remove_bnode p x) = None"
proof (induction p t and p x rule: remove_block_remove_bnode.induct)
  case (1 p pn r ns)
  then show ?case by (auto simp: first_some_None)
next
  case (2 p m bs)
  then show ?case by (auto simp: first_some_None split: if_splits)
qed

lemma destroy_fold:
  "distinct ns \<Longrightarrow>
   \<forall>p \<in> set ns. (\<exists>nd. nodes g p = Some nd \<and> num_outputs nd = 1) \<and>
      (\<forall>m slot. \<not> reads g m slot (Value p 0)) \<and> leaf_at_block p (top_block g) \<Longrightarrow>
   \<exists>g3. foldE destroy g ns = Inr g3 \<and> next_node g3 = next_node g \<and>
     (\<forall>m. nodes g3 m = (if m \<in> set ns then None else nodes g m)) \<and>
     (\<forall>p \<in> set ns. find_in_block p (top_block g3) = None) \<and>
     (\<forall>p. find_in_block p (top_block g) = None \<longrightarrow> find_in_block p (top_block g3) = None) \<and>
     (\<forall>d u. d \<notin> set ns \<longrightarrow> u \<notin> set ns \<longrightarrow> before_in_block d u (top_block g) \<longrightarrow>
        before_in_block d u (top_block g3))"
proof (induction ns arbitrary: g)
  case Nil
  then show ?case by simp
next
  case (Cons p ns)
  from Cons.prems(2) obtain nd where nd: "nodes g p = Some nd" "num_outputs nd = 1"
    and u: "\<And>m slot. \<not> reads g m slot (Value p 0)" and lf: "leaf_at_block p (top_block g)"
    by auto
  let ?g = "g \<lparr> nodes := (nodes g)(p := None), top_block := remove_block p (top_block g) \<rparr>"
  have step: "destroy g p = Inr ?g" using destroy_leaf [OF nd u lf] .
  have pre: "\<forall>p' \<in> set ns. (\<exists>nd. nodes ?g p' = Some nd \<and> num_outputs nd = 1) \<and>
      (\<forall>m slot. \<not> reads ?g m slot (Value p' 0)) \<and> leaf_at_block p' (top_block ?g)"
  proof
    fix p' assume p': "p' \<in> set ns"
    with Cons.prems(1) have ne: "p' \<noteq> p" by auto
    from Cons.prems(2) p' have a: "\<exists>nd. nodes g p' = Some nd \<and> num_outputs nd = 1"
      and b: "\<forall>m slot. \<not> reads g m slot (Value p' 0)"
      and c: "leaf_at_block p' (top_block g)" by auto
    from a ne have "\<exists>nd. nodes ?g p' = Some nd \<and> num_outputs nd = 1" by simp
    moreover from b have "\<forall>m slot. \<not> reads ?g m slot (Value p' 0)"
      by (simp add: reads_removed)
    moreover from c have "leaf_at_block p' (top_block ?g)" by (simp add: leaf_at_remove(1))
    ultimately show "(\<exists>nd. nodes ?g p' = Some nd \<and> num_outputs nd = 1) \<and>
      (\<forall>m slot. \<not> reads ?g m slot (Value p' 0)) \<and> leaf_at_block p' (top_block ?g)"
      by blast
  qed
  from Cons.prems(1) have "distinct ns" by simp
  from Cons.IH [OF this pre] obtain g3 where g3: "foldE destroy ?g ns = Inr g3"
    "next_node g3 = next_node ?g" "\<forall>m. nodes g3 m = (if m \<in> set ns then None else nodes ?g m)"
    and gone: "\<forall>p \<in> set ns. find_in_block p (top_block g3) = None"
    and stay: "\<forall>p. find_in_block p (top_block ?g) = None \<longrightarrow>
                 find_in_block p (top_block g3) = None"
    and bf: "\<forall>d u. d \<notin> set ns \<longrightarrow> u \<notin> set ns \<longrightarrow> before_in_block d u (top_block ?g) \<longrightarrow>
        before_in_block d u (top_block g3)"
    by blast
  have 1: "\<forall>m. nodes g3 m = (if m \<in> set (p # ns) then None else nodes g m)"
    using g3(3) by auto
  have "find_in_block p (top_block ?g) = None" by (simp add: find_remove_self(1))
  with stay have "find_in_block p (top_block g3) = None" by blast
  with gone have 2: "\<forall>p' \<in> set (p # ns). find_in_block p' (top_block g3) = None" by simp
  have 3: "\<forall>p'. find_in_block p' (top_block g) = None \<longrightarrow>
              find_in_block p' (top_block g3) = None"
    using stay find_remove_None(1) by simp
  have 4: "\<forall>d u. d \<notin> set (p # ns) \<longrightarrow> u \<notin> set (p # ns) \<longrightarrow>
        before_in_block d u (top_block g) \<longrightarrow> before_in_block d u (top_block g3)"
  proof (intro allI impI)
    fix d u assume d: "d \<notin> set (p # ns)" and u': "u \<notin> set (p # ns)"
      and b: "before_in_block d u (top_block g)"
    from d u' have "p \<noteq> d" "p \<noteq> u" by auto
    from before_remove(1) [OF b lf this] have "before_in_block d u (top_block ?g)" by simp
    with bf d u' show "before_in_block d u (top_block g3)" by simp
  qed
  from step g3(1,2) 1 2 3 4 show ?case by (simp add: ebind_def)
qed

lemma multi_use_dequant_True:
  "multi_use_dequant g p = Inr True \<longleftrightarrow>
     (\<exists>nd. nodes g p = Some nd \<and> kind nd = ''aten::dequantize'' \<and> num_outputs nd = 1 \<and>
        1 < length (uses g (Value p 0)))"
  unfolding multi_use_dequant_def output_def get_node_def ebind_def
  by (cases "nodes g p") auto

lemma filterE_total:
  "\<forall>x \<in> set xs. \<exists>b. f x = Inr b \<Longrightarrow> \<exists>ys. filterE f xs = Inr ys"
proof (induction xs)
  case Nil
  then show ?case by simp
next
  case (Cons x xs)
  then obtain b ys where "f x = Inr b" "filterE f xs = Inr ys" by auto
  then show ?case by (simp add: ebind_def)
qed

lemma multi_use_dequant_total:
  assumes "nodes g p = Some nd"
    and "kind nd = ''aten::dequantize'' \<longrightarrow> num_outputs nd = 1"
  shows "\<exists>b. multi_use_dequant g p = Inr b"
  using assms
  unfolding multi_use_dequant_def output_def get_node_def ebind_def by auto

lemma list_all2_choose:
  "\<forall>x \<in> set xs. \<exists>y. P y x \<Longrightarrow> \<exists>ys. list_all2 P ys xs"
proof (induction xs)
  case Nil
  then show ?case by simp
next
  case (Cons x xs)
  then obtain y ys where "P y x" "list_all2 P ys xs" by auto
  then have "list_all2 P (y # ys) (x # xs)" by simp
  then show ?case by blast
qed

lemma list_all2_distinct:
  assumes "list_all2 P ys xs" and "distinct xs"
    and "\<And>y x x'. P y x \<Longrightarrow> P y x' \<Longrightarrow> x = x'"
  shows "distinct ys"
  using assms(1,2)
proof (induction ys xs rule: list_all2_induct)
  case Nil
  then show ?case by simp
next
  case (Cons y ys x xs)
  have "y \<notin> set ys"
  proof
    assume "y \<in> set ys"
    then obtain i where i: "i < length ys" "ys ! i = y" by (auto simp: in_set_conv_nth)
    with Cons.hyps(2) have "P y (xs ! i)" "i < length xs"
      by (auto simp: list_all2_conv_all_nth)
    with assms(3) [OF Cons.hyps(1)] have "x = xs ! i" by blast
    with \<open>i < length xs\<close> Cons.prems show False by auto
  qed
  with Cons show ?case by simp
qed

lemma multi_use_iff:
  "multi_use g p \<longleftrightarrow>
     (\<exists>nd. nodes g p = Some nd \<and> kind nd = ''aten::dequantize'' \<and>
        1 < length (uses g (Value p 0)))"
  unfolding multi_use_def by (cases "nodes g p") auto

text \<open>
  C8 (as amended). Let the Graph be well formed, with no dequantize Node whose output
  has more than one use reading the output of another such Node. For a dequantize
  Node \<open>n\<close> in a Block of the Graph whose output has more than one use and which
  reads the quantized Value \<open>q\<close>, replication succeeds; after its second loop
  \<open>n\<close> is live with no input, and after its third loop \<open>n\<close> is destroyed:
  neither live nor in a Block. The Graph it leaves has as many fresh dequantize
  Nodes as the output of \<open>n\<close> had uses, one for each use, each reading \<open>q\<close>,
  having that use as its only use, and placed before its user in the Block of the
  user.
\<close>

theorem ReplicateDeQuant_fans_out:
  assumes wf: "wellformed g" and ind: "independent g"
    and nv: "n \<in> set (visit_blocks [top_block g])"
    and nd: "nodes g n = Some nd" "kind nd = ''aten::dequantize''"
    and many: "1 < length (uses g (Value n 0))"
    and q: "reads g n 0 q"
  shows "\<exists>g1 g2 g'. ReplicateDeQuant_loops g = Inr (g1, g2, g') \<and>
     ReplicateDeQuant g = Inr g' \<and>
     (\<exists>nd2. nodes g2 n = Some nd2 \<and> inputs nd2 = []) \<and>
     fanned_out g n q g'"
proof -
  from wf have b: "bounded g" and dist: "distinct (visit_blocks [top_block g])"
    and alive: "\<forall>m \<in> set (visit_blocks [top_block g]). nodes g m \<noteq> None"
    and pl: "\<forall>m slot v. reads g m slot v \<longrightarrow> in_block m (top_block g)"
    and deq: "\<forall>p nd. nodes g p = Some nd \<longrightarrow> kind nd = ''aten::dequantize'' \<longrightarrow>
         num_outputs nd = 1 \<and> inputs nd \<noteq> [] \<and> leaf_at_block p (top_block g)"
    unfolding wellformed_def by simp_all
  have "\<forall>x \<in> set (visit_blocks [top_block g]). \<exists>b. multi_use_dequant g x = Inr b"
  proof
    fix x assume "x \<in> set (visit_blocks [top_block g])"
    with alive obtain ndx where ndx: "nodes g x = Some ndx" by auto
    with deq have "kind ndx = ''aten::dequantize'' \<longrightarrow> num_outputs ndx = 1" by blast
    with ndx show "\<exists>b. multi_use_dequant g x = Inr b" by (rule multi_use_dequant_total)
  qed
  then obtain ns where
    col: "filterE (multi_use_dequant g) (visit_blocks [top_block g]) = Inr ns"
    using filterE_total by blast
  note fp = filterE_props [OF col]
  from fp dist have dns: "distinct ns" by blast
  have mu: "multi_use_dequant g p = Inr True" if "p \<in> set ns" for p using fp that by blast
  have mu': "multi_use g p" if "p \<in> set ns" for p
    using mu [OF that] unfolding multi_use_dequant_True multi_use_iff by blast
  have n1: "num_outputs nd = 1" using deq nd by blast
  have n: "n \<in> set ns"
    using fp nv nd n1 many multi_use_dequant_True [of g n] by blast
  have live: "\<exists>nd. nodes g p = Some nd \<and> num_outputs nd = 1" if "p \<in> set ns" for p
    using mu [OF that] unfolding multi_use_dequant_True by blast
  have out: "output g p = Inr (Value p 0)" if "p \<in> set ns" for p
    using live [OF that] by (auto simp: output_def get_node_def ebind_def)
  have lt: "p < next_node g" if "p \<in> set ns" for p
    using live [OF that] bounded_live [OF b] by blast
  have indn: "\<forall>p \<in> set ns. \<forall>slot v. reads g p slot v \<longrightarrow> producer v \<notin> set ns"
  proof (intro ballI allI impI)
    fix p slot v assume p: "p \<in> set ns" and r: "reads g p slot v"
    from ind mu' [OF p] r have "\<not> multi_use g (producer v)"
      unfolding independent_def by blast
    with mu' show "producer v \<notin> set ns" by blast
  qed
  have wfn: "leaf_at_block p (top_block g) \<and> (\<exists>v. reads g p 0 v)" if "p \<in> set ns" for p
  proof -
    from mu [OF that] obtain ndp where ndp: "nodes g p = Some ndp"
      "kind ndp = ''aten::dequantize''"
      unfolding multi_use_dequant_True by blast
    with deq have "inputs ndp \<noteq> []" "leaf_at_block p (top_block g)" by blast+
    with ndp(1) show ?thesis by (auto simp: reads_def)
  qed
  have inp: "\<forall>p \<in> set ns. (\<exists>q. reads g p 0 q) \<and> (\<exists>dv. output g p = Inr dv)"
    using wfn out by blast
  from replicated_fold [OF b indn pl inp replicated_init [OF b], of ns] dns
  obtain g1 where g1: "foldE replicate_dequant g ns = Inr g1" and rep: "replicated g ns g1"
    by auto
  from rep have b1: "bounded g1" and le: "next_node g \<le> next_node g1"
    and lf: "\<forall>p. leaf_at_block p (top_block g) \<longrightarrow> leaf_at_block p (top_block g1)"
    and sh: "\<forall>m < next_node g. shape g1 m = shape g m"
    and nw: "\<forall>d. next_node g \<le> d \<and> d < next_node g1 \<longrightarrow>
         (\<exists>p \<in> set ns. \<exists>q. reads g p 0 q \<and> nodes g1 d = Some (dequantize_of q))"
    and rw: "\<forall>m slot p. p \<in> set ns \<longrightarrow> reads g m slot (Value p 0) \<longrightarrow>
         (\<exists>d q. next_node g \<le> d \<and> reads g p 0 q \<and> nodes g1 d = Some (dequantize_of q) \<and>
            reads g1 m slot (Value d 0) \<and> before_in_block d m (top_block g1) \<and>
            (\<forall>m' s'. reads g1 m' s' (Value d 0) \<longrightarrow> m' = m \<and> s' = slot))"
    and fr: "\<forall>m slot v. m < next_node g \<longrightarrow> (\<forall>p \<in> set ns. \<not> reads g m slot (Value p 0)) \<longrightarrow>
         reads g1 m slot v = reads g m slot v"
    unfolding replicated_def by simp_all
  have live1: "\<exists>nd. nodes g1 p = Some nd \<and> num_outputs nd = 1" if "p \<in> set ns" for p
  proof -
    from live [OF that] obtain nd where "nodes g p = Some nd" "num_outputs nd = 1" by blast
    moreover have "shape g1 p = shape g p" using sh lt [OF that] by simp
    ultimately show ?thesis by (auto simp: shape_def)
  qed
  \<comment> \<open>after the replication no slot reads the output of a replicated Node\<close>
  have unread: "\<not> reads g1 m slot (Value p 0)" if p: "p \<in> set ns" for m slot p
  proof
    assume r: "reads g1 m slot (Value p 0)"
    have m1: "m < next_node g1" using reads_bounded [OF b1 r] .
    show False
    proof (cases "m < next_node g")
      case True
      show False
      proof (cases "\<exists>p' \<in> set ns. reads g m slot (Value p' 0)")
        case True
        with rw obtain d where "next_node g \<le> d" "reads g1 m slot (Value d 0)" by blast
        with reads_fun [OF r this(2)] lt [OF p] show False by simp
      next
        case False
        with fr \<open>m < next_node g\<close> r have "reads g m slot (Value p 0)" by simp
        with False p show False by blast
      qed
    next
      case False
      with m1 nw obtain p' q' where p': "p' \<in> set ns" "reads g p' 0 q'"
        "nodes g1 m = Some (dequantize_of q')" by (meson not_less)
      with r have "q' = Value p 0" by (auto simp: reads_def dequantize_of_def)
      with indn p'(1,2) p show False by fastforce
    qed
  qed
  have "\<forall>p \<in> set ns. nodes g1 p \<noteq> None" using live1 by auto
  from removeAllInputs_fold [OF this] obtain g2 where
    g2: "foldE removeAllInputs g1 ns = Inr g2" and n2: "next_node g2 = next_node g1" and
    t2: "top_block g2 = top_block g1" and
    s2: "\<forall>m. nodes g2 m =
        (if m \<in> set ns then map_option (\<lambda>nd. nd \<lparr> inputs := [] \<rparr>) (nodes g1 m) else nodes g1 m)"
    by blast
  have r2: "reads g2 m slot v \<Longrightarrow> reads g1 m slot v" for m slot v
    using s2 by (cases "m \<in> set ns"; cases "nodes g1 m") (auto simp: reads_def)
  have cleared: "\<exists>nd2. nodes g2 n = Some nd2 \<and> inputs nd2 = []"
    using live1 [OF n] s2 n by auto
  have pre3: "\<forall>p \<in> set ns. (\<exists>nd. nodes g2 p = Some nd \<and> num_outputs nd = 1) \<and>
      (\<forall>m slot. \<not> reads g2 m slot (Value p 0)) \<and> leaf_at_block p (top_block g2)"
  proof
    fix p assume p: "p \<in> set ns"
    from live1 [OF p] s2 p have "\<exists>nd. nodes g2 p = Some nd \<and> num_outputs nd = 1" by auto
    moreover have "\<forall>m slot. \<not> reads g2 m slot (Value p 0)" using unread [OF p] r2 by blast
    moreover have "leaf_at_block p (top_block g2)" using wfn [OF p] lf t2 by simp
    ultimately show "(\<exists>nd. nodes g2 p = Some nd \<and> num_outputs nd = 1) \<and>
      (\<forall>m slot. \<not> reads g2 m slot (Value p 0)) \<and> leaf_at_block p (top_block g2)" by blast
  qed
  from destroy_fold [OF dns pre3] obtain g3 where
    g3: "foldE destroy g2 ns = Inr g3" and n3: "next_node g3 = next_node g2" and
    s3: "\<forall>m. nodes g3 m = (if m \<in> set ns then None else nodes g2 m)" and
    gone: "\<forall>p \<in> set ns. find_in_block p (top_block g3) = None" and
    bf3: "\<forall>d u. d \<notin> set ns \<longrightarrow> u \<notin> set ns \<longrightarrow> before_in_block d u (top_block g2) \<longrightarrow>
        before_in_block d u (top_block g3)"
    by blast
  have loops: "ReplicateDeQuant_loops g = Inr (g1, g2, g3)"
    unfolding ReplicateDeQuant_loops_def using col g1 g2 g3 by (simp add: ebind_def)
  then have res: "ReplicateDeQuant g = Inr g3"
    unfolding ReplicateDeQuant_def by (simp add: ebind_def)
  have s31: "nodes g3 m = (if m \<in> set ns then None else nodes g1 m)" for m
    using s3 s2 by simp
  have r3: "reads g3 m slot v \<longleftrightarrow> m \<notin> set ns \<and> reads g1 m slot v" for m slot v
    using s31 [of m] by (simp add: reads_def)
  have b3: "bounded g3"
  proof (rule bounded_readsI)
    fix d assume "d \<ge> next_node g3"
    with n3 n2 bounded_None [OF b1, of d] s31 [of d] show "nodes g3 d = None" by simp
  next
    fix m slot v assume "reads g3 m slot v"
    then have "reads g1 m slot v" using r3 by simp
    from bounded_reads [OF b1 this] n3 n2 show "producer v < next_node g3" by simp
  qed
  let ?P = "\<lambda>d use. nodes g d = None \<and> nodes g3 d = Some (dequantize_of q) \<and>
                      uses g3 (Value d 0) = [use] \<and>
                      before_in_block d (fst use) (top_block g3)"
  have each: "\<exists>d. ?P d use" if use: "use \<in> set (uses g (Value n 0))" for use
  proof -
    obtain m slot where ms: "use = (m, slot)" by (cases use)
    with use have r: "reads g m slot (Value n 0)" by (simp add: uses_iff)
    with rw n obtain d q' where d: "next_node g \<le> d" "reads g n 0 q'"
      "nodes g1 d = Some (dequantize_of q')" "reads g1 m slot (Value d 0)"
      "\<forall>m' s'. reads g1 m' s' (Value d 0) \<longrightarrow> m' = m \<and> s' = slot"
      and dpl: "before_in_block d m (top_block g1)" by blast
    have qq: "q' = q" using reads_fun [OF d(2) q] .
    have mn: "m \<notin> set ns"
    proof
      assume "m \<in> set ns"
      with indn r n show False by fastforce
    qed
    have dn: "d \<notin> set ns" using lt d(1) by fastforce
    have "nodes g d = None" using bounded_None [OF b d(1)] .
    moreover have "nodes g3 d = Some (dequantize_of q)" using s31 [of d] dn d(3) qq by simp
    moreover have "uses g3 (Value d 0) = [(m, slot)]"
    proof (rule uses_single [OF b3])
      show "reads g3 m slot (Value d 0)" using r3 mn d(4) by simp
    next
      fix m' s' assume "reads g3 m' s' (Value d 0)"
      then have "reads g1 m' s' (Value d 0)" using r3 by simp
      with d(5) have "m' = m \<and> s' = slot" by blast
      then show "(m', s') = (m, slot)" by simp
    qed
    moreover have "before_in_block d m (top_block g3)"
      using bf3 dn mn dpl t2 by simp
    ultimately show ?thesis using ms by auto
  qed
  then obtain ds where ds: "list_all2 ?P ds (uses g (Value n 0))"
    using list_all2_choose [of "uses g (Value n 0)" ?P] by blast
  have "distinct ds"
  proof (rule list_all2_distinct [OF ds uses_distinct])
    fix y x x' assume "?P y x" "?P y x'"
    then have "[x] = [x']" by metis
    then show "x = x'" by simp
  qed
  moreover have "nodes g3 n = None" using s31 [of n] n by simp
  moreover have "find_in_block n (top_block g3) = None" using gone n by blast
  ultimately have "fanned_out g n q g3"
    unfolding fanned_out_def using ds by blast
  with loops res cleared show ?thesis by blast
qed

lemma fanout_bounded: "bounded fanout_graph"
  unfolding bounded_def fanout_graph_def by (auto split: if_splits)

lemma fanout_visit: "visit_blocks [top_block fanout_graph] = [2, 3, 4, 5]"
  by (simp add: fanout_graph_def)

lemma fanout_uses: "uses fanout_graph (Value 3 0) = [(4, 0), (5, 0), (5, 1)]"
  by code_simp

lemma fanout_reads: "reads fanout_graph 3 0 (Value 2 0)"
  by (simp add: reads_def fanout_graph_def)

lemma fanout_wellformed: "wellformed fanout_graph"
proof -
  have 1: "distinct (visit_blocks [top_block fanout_graph])" unfolding fanout_visit by simp
  have 2: "\<forall>m \<in> set (visit_blocks [top_block fanout_graph]). nodes fanout_graph m \<noteq> None"
    unfolding fanout_visit by (simp add: fanout_graph_def)
  have 3: "\<forall>m slot v. reads fanout_graph m slot v \<longrightarrow> in_block m (top_block fanout_graph)"
    unfolding reads_def fanout_graph_def by (auto split: if_splits)
  have 4: "\<forall>p nd. nodes fanout_graph p = Some nd \<longrightarrow> kind nd = ''aten::dequantize'' \<longrightarrow>
         num_outputs nd = 1 \<and> inputs nd \<noteq> [] \<and> leaf_at_block p (top_block fanout_graph)"
    unfolding fanout_graph_def by (auto split: if_splits)
  from fanout_bounded 1 2 3 4 show ?thesis unfolding wellformed_def by blast
qed

lemma fanout_independent: "independent fanout_graph"
  unfolding independent_def
proof (intro allI impI)
  fix p slot v
  assume m: "multi_use fanout_graph p" and r: "reads fanout_graph p slot v"
  from m have "\<exists>nd. nodes fanout_graph p = Some nd \<and> kind nd = ''aten::dequantize''"
    unfolding multi_use_iff by blast
  then have "p = 3" by (auto simp: fanout_graph_def split: if_splits)
  with r have "v = Value 2 0"
    by (auto simp: reads_def fanout_graph_def)
  then have "\<not> (\<exists>nd. nodes fanout_graph (producer v) = Some nd \<and> kind nd = ''aten::dequantize'')"
    by (simp add: fanout_graph_def)
  then show "\<not> multi_use fanout_graph (producer v)"
    unfolding multi_use_iff by blast
qed

theorem ReplicateDeQuant_fans_out_witness:
  "wellformed fanout_graph \<and> independent fanout_graph \<and>
   3 \<in> set (visit_blocks [top_block fanout_graph]) \<and>
   nodes fanout_graph 3 = Some (dequantize_of (Value 2 0)) \<and>
   uses fanout_graph (Value 3 0) = [(4, 0), (5, 0), (5, 1)] \<and>
   reads fanout_graph 3 0 (Value 2 0) \<and>
   (\<exists>g1 g2 g'. ReplicateDeQuant_loops fanout_graph = Inr (g1, g2, g') \<and>
      ReplicateDeQuant fanout_graph = Inr g' \<and>
      (\<exists>nd2. nodes g2 3 = Some nd2 \<and> inputs nd2 = []) \<and>
      fanned_out fanout_graph 3 (Value 2 0) g')"
proof -
  have nv: "3 \<in> set (visit_blocks [top_block fanout_graph])" unfolding fanout_visit by simp
  have nd: "nodes fanout_graph 3 = Some (dequantize_of (Value 2 0))"
    by (simp add: fanout_graph_def dequantize_of_def)
  have k: "kind (dequantize_of (Value 2 0)) = ''aten::dequantize''"
    by (simp add: dequantize_of_def)
  have many: "1 < length (uses fanout_graph (Value 3 0))" by (simp add: fanout_uses)
  from ReplicateDeQuant_fans_out [OF fanout_wellformed fanout_independent nv nd k many
      fanout_reads]
  have "\<exists>g1 g2 g'. ReplicateDeQuant_loops fanout_graph = Inr (g1, g2, g') \<and>
      ReplicateDeQuant fanout_graph = Inr g' \<and>
      (\<exists>nd2. nodes g2 3 = Some nd2 \<and> inputs nd2 = []) \<and>
      fanned_out fanout_graph 3 (Value 2 0) g'" .
  with fanout_wellformed fanout_independent nv nd fanout_uses fanout_reads
  show ?thesis by (intro conjI) assumption+
qed

lemma chained_wellformed: "wellformed chained_graph"
proof -
  have v: "visit_blocks [top_block chained_graph] = [2, 3, 4, 5, 6, 7]"
    by (simp add: chained_graph_def)
  have 0: "bounded chained_graph"
    unfolding bounded_def chained_graph_def by (auto split: if_splits)
  have 1: "distinct (visit_blocks [top_block chained_graph])" unfolding v by simp
  have 2: "\<forall>m \<in> set (visit_blocks [top_block chained_graph]). nodes chained_graph m \<noteq> None"
    unfolding v by (simp add: chained_graph_def)
  have 3: "\<forall>m slot v. reads chained_graph m slot v \<longrightarrow> in_block m (top_block chained_graph)"
    unfolding reads_def chained_graph_def by (auto split: if_splits)
  have 4: "\<forall>p nd. nodes chained_graph p = Some nd \<longrightarrow> kind nd = ''aten::dequantize'' \<longrightarrow>
         num_outputs nd = 1 \<and> inputs nd \<noteq> [] \<and> leaf_at_block p (top_block chained_graph)"
    unfolding chained_graph_def by (auto split: if_splits)
  from 0 1 2 3 4 show ?thesis unfolding wellformed_def by blast
qed

lemma chained_run:
  "case ReplicateDeQuant chained_graph of
     Inl e \<Rightarrow> False
   | Inr g' \<Rightarrow>
       nodes g' 4 = None \<and>
       nodes g' 8 = Some (dequantize_of (Value 2 0)) \<and>
       uses g' (Value 8 0) = [(10, 0), (11, 0)] \<and>
       nodes g' 10 = Some (dequantize_of (Value 8 0)) \<and>
       nodes g' 11 = Some (dequantize_of (Value 8 0)) \<and>
       reads g' 6 0 (Value 10 0)"
  by code_simp

text \<open>
  C8 as stated fails on a dequantize Node that reads the output of a dequantize Node,
  both outputs having two uses. The first Node is replicated for its use by the second
  one; the second one is replicated next and its copies read the copy of the first; the
  second one is destroyed. So the copy of the first Node made for the use by the second
  has two uses, none of them a use of the first Node, and the copies of the second Node
  do not read the Value that the second Node read: neither Node is fanned out.
\<close>

theorem ReplicateDeQuant_chained_counterexample:
  "wellformed chained_graph \<and>
   nodes chained_graph 3 = Some (dequantize_of (Value 2 0)) \<and>
   3 \<in> set (visit_blocks [top_block chained_graph]) \<and>
   uses chained_graph (Value 3 0) = [(4, 0), (5, 0)] \<and>
   nodes chained_graph 4 = Some (dequantize_of (Value 3 0)) \<and>
   uses chained_graph (Value 4 0) = [(6, 0), (7, 0)] \<and>
   (\<exists>g'. ReplicateDeQuant chained_graph = Inr g' \<and>
      \<not> fanned_out chained_graph 3 (Value 2 0) g' \<and>
      \<not> fanned_out chained_graph 4 (Value 3 0) g' \<and>
      nodes g' 8 = Some (dequantize_of (Value 2 0)) \<and>
      uses g' (Value 8 0) = [(10, 0), (11, 0)] \<and>
      nodes g' 10 = Some (dequantize_of (Value 8 0)) \<and>
      nodes g' 11 = Some (dequantize_of (Value 8 0)))"
proof -
  have n3: "nodes chained_graph 3 = Some (dequantize_of (Value 2 0))"
    by (simp add: chained_graph_def dequantize_of_def)
  have n4: "nodes chained_graph 4 = Some (dequantize_of (Value 3 0))"
    by (simp add: chained_graph_def dequantize_of_def)
  have v: "3 \<in> set (visit_blocks [top_block chained_graph])"
    by (simp add: chained_graph_def)
  have u3: "uses chained_graph (Value 3 0) = [(4, 0), (5, 0)]" by code_simp
  have u4: "uses chained_graph (Value 4 0) = [(6, 0), (7, 0)]" by code_simp
  from chained_run obtain g' where run: "ReplicateDeQuant chained_graph = Inr g'"
    and g': "nodes g' 4 = None" "nodes g' 8 = Some (dequantize_of (Value 2 0))"
      "uses g' (Value 8 0) = [(10, 0), (11, 0)]"
      "nodes g' 10 = Some (dequantize_of (Value 8 0))"
      "nodes g' 11 = Some (dequantize_of (Value 8 0))"
      "reads g' 6 0 (Value 10 0)"
    by (cases "ReplicateDeQuant chained_graph") auto
  have "\<not> fanned_out chained_graph 3 (Value 2 0) g'"
  proof
    assume "fanned_out chained_graph 3 (Value 2 0) g'"
    then obtain ds where "list_all2 (\<lambda>d use. nodes chained_graph d = None \<and>
                      nodes g' d = Some (dequantize_of (Value 2 0)) \<and>
                      uses g' (Value d 0) = [use] \<and>
                      before_in_block d (fst use) (top_block g'))
           ds [(4, 0), (5, 0)]"
      unfolding fanned_out_def u3 by blast
    then obtain d where "uses g' (Value d 0) = [(4, 0)]"
      by (auto simp: list_all2_Cons2)
    then have "(4, 0) \<in> set (uses g' (Value d 0))" by simp
    then have "reads g' 4 0 (Value d 0)" unfolding uses_iff by simp
    with g'(1) show False by (simp add: reads_def)
  qed
  moreover have "\<not> fanned_out chained_graph 4 (Value 3 0) g'"
  proof
    assume "fanned_out chained_graph 4 (Value 3 0) g'"
    then obtain ds where "list_all2 (\<lambda>d use. nodes chained_graph d = None \<and>
                      nodes g' d = Some (dequantize_of (Value 3 0)) \<and>
                      uses g' (Value d 0) = [use] \<and>
                      before_in_block d (fst use) (top_block g'))
           ds [(6, 0), (7, 0)]"
      unfolding fanned_out_def u4 by blast
    then obtain d where d: "nodes g' d = Some (dequantize_of (Value 3 0))"
      "uses g' (Value d 0) = [(6, 0)]"
      by (auto simp: list_all2_Cons2)
    from d(2) have "(6, 0) \<in> set (uses g' (Value d 0))" by simp
    then have "reads g' 6 0 (Value d 0)" unfolding uses_iff by simp
    from reads_fun [OF this g'(6)] have "d = 10" by simp
    with d(1) g'(4) show False by (simp add: dequantize_of_def)
  qed
  ultimately show ?thesis
    using chained_wellformed n3 v u3 n4 u4 run g'(2-5) by blast
qed

section \<open>Insertion of quantize and dequantize Nodes\<close>

lemma bounded_allocated: "bounded g \<Longrightarrow> allocated g"
  unfolding bounded_def allocated_def by blast

lemma dynamic_phase:
  assumes "insertGetAttr g self nm = (dtype, g1)"
    and "insertChooseQParamQuantDequant g1 oo dtype k = ((cq, quant, dequant), g2)"
  shows "next_node g2 = next_node g + 5 \<and> cq = next_node g + 2 \<and> quant = next_node g + 3 \<and>
     dequant = next_node g + 4 \<and>
     nodes g2 = (nodes g)(
       next_node g \<mapsto> \<lparr> kind = ''prim::GetAttr'', inputs = [self], num_outputs = 1,
                        attr_name = Some nm \<rparr>,
       next_node g + 1 \<mapsto> \<lparr> kind = ''prim::Constant'', inputs = [], num_outputs = 1,
                        attr_name = None \<rparr>,
       next_node g + 2 \<mapsto> \<lparr> kind = ''aten::_choose_qparams_per_tensor'',
                        inputs = [oo, Value (next_node g + 1) 0], num_outputs = 2,
                        attr_name = None \<rparr>,
       next_node g + 3 \<mapsto> \<lparr> kind = k,
                        inputs = [oo, Value (next_node g + 2) 0, Value (next_node g + 2) 1,
                                  Value (next_node g) 0],
                        num_outputs = 1, attr_name = None \<rparr>,
       next_node g + 4 \<mapsto> dequantize_of (Value (next_node g + 3) 0))"
  using assms
  unfolding insertGetAttr_def insertChooseQParamQuantDequant_def insertChooseQParams_def
    insertConstant_def insertQuant_def insertDeQuant_def create_def insertNode_def
    dequantize_of_def Let_def
  by (auto simp: fun_upd_twist)

lemma insertGetAttrs_effect:
  "insertGetAttrs g self names = (vs, g1) \<Longrightarrow>
     next_node g1 = next_node g + length names \<and>
     vs = map (\<lambda>i. Value (next_node g + i) 0) [0..<length names] \<and>
     (\<forall>m < next_node g. nodes g1 m = nodes g m) \<and>
     (\<forall>m \<ge> next_node g + length names. nodes g1 m = nodes g m) \<and>
     (\<forall>i < length names. nodes g1 (next_node g + i) =
        Some \<lparr> kind = ''prim::GetAttr'', inputs = [self], num_outputs = 1,
               attr_name = Some (names ! i) \<rparr>)"
proof (induction names arbitrary: g vs g1)
  case Nil
  then show ?case by simp
next
  case (Cons nm names)
  obtain v ga where a: "insertGetAttr g self nm = (v, ga)" by (cases "insertGetAttr g self nm")
  obtain ws gb where b: "insertGetAttrs ga self names = (ws, gb)"
    by (cases "insertGetAttrs ga self names")
  from Cons.prems a b have r: "vs = v # ws" "g1 = gb" by simp_all
  from a have ga: "v = Value (next_node g) 0" "next_node ga = Suc (next_node g)"
    "nodes ga = (nodes g)(next_node g \<mapsto>
       \<lparr> kind = ''prim::GetAttr'', inputs = [self], num_outputs = 1, attr_name = Some nm \<rparr>)"
    unfolding insertGetAttr_def create_def insertNode_def Let_def by auto
  note ih = Cons.IH [OF b]
  have 1: "next_node g1 = next_node g + length (nm # names)" using ih ga r by simp
  have 2: "vs = map (\<lambda>i. Value (next_node g + i) 0) [0..<length (nm # names)]"
  proof -
    have "[0..<length (nm # names)] = 0 # map Suc [0..<length names]"
      by (simp add: upt_conv_Cons map_Suc_upt del: upt_Suc)
    then show ?thesis using ih ga r by (simp add: comp_def del: upt_Suc)
  qed
  have 3: "\<forall>m < next_node g. nodes g1 m = nodes g m" using ih ga r by simp
  have 4: "\<forall>m \<ge> next_node g + length (nm # names). nodes g1 m = nodes g m"
    using ih ga r by simp
  have 5: "\<forall>i < length (nm # names). nodes g1 (next_node g + i) =
        Some \<lparr> kind = ''prim::GetAttr'', inputs = [self], num_outputs = 1,
               attr_name = Some ((nm # names) ! i) \<rparr>"
  proof (intro allI impI)
    fix i assume i: "i < length (nm # names)"
    show "nodes g1 (next_node g + i) =
        Some \<lparr> kind = ''prim::GetAttr'', inputs = [self], num_outputs = 1,
               attr_name = Some ((nm # names) ! i) \<rparr>"
    proof (cases i)
      case 0
      with ih ga r show ?thesis by simp
    next
      case (Suc j)
      with i ih ga r show ?thesis by simp
    qed
  qed
  from 1 2 3 4 5 show ?case by blast
qed

lemma static_phase:
  assumes "insertGetAttrs g self names = (attrs, g1)"
    and "insertQuant g1 (oo # attrs) k = (quant, g2)"
    and "insertDeQuant g2 (Value quant 0) = (dequant, g3)"
  shows "next_node g3 = next_node g + length names + 2"
    and "quant = next_node g + length names"
    and "dequant = next_node g + length names + 1"
    and "\<forall>m < next_node g. nodes g3 m = nodes g m"
    and "\<forall>m \<ge> next_node g + length names + 2. nodes g3 m = nodes g m"
    and "nodes g3 quant =
       Some \<lparr> kind = k, inputs = oo # attrs, num_outputs = 1, attr_name = None \<rparr>"
    and "nodes g3 dequant = Some (dequantize_of (Value quant 0))"
proof -
  note a = insertGetAttrs_effect [OF assms(1)]
  from assms(2) have b: "quant = next_node g1" "next_node g2 = Suc (next_node g1)"
    "nodes g2 = (nodes g1)(next_node g1 \<mapsto>
       \<lparr> kind = k, inputs = oo # attrs, num_outputs = 1, attr_name = None \<rparr>)"
    unfolding insertQuant_def create_def insertNode_def Let_def by auto
  from assms(3) have c: "dequant = next_node g2" "next_node g3 = Suc (next_node g2)"
    "nodes g3 = (nodes g2)(next_node g2 \<mapsto> dequantize_of (Value quant 0))"
    unfolding insertDeQuant_def create_def insertNode_def Let_def dequantize_of_def by auto
  from a b c show "next_node g3 = next_node g + length names + 2"
    and "quant = next_node g + length names"
    and "dequant = next_node g + length names + 1"
    and "\<forall>m < next_node g. nodes g3 m = nodes g m"
    and "\<forall>m \<ge> next_node g + length names + 2. nodes g3 m = nodes g m"
    and "nodes g3 quant =
       Some \<lparr> kind = k, inputs = oo # attrs, num_outputs = 1, attr_name = None \<rparr>"
    and "nodes g3 dequant = Some (dequantize_of (Value quant 0))"
    by simp_all
qed

lemma reads_replaceAllUsesWith:
  "reads (replaceAllUsesWith g v to) m slot x \<longleftrightarrow>
     (\<exists>y. reads g m slot y \<and> x = (if y = v then to else y))"
  unfolding replaceAllUsesWith_def reads_def replace_value_def
  by (cases "nodes g m") auto

lemma replace_value_idem:
  "replace_value ov dq (replace_value ov dq nd) = replace_value ov dq nd"
  unfolding replace_value_def by (cases "dq = ov") auto

lemma rewire_fold:
  "\<forall>u \<in> fst ` set us. nodes g u \<noteq> None \<Longrightarrow>
   \<exists>g6. foldE (rewire_use quant obs cq ov dq) g us = Inr g6 \<and>
     next_node g6 = next_node g \<and> top_block g6 = top_block g \<and>
     insert_point g6 = insert_point g \<and>
     (\<forall>m. nodes g6 m =
        (if m \<in> fst ` set us \<and> m \<noteq> quant \<and> m \<noteq> obs \<and> Some m \<noteq> cq
         then map_option (replace_value ov dq) (nodes g m) else nodes g m))"
proof (induction us arbitrary: g)
  case Nil
  then show ?case by simp
next
  case (Cons use us)
  obtain u s where use: "use = (u, s)" by (cases use)
  from Cons.prems use obtain nd where nd: "nodes g u = Some nd" by auto
  show ?case
  proof (cases "u \<noteq> quant \<and> u \<noteq> obs \<and> Some u \<noteq> cq")
    case False
    then have step: "rewire_use quant obs cq ov dq g use = Inr g"
      unfolding rewire_use_def use by auto
    from Cons.prems have "\<forall>u \<in> fst ` set us. nodes g u \<noteq> None" by simp
    from Cons.IH [OF this] obtain g6 where g6:
      "foldE (rewire_use quant obs cq ov dq) g us = Inr g6"
      "next_node g6 = next_node g" "top_block g6 = top_block g"
      "insert_point g6 = insert_point g"
      "\<forall>m. nodes g6 m =
        (if m \<in> fst ` set us \<and> m \<noteq> quant \<and> m \<noteq> obs \<and> Some m \<noteq> cq
         then map_option (replace_value ov dq) (nodes g m) else nodes g m)" by blast
    have "\<forall>m. nodes g6 m =
        (if m \<in> fst ` set (use # us) \<and> m \<noteq> quant \<and> m \<noteq> obs \<and> Some m \<noteq> cq
         then map_option (replace_value ov dq) (nodes g m) else nodes g m)"
      using g6(5) False use by auto
    with step g6(1-4) show ?thesis by (simp add: ebind_def)
  next
    case True
    let ?g = "g \<lparr> nodes := (nodes g)(u \<mapsto> replace_value ov dq nd) \<rparr>"
    have step: "rewire_use quant obs cq ov dq g use = Inr ?g"
      unfolding rewire_use_def use replaceInputWith_def get_node_def ebind_def
      using True nd by simp
    from Cons.prems have "\<forall>u' \<in> fst ` set us. nodes ?g u' \<noteq> None" by simp
    from Cons.IH [OF this] obtain g6 where g6:
      "foldE (rewire_use quant obs cq ov dq) ?g us = Inr g6"
      "next_node g6 = next_node ?g" "top_block g6 = top_block ?g"
      "insert_point g6 = insert_point ?g"
      "\<forall>m. nodes g6 m =
        (if m \<in> fst ` set us \<and> m \<noteq> quant \<and> m \<noteq> obs \<and> Some m \<noteq> cq
         then map_option (replace_value ov dq) (nodes ?g m) else nodes ?g m)" by blast
    have "\<forall>m. nodes g6 m =
        (if m \<in> fst ` set (use # us) \<and> m \<noteq> quant \<and> m \<noteq> obs \<and> Some m \<noteq> cq
         then map_option (replace_value ov dq) (nodes g m) else nodes g m)"
    proof
      fix m
      show "nodes g6 m =
        (if m \<in> fst ` set (use # us) \<and> m \<noteq> quant \<and> m \<noteq> obs \<and> Some m \<noteq> cq
         then map_option (replace_value ov dq) (nodes g m) else nodes g m)"
      proof (cases "m = u")
        case True
        with g6(5) nd \<open>u \<noteq> quant \<and> u \<noteq> obs \<and> Some u \<noteq> cq\<close> use show ?thesis
          by (simp add: replace_value_idem)
      next
        case False
        with g6(5) use show ?thesis by simp
      qed
    qed
    with step g6(1-4) show ?thesis by (simp add: ebind_def)
  qed
qed

lemma reads_replace_value:
  "nodes g' m = map_option (replace_value ov dq) (nodes g m) \<Longrightarrow>
   reads g' m slot x \<longleftrightarrow> (\<exists>y. reads g m slot y \<and> x = (if y = ov then dq else y))"
  unfolding reads_def replace_value_def by (cases "nodes g m") auto

lemma reads_same: "nodes g' m = nodes g m \<Longrightarrow> reads g' m slot x \<longleftrightarrow> reads g m slot x"
  unfolding reads_def by simp

lemma shape_replace_value:
  "nodes g' m = map_option (replace_value ov dq) (nodes g m) \<Longrightarrow> shape g' m = shape g m"
  unfolding shape_def replace_value_def by (cases "nodes g m") auto

lemma finish_effect:
  assumes al: "allocated g4" and dq: "dq \<noteq> ov"
  shows "\<exists>g6. foldE (rewire_use quant obs cq ov dq) (replaceAllUsesWith g4 oo ov)
             (uses (replaceAllUsesWith g4 oo ov) ov) = Inr g6 \<and>
     next_node g6 = next_node g4 \<and> insert_point g6 = insert_point g4 \<and>
     (\<forall>m. shape g6 m = shape g4 m) \<and>
     (\<forall>m slot x. reads g6 m slot x \<longleftrightarrow>
        (\<exists>y. reads g4 m slot y \<and>
           x = (if y = oo \<or> y = ov
                then (if m = quant \<or> m = obs \<or> Some m = cq then ov else dq)
                else y)))"
proof -
  let ?g5 = "replaceAllUsesWith g4 oo ov"
  let ?us = "uses ?g5 ov"
  have n5: "next_node ?g5 = next_node g4" by (simp add: replaceAllUsesWith_def)
  have s5: "nodes ?g5 m = map_option (replace_value oo ov) (nodes g4 m)" for m
    by (simp add: replaceAllUsesWith_def)
  have users: "m \<in> fst ` set ?us \<longleftrightarrow> (\<exists>slot. reads ?g5 m slot ov)" for m
  proof
    assume "m \<in> fst ` set ?us"
    then obtain slot where "(m, slot) \<in> set ?us" by force
    then show "\<exists>slot. reads ?g5 m slot ov" unfolding uses_iff by blast
  next
    assume "\<exists>slot. reads ?g5 m slot ov"
    then obtain slot where r: "reads ?g5 m slot ov" by blast
    then have "nodes ?g5 m \<noteq> None" by (rule reads_live)
    then have "nodes g4 m \<noteq> None" using s5 [of m] by (cases "nodes g4 m") simp_all
    with al have "m < next_node ?g5" unfolding allocated_def n5 by blast
    with r have "(m, slot) \<in> set ?us" unfolding uses_iff by simp
    then show "m \<in> fst ` set ?us" by force
  qed
  have "\<forall>u \<in> fst ` set ?us. nodes ?g5 u \<noteq> None"
    using users reads_live by blast
  from rewire_fold [OF this, of quant obs cq ov dq] obtain g6 where
    run: "foldE (rewire_use quant obs cq ov dq) ?g5 ?us = Inr g6" and
    n6: "next_node g6 = next_node ?g5" and ip6: "insert_point g6 = insert_point ?g5" and
    s6: "\<forall>m. nodes g6 m =
        (if m \<in> fst ` set ?us \<and> m \<noteq> quant \<and> m \<noteq> obs \<and> Some m \<noteq> cq
         then map_option (replace_value ov dq) (nodes ?g5 m) else nodes ?g5 m)"
    by blast
  have sh: "shape g6 m = shape g4 m" for m
  proof -
    have "shape ?g5 m = shape g4 m" using s5 by (rule shape_replace_value)
    moreover have "shape g6 m = shape ?g5 m"
    proof (cases "m \<in> fst ` set ?us \<and> m \<noteq> quant \<and> m \<noteq> obs \<and> Some m \<noteq> cq")
      case True
      with s6 have "nodes g6 m = map_option (replace_value ov dq) (nodes ?g5 m)" by simp
      then show ?thesis by (rule shape_replace_value)
    next
      case False
      with s6 have "nodes g6 m = nodes ?g5 m" by auto
      then show ?thesis by (simp add: shape_def)
    qed
    ultimately show ?thesis by simp
  qed
  have r5: "reads ?g5 m slot x \<longleftrightarrow> (\<exists>y. reads g4 m slot y \<and> x = (if y = oo then ov else y))"
    for m slot x by (rule reads_replaceAllUsesWith)
  have rd: "reads g6 m slot x \<longleftrightarrow>
        (\<exists>y. reads g4 m slot y \<and>
           x = (if y = oo \<or> y = ov
                then (if m = quant \<or> m = obs \<or> Some m = cq then ov else dq)
                else y))" for m slot x
  proof (cases "m = quant \<or> m = obs \<or> Some m = cq")
    case True
    with s6 have "nodes g6 m = nodes ?g5 m" by auto
    then have "reads g6 m slot x \<longleftrightarrow> reads ?g5 m slot x" by (rule reads_same)
    with True show ?thesis unfolding r5 by auto
  next
    case skip: False
    show ?thesis
    proof (cases "m \<in> fst ` set ?us")
      case True
      with skip s6 have "nodes g6 m = map_option (replace_value ov dq) (nodes ?g5 m)" by auto
      from reads_replace_value [OF this]
      have "reads g6 m slot x \<longleftrightarrow> (\<exists>y. reads ?g5 m slot y \<and> x = (if y = ov then dq else y))" .
      with skip show ?thesis unfolding r5 by auto
    next
      case False
      with s6 have "nodes g6 m = nodes ?g5 m" by auto
      then have e: "reads g6 m slot x \<longleftrightarrow> reads ?g5 m slot x" by (rule reads_same)
      from False users have no: "\<not> reads ?g5 m slot ov" for slot by blast
      show ?thesis
      proof
        assume "reads g6 m slot x"
        with e have a: "reads ?g5 m slot x" by simp
        with no have "x \<noteq> ov" by blast
        with a show "\<exists>y. reads g4 m slot y \<and>
           x = (if y = oo \<or> y = ov
                then (if m = quant \<or> m = obs \<or> Some m = cq then ov else dq)
                else y)" unfolding r5 by (auto split: if_splits)
      next
        assume "\<exists>y. reads g4 m slot y \<and>
           x = (if y = oo \<or> y = ov
                then (if m = quant \<or> m = obs \<or> Some m = cq then ov else dq)
                else y)"
        then obtain y where y: "reads g4 m slot y"
          "x = (if y = oo \<or> y = ov
                then (if m = quant \<or> m = obs \<or> Some m = cq then ov else dq)
                else y)" by blast
        have "reads ?g5 m slot (if y = oo then ov else y)" unfolding r5 using y(1) by blast
        with no [of slot] have "y \<noteq> oo \<and> y \<noteq> ov" by (auto split: if_splits)
        with y e show "reads g6 m slot x" unfolding r5 by auto
      qed
    qed
  qed
  from run n6 n5 ip6 sh rd show ?thesis by (auto simp: replaceAllUsesWith_def)
qed

lemma reads_nodes_cong: "nodes g' = nodes g \<Longrightarrow> reads g' = reads g"
  by (auto simp: reads_def fun_eq_iff)

lemma redirected_after_phase:
  assumes al4: "allocated g4"
    and fr: "\<forall>m < next_node g. nodes g4 m = nodes g m"
    and b: "bounded g"
    and oo: "oo = Value obs 0"
    and ov: "reads g obs 1 ov" and ne: "ov \<noteq> oo"
    and fresh: "next_node g \<le> quant" "next_node g \<le> dequant"
      "\<forall>c. cq = Some c \<longrightarrow> next_node g \<le> c"
    and qn: "map_option kind (nodes g4 quant) = Some k" "reads g4 quant 0 oo"
    and dn: "nodes g4 dequant = Some (dequantize_of (Value quant 0))"
    and cn: "\<forall>c. cq = Some c \<longrightarrow>
        map_option kind (nodes g4 c) = Some ''aten::_choose_qparams_per_tensor'' \<and>
        reads g4 c 0 oo"
  shows "\<exists>g6. foldE (rewire_use quant obs cq ov (Value dequant 0)) (replaceAllUsesWith g4 oo ov)
             (uses (replaceAllUsesWith g4 oo ov) ov) = Inr g6 \<and>
     insert_point g6 = insert_point g4 \<and>
     redirected g g6 k obs oo ov quant dequant cq"
proof -
  let ?dq = "Value dequant 0"
  have pov: "producer ov < next_node g" using bounded_reads [OF b ov] .
  have obs: "obs < next_node g" using reads_bounded [OF b ov] .
  have dqov: "?dq \<noteq> ov" using pov fresh(2) by auto
  have dqoo: "?dq \<noteq> oo" using obs fresh(2) oo by auto
  from finish_effect [OF al4 dqov, of quant obs cq oo] obtain g6 where
    run: "foldE (rewire_use quant obs cq ov ?dq) (replaceAllUsesWith g4 oo ov)
             (uses (replaceAllUsesWith g4 oo ov) ov) = Inr g6" and
    ip: "insert_point g6 = insert_point g4" and
    sh: "\<forall>m. shape g6 m = shape g4 m" and
    rd: "\<forall>m slot x. reads g6 m slot x \<longleftrightarrow>
        (\<exists>y. reads g4 m slot y \<and>
           x = (if y = oo \<or> y = ov
                then (if m = quant \<or> m = obs \<or> Some m = cq then ov else ?dq)
                else y))"
    by blast
  have rdI: "reads g6 m slot (if y = oo \<or> y = ov
                then (if m = quant \<or> m = obs \<or> Some m = cq then ov else ?dq)
                else y)" if "reads g4 m slot y" for m slot y
    using rd that by blast
  have kind6: "map_option kind (nodes g6 m) = map_option kind (nodes g4 m)" for m
    using sh [rule_format, of m] unfolding shape_def
    by (cases "nodes g6 m"; cases "nodes g4 m") auto
  have old: "reads g4 m slot y \<longleftrightarrow> reads g m slot y" if "m < next_node g" for m slot y
    using fr that by (simp add: reads_def)
  have 1: "nodes g quant = None" "nodes g dequant = None"
    using bounded_None [OF b] fresh by simp_all
  have 2: "map_option kind (nodes g6 quant) = Some k" using kind6 qn(1) by simp
  have 3: "reads g6 quant 0 ov" using rdI [OF qn(2)] by simp
  have 4: "nodes g6 dequant = Some (dequantize_of (Value quant 0))"
  proof -
    have "Value quant 0 \<noteq> oo" "Value quant 0 \<noteq> ov" using obs pov fresh(1) oo by auto
    moreover have "reads g4 dequant 0 (Value quant 0)" using dn by (simp add: dequantize_of_iff)
    ultimately have "reads g6 dequant 0 (Value quant 0)"
      using rdI [of dequant 0 "Value quant 0"] by simp
    moreover have "shape g6 dequant = Some (''aten::dequantize'', 1, None, 1)"
      using sh dn by (simp add: dequantize_of_iff)
    ultimately show ?thesis by (simp add: dequantize_of_iff)
  qed
  have 5: "\<forall>c. cq = Some c \<longrightarrow>
         nodes g c = None \<and>
         map_option kind (nodes g6 c) = Some ''aten::_choose_qparams_per_tensor'' \<and>
         reads g6 c 0 ov"
  proof (intro allI impI)
    fix c assume c: "cq = Some c"
    with cn have k: "map_option kind (nodes g4 c) = Some ''aten::_choose_qparams_per_tensor''"
      and r: "reads g4 c 0 oo" by simp_all
    have "reads g6 c 0 ov" using rdI [OF r] c by simp
    moreover have "nodes g c = None" using bounded_None [OF b] fresh(3) c by simp
    ultimately show "nodes g c = None \<and>
         map_option kind (nodes g6 c) = Some ''aten::_choose_qparams_per_tensor'' \<and>
         reads g6 c 0 ov" using k kind6 by simp
  qed
  have 6: "reads g6 obs 1 ov"
    using rdI [of obs 1 ov] old [OF obs, of 1 ov] ov by simp
  have 7: "\<forall>m slot. \<not> reads g6 m slot oo"
    unfolding rd [rule_format] using ne dqoo by auto
  have 8: "\<forall>m slot. m \<noteq> obs \<longrightarrow> reads g m slot ov \<or> reads g m slot oo \<longrightarrow>
         reads g6 m slot ?dq"
  proof (intro allI impI)
    fix m slot assume m: "m \<noteq> obs" and r: "reads g m slot ov \<or> reads g m slot oo"
    then have ml: "m < next_node g" using reads_bounded [OF b] by blast
    with fresh have "m \<noteq> quant" "Some m \<noteq> cq" by auto
    from r show "reads g6 m slot ?dq"
    proof
      assume "reads g m slot ov"
      then have "reads g4 m slot ov" using old [OF ml] by simp
      from rdI [OF this] m \<open>m \<noteq> quant\<close> \<open>Some m \<noteq> cq\<close> show ?thesis by simp
    next
      assume "reads g m slot oo"
      then have "reads g4 m slot oo" using old [OF ml] by simp
      from rdI [OF this] m \<open>m \<noteq> quant\<close> \<open>Some m \<noteq> cq\<close> show ?thesis by simp
    qed
  qed
  have 9: "\<forall>m slot. reads g6 m slot ov \<longrightarrow> m = obs \<or> m = quant \<or> cq = Some m"
    unfolding rd [rule_format] using dqov by (auto split: if_splits)
  from 1 2 3 4 5 6 7 8 9 have "redirected g g6 k obs oo ov quant dequant cq"
    unfolding redirected_def by blast
  with run ip show ?thesis by blast
qed

lemma redirected_nodes_cong:
  "nodes g'' = nodes g' \<Longrightarrow> redirected g g' k obs oo ov quant dequant cq \<Longrightarrow>
   redirected g g'' k obs oo ov quant dequant cq"
  unfolding redirected_def using reads_nodes_cong [of g'' g'] by simp

lemma insertQuantizationOps_effect:
  assumes b: "bounded g"
    and out: "output g observer = Inr observer_out"
    and inp: "input g observer 1 = Inr original_val"
    and ne: "original_val \<noteq> observer_out"
    and nx: "next g observer = Inr ip"
    and w: "quant_type = DYNAMIC \<longrightarrow> is_weight = Inr w \<and> (\<not> w \<longrightarrow> qparam_names \<noteq> [])"
  shows "\<exists>g' quant dequant choose_qparams.
     insertQuantizationOps g is_weight self observer is_per_channel qparam_names quant_type
       = Inr g' \<and>
     (choose_qparams \<noteq> None \<longleftrightarrow> quant_type = DYNAMIC \<and> \<not> w) \<and>
     redirected g g' (quantize_kind is_per_channel) observer observer_out original_val
       quant dequant choose_qparams"
proof -
  let ?ga = "g \<lparr> insert_point := ip \<rparr>"
  let ?k = "quantize_kind is_per_channel"
  have k: "''aten::'' @ (if is_per_channel then ''quantize_per_channel'' else ''quantize_per_tensor'') = ?k"
    by (simp add: quantize_kind_def)
  from out have oo: "observer_out = Value observer 0" by (simp add: output_iff)
  from inp have ov: "reads g observer 1 original_val" by (simp add: input_reads)
  have inpa: "input ?ga observer 1 = Inr original_val"
    using inp by (simp add: input_def get_node_def)
  have al: "allocated g" using b by (rule bounded_allocated)
  have obs: "observer < next_node g" using reads_bounded [OF b ov] .
  show ?thesis
  proof (cases "quant_type = DYNAMIC \<and> \<not> w")
    case True
    with w have iw: "is_weight = Inr False" and names: "qparam_names \<noteq> []" by auto
    obtain dtype g1 where a1: "insertGetAttr ?ga self (last qparam_names) = (dtype, g1)"
      by (cases "insertGetAttr ?ga self (last qparam_names)")
    obtain cq quant dequant g2 where
      a2: "insertChooseQParamQuantDequant g1 observer_out dtype ?k = ((cq, quant, dequant), g2)"
      by (cases "insertChooseQParamQuantDequant g1 observer_out dtype ?k") auto
    from dynamic_phase [OF a1 a2] have
      n2: "next_node g2 = next_node g + 5" and cq: "cq = next_node g + 2" and
      qu: "quant = next_node g + 3" and de: "dequant = next_node g + 4" and
      s2: "nodes g2 = (nodes g)(
       next_node g \<mapsto> \<lparr> kind = ''prim::GetAttr'', inputs = [self], num_outputs = 1,
                        attr_name = Some (last qparam_names) \<rparr>,
       next_node g + 1 \<mapsto> \<lparr> kind = ''prim::Constant'', inputs = [], num_outputs = 1,
                        attr_name = None \<rparr>,
       next_node g + 2 \<mapsto> \<lparr> kind = ''aten::_choose_qparams_per_tensor'',
                        inputs = [observer_out, Value (next_node g + 1) 0], num_outputs = 2,
                        attr_name = None \<rparr>,
       next_node g + 3 \<mapsto> \<lparr> kind = ?k,
                        inputs = [observer_out, Value (next_node g + 2) 0,
                                  Value (next_node g + 2) 1, Value (next_node g) 0],
                        num_outputs = 1, attr_name = None \<rparr>,
       next_node g + 4 \<mapsto> dequantize_of (Value (next_node g + 3) 0))"
      by simp_all
    have al2: "allocated g2"
      using al unfolding allocated_def n2 s2 by (auto split: if_splits)
    have fr: "\<forall>m < next_node g. nodes g2 m = nodes g m" unfolding s2 by simp
    have f1: "next_node g \<le> quant" "next_node g \<le> dequant"
      "\<forall>c. Some cq = Some c \<longrightarrow> next_node g \<le> c" using cq qu de by simp_all
    have q1: "map_option kind (nodes g2 quant) = Some ?k" unfolding s2 qu by simp
    have q2: "reads g2 quant 0 observer_out" unfolding s2 qu reads_def by simp
    have d1: "nodes g2 dequant = Some (dequantize_of (Value quant 0))" unfolding s2 qu de by simp
    have c1: "\<forall>c. Some cq = Some c \<longrightarrow>
        map_option kind (nodes g2 c) = Some ''aten::_choose_qparams_per_tensor'' \<and>
        reads g2 c 0 observer_out" unfolding s2 cq reads_def by simp
    from redirected_after_phase [OF al2 fr b oo ov ne f1 q1 q2 d1 c1]
    obtain g6 where
      run: "foldE (rewire_use quant observer (Some cq) original_val (Value dequant 0))
             (replaceAllUsesWith g2 observer_out original_val)
             (uses (replaceAllUsesWith g2 observer_out original_val) original_val) = Inr g6" and
      red: "redirected g g6 ?k observer observer_out original_val quant dequant (Some cq)"
      by blast
    let ?g' = "g6 \<lparr> insert_point := insert_point g \<rparr>"
    have res: "insertQuantizationOps g is_weight self observer is_per_channel qparam_names
        quant_type = Inr ?g'"
      unfolding insertQuantizationOps_def
      using out nx inpa True iw names a1 a2 run
      by (cases is_per_channel) (simp_all add: with_insert_point_def ebind_def quantize_kind_def)
    have "redirected g ?g' ?k observer observer_out original_val quant dequant (Some cq)"
      using red by (rule redirected_nodes_cong [rotated]) simp
    with res True show ?thesis by blast
  next
    case False
    then have dyn: "(if quant_type = DYNAMIC then ebind is_weight (\<lambda>w. Inr (\<not> w)) else Inr False)
        = Inr False"
      using w by (auto simp: ebind_def)
    obtain attrs g1 where a1: "insertGetAttrs ?ga self qparam_names = (attrs, g1)"
      by (cases "insertGetAttrs ?ga self qparam_names")
    obtain quant g2 where a2: "insertQuant g1 (observer_out # attrs) ?k = (quant, g2)"
      by (cases "insertQuant g1 (observer_out # attrs) ?k")
    obtain dequant g3 where a3: "insertDeQuant g2 (Value quant 0) = (dequant, g3)"
      by (cases "insertDeQuant g2 (Value quant 0)")
    note sp = static_phase [OF a1 a2 a3]
    have n3: "next_node g3 = next_node g + length qparam_names + 2" using sp(1) by simp
    have qu: "quant = next_node g + length qparam_names" using sp(2) by simp
    have de: "dequant = next_node g + length qparam_names + 1" using sp(3) by simp
    have fr: "\<forall>m < next_node g. nodes g3 m = nodes g m" using sp(4) by simp
    have hi: "\<forall>m \<ge> next_node g + length qparam_names + 2. nodes g3 m = nodes g m"
      using sp(5) by simp
    have qn: "nodes g3 quant = Some \<lparr> kind = ?k, inputs = observer_out # attrs,
             num_outputs = 1, attr_name = None \<rparr>" using sp(6) by simp
    have dn: "nodes g3 dequant = Some (dequantize_of (Value quant 0))" using sp(7) by simp
    have al3: "allocated g3"
      unfolding allocated_def
    proof (intro allI impI)
      fix m assume m: "nodes g3 m \<noteq> None"
      show "m < next_node g3"
      proof (rule ccontr)
        assume "\<not> m < next_node g3"
        then have ge: "m \<ge> next_node g + length qparam_names + 2" using n3 by simp
        with hi m have "nodes g m \<noteq> None" by simp
        with al have "m < next_node g" unfolding allocated_def by blast
        with ge show False by simp
      qed
    qed
    have f1: "next_node g \<le> quant" "next_node g \<le> dequant"
      "\<forall>c. None = Some c \<longrightarrow> next_node g \<le> c" using qu de by simp_all
    have q1: "map_option kind (nodes g3 quant) = Some ?k" using qn by simp
    have q2: "reads g3 quant 0 observer_out" using qn by (simp add: reads_def)
    have c1: "\<forall>c. None = Some c \<longrightarrow>
        map_option kind (nodes g3 c) = Some ''aten::_choose_qparams_per_tensor'' \<and>
        reads g3 c 0 observer_out" by simp
    from redirected_after_phase [OF al3 fr b oo ov ne f1 q1 q2 dn c1]
    obtain g6 where
      run: "foldE (rewire_use quant observer None original_val (Value dequant 0))
             (replaceAllUsesWith g3 observer_out original_val)
             (uses (replaceAllUsesWith g3 observer_out original_val) original_val) = Inr g6" and
      red: "redirected g g6 ?k observer observer_out original_val quant dequant None"
      by blast
    let ?g' = "g6 \<lparr> insert_point := insert_point g \<rparr>"
    have res: "insertQuantizationOps g is_weight self observer is_per_channel qparam_names
        quant_type = Inr ?g'"
      unfolding insertQuantizationOps_def dyn
      using out nx inpa a1 a2 a3 run
      by (cases is_per_channel) (simp_all add: with_insert_point_def ebind_def quantize_kind_def)
    have "redirected g ?g' ?k observer observer_out original_val quant dequant None"
      using red by (rule redirected_nodes_cong [rotated]) simp
    with res False show ?thesis by blast
  qed
qed


text \<open>
  C2 (as amended). For an observer call with one output that observes
  \<open>original_val\<close>, insertion succeeds and creates a quantize Node and a dequantize
  Node, and for dynamic quantization of a Value that is no weight also a
  parameter-selection Node. Afterwards the output of the observer call has no use left,
  every slot of another Node that read the raw Value or the observer's output reads the
  dequantize output, and the raw Value is read only by the observer, the quantize Node
  and, where there is one, the parameter-selection Node.
\<close>

theorem insertQuantizationOps_redirects:
  assumes "bounded g"
    and "output g observer = Inr observer_out"
    and "input g observer 1 = Inr original_val"
    and "original_val \<noteq> observer_out"
    and "next g observer = Inr ip"
    and "quant_type = DYNAMIC \<longrightarrow> is_weight = Inr w \<and> (\<not> w \<longrightarrow> qparam_names \<noteq> [])"
  shows "\<exists>g' quant dequant choose_qparams.
     insertQuantizationOps g is_weight self observer is_per_channel qparam_names quant_type
       = Inr g' \<and>
     (choose_qparams \<noteq> None \<longleftrightarrow> quant_type = DYNAMIC \<and> \<not> w) \<and>
     redirected g g' (quantize_kind is_per_channel) observer observer_out original_val
       quant dequant choose_qparams"
  using assms by (rule insertQuantizationOps_effect)

lemma observed_bounded: "bounded observed_graph"
  unfolding bounded_def observed_graph_def by (auto split: if_splits)

theorem insertQuantizationOps_redirects_witness:
  "bounded observed_graph \<and>
   output observed_graph 3 = Inr (Value 3 0) \<and>
   input observed_graph 3 1 = Inr (Value 0 1) \<and>
   Value 0 1 \<noteq> Value 3 0 \<and>
   next observed_graph 3 = Inr 4 \<and>
   (\<exists>g' quant dequant choose_qparams.
      insertQuantizationOps observed_graph (Inr False) (Value 0 0) 3 False
        [''x_scale_0'', ''x_zero_point_0'', ''x_scalar_type_0''] DYNAMIC = Inr g' \<and>
      choose_qparams \<noteq> None \<and>
      redirected observed_graph g' (quantize_kind False) 3 (Value 3 0) (Value 0 1)
        quant dequant choose_qparams)"
proof -
  have out: "output observed_graph 3 = Inr (Value 3 0)" by code_simp
  have inp: "input observed_graph 3 1 = Inr (Value 0 1)" by code_simp
  have ne: "Value 0 1 \<noteq> Value 3 0" by simp
  have nx: "next observed_graph 3 = Inr 4" by code_simp
  have w: "DYNAMIC = DYNAMIC \<longrightarrow> (Inr False :: error + bool) = Inr False \<and>
     (\<not> False \<longrightarrow> [''x_scale_0'', ''x_zero_point_0'', ''x_scalar_type_0''] \<noteq> [])"
    by simp
  from insertQuantizationOps_redirects [OF observed_bounded out inp ne nx w, of "Value 0 0" False]
    observed_bounded out inp nx
  show ?thesis by simp
qed

text \<open>
  C2 as stated fails for dynamic quantization: after insertion a Node that is neither the
  observer call (Node 3) nor a quantize Node, the parameter-selection Node, reads the raw
  Value \<open>x\<close>.
\<close>

theorem insertQuantizationOps_dynamic_counterexample:
  "\<exists>g' c. insertQuantizationOps observed_graph (Inr False) (Value 0 0) 3 False
          [''x_scale_0'', ''x_zero_point_0'', ''x_scalar_type_0''] DYNAMIC = Inr g' \<and>
      reads g' c 0 (Value 0 1) \<and> c \<noteq> 3 \<and>
      map_option kind (nodes g' c) = Some ''aten::_choose_qparams_per_tensor''"
proof -
  have out: "output observed_graph 3 = Inr (Value 3 0)" by code_simp
  have inp: "input observed_graph 3 1 = Inr (Value 0 1)" by code_simp
  have ne: "Value 0 1 \<noteq> Value 3 0" by simp
  have nx: "next observed_graph 3 = Inr 4" by code_simp
  have w: "DYNAMIC = DYNAMIC \<longrightarrow> (Inr False :: error + bool) = Inr False \<and>
     (\<not> False \<longrightarrow> [''x_scale_0'', ''x_zero_point_0'', ''x_scalar_type_0''] \<noteq> [])"
    by simp
  from insertQuantizationOps_effect [OF observed_bounded out inp ne nx w, of "Value 0 0" False]
  obtain g' quant dequant cq where
    run: "insertQuantizationOps observed_graph (Inr False) (Value 0 0) 3 False
          [''x_scale_0'', ''x_zero_point_0'', ''x_scalar_type_0''] DYNAMIC = Inr g'" and
    cq: "cq \<noteq> None" and
    red: "redirected observed_graph g' (quantize_kind False) 3 (Value 3 0) (Value 0 1)
        quant dequant cq"
    by blast
  from cq obtain c where c: "cq = Some c" by auto
  with red have "nodes observed_graph c = None"
    "map_option kind (nodes g' c) = Some ''aten::_choose_qparams_per_tensor''"
    "reads g' c 0 (Value 0 1)"
    unfolding redirected_def by simp_all
  moreover have "nodes observed_graph 3 \<noteq> None" by (simp add: observed_graph_def)
  ultimately have "reads g' c 0 (Value 0 1) \<and> c \<noteq> 3 \<and>
      map_option kind (nodes g' c) = Some ''aten::_choose_qparams_per_tensor''" by auto
  with run show ?thesis by blast
qed

section \<open>Conditional quantize replication\<close>

lemma return_nodes_find:
  "find_in_block m t = Some e \<Longrightarrow> set (return_nodes_bnode e) \<subseteq> set (return_nodes t)"
  "find_in_bnode m x = Some e \<Longrightarrow> set (return_nodes_bnode e) \<subseteq> set (return_nodes_bnode x)"
proof (induction m t and m x rule: find_in_block_find_in_bnode.induct)
  case (1 n p r ns)
  from "1.prems" obtain x where "x \<in> set ns" "find_in_bnode n x = Some e"
    by (auto dest: first_some_map)
  with "1.IH" [of x] show ?case by auto
next
  case (2 n m bs)
  show ?case
  proof (cases "m = n")
    case True
    with "2.prems" show ?thesis by simp
  next
    case False
    with "2.prems" obtain b where "b \<in> set bs" "find_in_block n b = Some e"
      by (auto dest: first_some_map)
    with "2.IH" [of b] False show ?thesis by auto
  qed
qed

lemma return_node_in: "return_node b \<in> set (return_nodes b)"
  by (cases b) simp

lemma blocks_return_nodes:
  assumes "b \<in> set (blocks g m)"
  shows "return_node b \<in> set (return_nodes (top_block g))"
proof -
  from assms obtain e where e: "find_in_block m (top_block g) = Some e" "b \<in> set (bn_blocks e)"
    unfolding blocks_def by (cases "find_in_block m (top_block g)") auto
  from e(2) have "return_node b \<in> set (return_nodes_bnode e)"
    using return_node_in [of b] by (cases e) auto
  with return_nodes_find(1) [OF e(1)] show ?thesis by blast
qed

lemma return_nodes_insert:
  "set (return_nodes (insert_before_block ip e t)) \<subseteq> set (return_nodes t) \<union> set (return_nodes_bnode e)"
  "set (return_nodes_bnode (insert_before_bnode ip e x))
     \<subseteq> set (return_nodes_bnode x) \<union> set (return_nodes_bnode e)"
proof (induction ip e t and ip e x rule: insert_before_block_insert_before_bnode.induct)
  case (1 ip e p r ns)
  then show ?case by (auto simp: insert_at_def split: if_splits)
next
  case (2 ip e m bs)
  then show ?case by auto
qed

lemma return_nodes_remove:
  "set (return_nodes (remove_block n t)) \<subseteq> set (return_nodes t)"
  "set (return_nodes_bnode (remove_bnode n x)) \<subseteq> set (return_nodes_bnode x)"
proof (induction n t and n x rule: remove_block_remove_bnode.induct)
  case (1 n p r ns)
  then show ?case by auto
next
  case (2 n m bs)
  then show ?case by auto
qed

lemma return_nodes_moveBefore:
  "set (return_nodes (top_block (moveBefore g n target))) \<subseteq> set (return_nodes (top_block g))"
proof (cases "find_in_block n (top_block g)")
  case None
  then show ?thesis by (simp add: moveBefore_def)
next
  case (Some e)
  have "set (return_nodes (insert_before_block target e (remove_block n (top_block g))))
      \<subseteq> set (return_nodes (remove_block n (top_block g))) \<union> set (return_nodes_bnode e)"
    by (rule return_nodes_insert(1))
  also have "\<dots> \<subseteq> set (return_nodes (top_block g))"
    using return_nodes_remove(1) [of n "top_block g"] return_nodes_find(1) [OF Some] by blast
  finally show ?thesis using Some by (simp add: moveBefore_def)
qed

lemma moveBefore_store:
  "nodes (moveBefore g n target) = nodes g" "next_node (moveBefore g n target) = next_node g"
  by (cases "find_in_block n (top_block g)"; simp add: moveBefore_def)+

lemma fold_moveBefore:
  "nodes (fold (\<lambda>p g. moveBefore g (producer p) t) ps g) = nodes g \<and>
   next_node (fold (\<lambda>p g. moveBefore g (producer p) t) ps g) = next_node g \<and>
   set (return_nodes (top_block (fold (\<lambda>p g. moveBefore g (producer p) t) ps g)))
     \<subseteq> set (return_nodes (top_block g))"
proof (induction ps arbitrary: g)
  case Nil
  then show ?case by simp
next
  case (Cons p ps)
  from Cons.IH [of "moveBefore g (producer p) t"] return_nodes_moveBefore [of g "producer p" t]
  show ?case by (auto simp: moveBefore_store)
qed

lemma replicate_quant_block_effect:
  assumes "replicate_quant_block n g b = Inr g'" and al: "allocated g"
  shows "\<exists>ret nd. nodes g (return_node b) = Some ret \<and> nodes g n = Some nd \<and>
     next_node g' = Suc (next_node g) \<and>
     nodes g' = (nodes g)(
        next_node g \<mapsto> \<lparr> kind = kind nd, inputs = (inputs nd)[0 := inputs ret ! 0],
                         num_outputs = 1, attr_name = None \<rparr>,
        return_node b \<mapsto> ret \<lparr> inputs := (inputs ret)[0 := Value (next_node g) 0] \<rparr>) \<and>
     top_block g' = insert_before_block (return_node b) (BNode (next_node g) []) (top_block g)"
proof -
  from assms(1) obtain ret where ret: "nodes g (return_node b) = Some ret"
    unfolding replicate_quant_block_def get_node_def ebind_def
    by (cases "nodes g (return_node b)") auto
  from assms(1) ret have len: "length (inputs ret) = 1"
    unfolding replicate_quant_block_def get_node_def ebind_def torch_check_def
    by (auto split: if_splits)
  from assms(1) ret len obtain nd where nd: "nodes g n = Some nd"
    unfolding replicate_quant_block_def get_node_def ebind_def torch_check_def
    by (cases "nodes g n") auto
  from al ret have "return_node b \<noteq> next_node g" unfolding allocated_def by fastforce
  with assms(1) ret len nd have
    "g' = (g \<lparr> nodes := (nodes g)(
        next_node g \<mapsto> \<lparr> kind = kind nd, inputs = (inputs nd)[0 := inputs ret ! 0],
                         num_outputs = 1, attr_name = None \<rparr>,
        return_node b \<mapsto> ret \<lparr> inputs := (inputs ret)[0 := Value (next_node g) 0] \<rparr>),
        next_node := Suc (next_node g),
        top_block := insert_before_block (return_node b) (BNode (next_node g) []) (top_block g) \<rparr>)"
    unfolding replicate_quant_block_def get_node_def ebind_def torch_check_def
      with_insert_point_def create_def replaceInput_def insertNode_def Let_def
    by (auto split: if_splits)
  with ret nd show ?thesis by simp
qed

lemma blocked_block_step:
  assumes bl: "blocked R g n v" and r: "return_node b \<in> R"
    and run: "replicate_quant_block n' g b = Inr g'"
  shows "blocked R g' n v"
proof -
  from bl have al: "allocated g" and rd: "reads g n 0 v"
    and no: "\<exists>nd. nodes g (producer v) = Some nd \<and> num_outputs nd \<noteq> 1"
    and nR: "n \<notin> R" and sub: "set (return_nodes (top_block g)) \<subseteq> R"
    unfolding blocked_def by simp_all
  from replicate_quant_block_effect [OF run al] obtain ret nd where
    ret: "nodes g (return_node b) = Some ret" and nd: "nodes g n' = Some nd" and
    nx: "next_node g' = Suc (next_node g)" and
    st: "nodes g' = (nodes g)(
        next_node g \<mapsto> \<lparr> kind = kind nd, inputs = (inputs nd)[0 := inputs ret ! 0],
                         num_outputs = 1, attr_name = None \<rparr>,
        return_node b \<mapsto> ret \<lparr> inputs := (inputs ret)[0 := Value (next_node g) 0] \<rparr>)" and
    tb: "top_block g' = insert_before_block (return_node b) (BNode (next_node g) []) (top_block g)"
    by blast
  have al': "allocated g'"
    using al ret unfolding allocated_def nx st by (auto split: if_splits)
  from rd have nlive: "nodes g n \<noteq> None" by (rule reads_live)
  with al have n1: "n \<noteq> next_node g" unfolding allocated_def by fastforce
  from r nR have n2: "n \<noteq> return_node b" by blast
  have rd': "reads g' n 0 v" using rd n1 n2 unfolding reads_def st by simp
  from no obtain ndI where ndI: "nodes g (producer v) = Some ndI" "num_outputs ndI \<noteq> 1" by blast
  with al have i1: "producer v \<noteq> next_node g" unfolding allocated_def by fastforce
  have no': "\<exists>nd. nodes g' (producer v) = Some nd \<and> num_outputs nd \<noteq> 1"
    using ndI i1 ret unfolding st by (cases "producer v = return_node b") auto
  have sub': "set (return_nodes (top_block g')) \<subseteq> R"
    using return_nodes_insert(1) [of "return_node b" "BNode (next_node g) []" "top_block g"] sub
    unfolding tb by auto
  from al' rd' no' nR sub' show ?thesis unfolding blocked_def by simp
qed

lemma blocked_block_fold:
  "blocked R g n v \<Longrightarrow> \<forall>b \<in> set bs. return_node b \<in> R \<Longrightarrow>
   foldE (replicate_quant_block n') g bs = Inr g' \<Longrightarrow> blocked R g' n v"
proof (induction bs arbitrary: g)
  case Nil
  then show ?case by simp
next
  case (Cons b bs)
  from Cons.prems(3) obtain g1 where g1: "replicate_quant_block n' g b = Inr g1"
    "foldE (replicate_quant_block n') g1 bs = Inr g'"
    by (auto simp: ebind_def split: sum.splits)
  from blocked_block_step [OF Cons.prems(1) _ g1(1)] Cons.prems(2)
  have "blocked R g1 n v" by simp
  from Cons.IH [OF this _ g1(2)] Cons.prems(2) show ?case by simp
qed

lemma blocked_step:
  assumes bl: "blocked R g n v" and run: "replicate_quant g n' = Inr g'"
  shows "blocked R g' n v"
proof -
  from bl have al: "allocated g" and rd: "reads g n 0 v"
    and no: "\<exists>nd. nodes g (producer v) = Some nd \<and> num_outputs nd \<noteq> 1"
    and nR: "n \<notin> R" and sub: "set (return_nodes (top_block g)) \<subseteq> R"
    unfolding blocked_def by simp_all
  from run obtain v' where v': "input g n' 0 = Inr v'"
    unfolding replicate_quant_def ebind_def by (cases "input g n' 0") auto
  from run v' obtain nd' where nd': "nodes g n' = Some nd'"
    unfolding replicate_quant_def ebind_def get_node_def by (cases "nodes g n'") auto
  let ?g1 = "fold (\<lambda>p g. moveBefore g (producer p) (producer v')) (tl (inputs nd')) g"
  note f = fold_moveBefore [of "producer v'" "tl (inputs nd')" g]
  from run v' nd' obtain n_out where n_out: "output ?g1 n' = Inr n_out"
    unfolding replicate_quant_def ebind_def get_node_def Let_def
    by (cases "output ?g1 n'") auto
  from run v' nd' n_out obtain if_out where if_out: "output ?g1 (producer v') = Inr if_out"
    unfolding replicate_quant_def ebind_def get_node_def Let_def
    by (cases "output ?g1 (producer v')") auto
  let ?g2 = "replaceAllUsesWith ?g1 n_out if_out"
  from run v' nd' n_out if_out have
    loop: "foldE (replicate_quant_block n') ?g2 (blocks ?g2 (producer v')) = Inr g'"
    unfolding replicate_quant_def ebind_def get_node_def Let_def by simp
  from n_out f obtain ndo where ndo: "nodes g n' = Some ndo" "num_outputs ndo = 1"
    "n_out = Value n' 0"
    unfolding output_def get_node_def ebind_def
    by (cases "nodes g n'") (auto split: if_splits)
  from no obtain ndI where ndI: "nodes g (producer v) = Some ndI" "num_outputs ndI \<noteq> 1" by blast
  with ndo have "producer v \<noteq> n'" by auto
  then have vne: "v \<noteq> n_out" using ndo(3) by auto
  have al2: "allocated ?g2"
    using al f unfolding allocated_def replaceAllUsesWith_def by auto
  have "reads ?g1 n 0 v" using rd f by (simp add: reads_def)
  then have rd2: "reads ?g2 n 0 v"
    unfolding reads_replaceAllUsesWith using vne by auto
  have no2: "\<exists>nd. nodes ?g2 (producer v) = Some nd \<and> num_outputs nd \<noteq> 1"
    using ndI f by (simp add: replaceAllUsesWith_def replace_value_def)
  have sub2: "set (return_nodes (top_block ?g2)) \<subseteq> R"
    using f sub by (simp add: replaceAllUsesWith_def) blast
  have bl2: "blocked R ?g2 n v"
    using al2 rd2 no2 nR sub2 unfolding blocked_def by simp
  have "\<forall>b \<in> set (blocks ?g2 (producer v')). return_node b \<in> R"
    using blocks_return_nodes [of _ ?g2 "producer v'"] sub2 by blast
  from blocked_block_fold [OF bl2 this loop] show ?thesis .
qed

lemma blocked_fails:
  assumes bl: "blocked R g n v"
  shows "\<exists>e. replicate_quant g n = Inl e"
proof -
  from bl have rd: "reads g n 0 v"
    and no: "\<exists>nd. nodes g (producer v) = Some nd \<and> num_outputs nd \<noteq> 1"
    unfolding blocked_def by simp_all
  from rd have inp: "input g n 0 = Inr v" by (simp add: input_reads)
  from rd obtain nd where nd: "nodes g n = Some nd" by (auto simp: reads_def split: option.splits)
  let ?g1 = "fold (\<lambda>p g. moveBefore g (producer p) (producer v)) (tl (inputs nd)) g"
  note f = fold_moveBefore [of "producer v" "tl (inputs nd)" g]
  from no f have "\<exists>e. output ?g1 (producer v) = Inl e"
    unfolding output_def get_node_def ebind_def by auto
  then obtain e where e: "output ?g1 (producer v) = Inl e" by blast
  show ?thesis
  proof (cases "output ?g1 n")
    case (Inl e')
    with inp nd show ?thesis
      unfolding replicate_quant_def ebind_def get_node_def Let_def by simp
  next
    case (Inr n_out)
    with inp nd e show ?thesis
      unfolding replicate_quant_def ebind_def get_node_def Let_def by simp
  qed
qed

lemma blocked_fold_fails:
  "blocked R g n v \<Longrightarrow> n \<in> set ns \<Longrightarrow> \<exists>e. foldE replicate_quant g ns = Inl e"
proof (induction ns arbitrary: g)
  case Nil
  then show ?case by simp
next
  case (Cons n' ns)
  show ?case
  proof (cases "replicate_quant g n'")
    case (Inl e)
    then show ?thesis by (simp add: ebind_def)
  next
    case (Inr g1)
    from blocked_step [OF Cons.prems(1) Inr] have b1: "blocked R g1 n v" .
    have "n' \<noteq> n" using blocked_fails [OF Cons.prems(1)] Inr by auto
    with Cons.prems(2) have "n \<in> set ns" by simp
    from Cons.IH [OF b1 this] Inr show ?thesis by (simp add: ebind_def)
  qed
qed

lemma replicate_quant_block_check:
  assumes "nodes g (return_node b) = Some ret" and "length (inputs ret) \<noteq> 1"
  shows "replicate_quant_block n g b = Inl (CheckFailed
     [''replicate quantize only works for `if` node with one output right now''])"
  using assms unfolding replicate_quant_block_def get_node_def ebind_def torch_check_def
  by simp

lemma quant_of_if_True:
  assumes "nodes g n = Some nd"
    and "kind nd = ''aten::quantize_per_tensor'' \<or> kind nd = ''aten::quantize_per_channel''"
    and "input g n 0 = Inr v" and "nodes g (producer v) = Some if_nd"
    and "kind if_nd = ''prim::If''"
  shows "quant_of_if g n = Inr True"
  using assms unfolding quant_of_if_def get_node_def node_of_def ebind_def by auto

text \<open>
  C3 (as amended). When a branch of the conditional whose output a quantize Node reads
  declares more than one output, and so the conditional has more than one output,
  conditional-quantize replication does not skip the conditional: it fails with a fatal
  error.
\<close>

theorem ReplicateQuant_aborts:
  assumes al: "allocated g"
    and nv: "n \<in> set (visit_blocks [top_block g])"
    and nd: "nodes g n = Some nd"
      "kind nd = ''aten::quantize_per_tensor'' \<or> kind nd = ''aten::quantize_per_channel''"
    and v: "input g n 0 = Inr v"
    and ifn: "nodes g (producer v) = Some if_nd" "kind if_nd = ''prim::If''"
    and branch: "b \<in> set (blocks g (producer v))" "nodes g (return_node b) = Some ret"
      "1 < length (inputs ret)"
    and wf: "num_outputs if_nd = length (inputs ret)"
    and nr: "n \<notin> set (return_nodes (top_block g))"
  shows "\<exists>e. ReplicateQuant g = Inl e"
proof (cases "filterE (quant_of_if g) (visit_blocks [top_block g])")
  case (Inl e)
  then show ?thesis by (simp add: ReplicateQuant_def ebind_def)
next
  case (Inr ns)
  from quant_of_if_True [OF nd v ifn] filterE_props [OF Inr] nv have n: "n \<in> set ns" by blast
  have "blocked (set (return_nodes (top_block g))) g n v"
    unfolding blocked_def using al v ifn(1) branch(3) wf nr by (simp add: input_reads)
  from blocked_fold_fails [OF this n] obtain e where "foldE replicate_quant g ns = Inl e" by blast
  with Inr show ?thesis by (simp add: ReplicateQuant_def ebind_def)
qed

lemma two_output_if_allocated: "allocated two_output_if_graph"
  unfolding allocated_def two_output_if_graph_def by (auto split: if_splits)

theorem ReplicateQuant_aborts_witness:
  "allocated two_output_if_graph \<and>
   8 \<in> set (visit_blocks [top_block two_output_if_graph]) \<and>
   map_option kind (nodes two_output_if_graph 8) = Some ''aten::quantize_per_tensor'' \<and>
   input two_output_if_graph 8 0 = Inr (Value 2 0) \<and>
   map_option kind (nodes two_output_if_graph 2) = Some ''prim::If'' \<and>
   Block 3 4 [] \<in> set (blocks two_output_if_graph 2) \<and>
   map_option (\<lambda>ret. length (inputs ret)) (nodes two_output_if_graph 4) = Some 2 \<and>
   map_option num_outputs (nodes two_output_if_graph 2) = Some 2 \<and>
   8 \<notin> set (return_nodes (top_block two_output_if_graph)) \<and>
   (\<exists>e. ReplicateQuant two_output_if_graph = Inl e)"
proof -
  have nv: "8 \<in> set (visit_blocks [top_block two_output_if_graph])"
    by (simp add: two_output_if_graph_def)
  have nd: "nodes two_output_if_graph 8 = Some \<lparr> kind = ''aten::quantize_per_tensor'',
      inputs = [Value 2 0, Value 7 0], num_outputs = 1, attr_name = None \<rparr>"
    by (simp add: two_output_if_graph_def)
  have v: "input two_output_if_graph 8 0 = Inr (Value 2 0)"
    by (simp add: input_def get_node_def ebind_def input_at_def nd)
  have ifn: "nodes two_output_if_graph (producer (Value 2 0)) = Some \<lparr> kind = ''prim::If'',
      inputs = [Value 0 1], num_outputs = 2, attr_name = None \<rparr>"
    by (simp add: two_output_if_graph_def)
  have b: "Block 3 4 [] \<in> set (blocks two_output_if_graph (producer (Value 2 0)))"
    by (simp add: blocks_def two_output_if_graph_def)
  have ret: "nodes two_output_if_graph (return_node (Block 3 4 [])) = Some \<lparr> kind = ''prim::Return'',
      inputs = [Value 0 2, Value 0 3], num_outputs = 0, attr_name = None \<rparr>"
    by (simp add: two_output_if_graph_def)
  have nr: "8 \<notin> set (return_nodes (top_block two_output_if_graph))"
    by (simp add: two_output_if_graph_def)
  from ReplicateQuant_aborts [OF two_output_if_allocated nv nd _ v ifn _ b ret _ _ nr]
  have "\<exists>e. ReplicateQuant two_output_if_graph = Inl e" by simp
  with two_output_if_allocated nv nd v ifn b ret nr show ?thesis by simp
qed

text \<open>
  C3 as stated fails: on a conditional with two outputs whose first output is quantized,
  replication does not return the Graph but the failed assertion of
  \<open>if_node->output()\<close>.
\<close>

theorem ReplicateQuant_multi_output_counterexample:
  "ReplicateQuant two_output_if_graph = Inl (InternalAssert ''outputs_.size() == 1'')"
proof -
  have c: "filterE (quant_of_if two_output_if_graph) (visit_blocks [top_block two_output_if_graph])
      = Inr [8]"
    by (simp add: two_output_if_graph_def quant_of_if_def get_node_def node_of_def input_def
        input_at_def ebind_def)
  have r: "replicate_quant two_output_if_graph 8 = Inl (InternalAssert ''outputs_.size() == 1'')"
    unfolding replicate_quant_def ebind_def Let_def
    by (simp add: output_def get_node_def ebind_def input_def input_at_def moveBefore_store
        two_output_if_graph_def)
  show ?thesis unfolding ReplicateQuant_def c by (simp add: ebind_def r)
qed

section \<open>Sequencing\<close>

lemma ebind_Inr: "ebind x f = Inr b \<longleftrightarrow> (\<exists>a. x = Inr a \<and> f a = Inr b)"
  by (cases x) (simp_all add: ebind_def)

lemma ebind_InrE:
  assumes "ebind x f = Inr b"
  obtains a where "x = Inr a" and "f a = Inr b"
  using assms ebind_Inr by metis

lemma obind_Inr: "obind x f = Some (Inr b) \<longleftrightarrow> (\<exists>a. x = Some (Inr a) \<and> f a = Some (Inr b))"
proof (cases x)
  case None
  then show ?thesis by (simp add: obind_def)
next
  case (Some r)
  then show ?thesis by (cases r) (simp_all add: obind_def)
qed

lemma obind_InrE:
  assumes "obind x f = Some (Inr b)"
  obtains a where "x = Some (Inr a)" and "f a = Some (Inr b)"
  using assms obind_Inr by metis

lemma foldE_rel:
  assumes step: "\<And>s x s'. f s x = Inr s' \<Longrightarrow> R s s'"
    and refl: "\<And>s. R s s"
    and trans: "\<And>a b c. R a b \<Longrightarrow> R b c \<Longrightarrow> R a c"
    and run: "foldE f s xs = Inr s'"
  shows "R s s'"
  using run
proof (induction xs arbitrary: s)
  case Nil
  then show ?case using refl by simp
next
  case (Cons x xs)
  from Cons.prems obtain s1 where s1: "f s x = Inr s1" and rest: "foldE f s1 xs = Inr s'"
    by (auto simp: ebind_Inr)
  have "R s s1" using step s1 .
  moreover have "R s1 s'" using Cons.IH rest .
  ultimately show ?case using trans by blast
qed

lemma foldO_rel:
  assumes step: "\<And>s x s'. f s x = Some (Inr s') \<Longrightarrow> R s s'"
    and refl: "\<And>s. R s s"
    and trans: "\<And>a b c. R a b \<Longrightarrow> R b c \<Longrightarrow> R a c"
    and run: "foldO f s xs = Some (Inr s')"
  shows "R s s'"
  using run
proof (induction xs arbitrary: s)
  case Nil
  then show ?case using refl by simp
next
  case (Cons x xs)
  from Cons.prems obtain s1 where s1: "f s x = Some (Inr s1)"
      and rest: "foldO f s1 xs = Some (Inr s')"
    by (auto simp: obind_Inr)
  have "R s s1" using step s1 .
  moreover have "R s1 s'" using Cons.IH rest .
  ultimately show ?case using trans by blast
qed

lemma foldE_snoc: "foldE f s (xs @ [x]) = ebind (foldE f s xs) (\<lambda>s'. f s' x)"
  by (induction xs arbitrary: s) (simp_all add: ebind_def split: sum.splits)

lemma ebind_Inl: "x = Inl e \<Longrightarrow> ebind x f = Inl e"
  by (simp add: ebind_def)

section \<open>The parameter extractor, verified\<close>

lemma checkCalculateQParamsResult_ok:
  "checkCalculateQParamsResult r = Inr () \<longleftrightarrow> (\<exists>t0 t1. r = ITuple [ITensor t0, ITensor t1])"
proof
  assume a: "checkCalculateQParamsResult r = Inr ()"
  then obtain es where es: "r = ITuple es"
    unfolding checkCalculateQParamsResult_def by (cases r) auto
  with a have "length es = 2" "isTensor (es ! 0)" "isTensor (es ! 1)"
    unfolding checkCalculateQParamsResult_def torch_check_def ebind_def
    by (auto split: if_splits)
  then obtain a0 a1 where "es = [a0, a1]" "isTensor a0" "isTensor a1"
    by (cases es; cases "tl es") auto
  then obtain t0 t1 where "es = [ITensor t0, ITensor t1]"
    unfolding isTensor_def by (cases a0; cases a1) auto
  with es show "\<exists>t0 t1. r = ITuple [ITensor t0, ITensor t1]" by blast
next
  assume "\<exists>t0 t1. r = ITuple [ITensor t0, ITensor t1]"
  then show "checkCalculateQParamsResult r = Inr ()"
    unfolding checkCalculateQParamsResult_def torch_check_def ebind_def isTensor_def by auto
qed

lemma checkCalculateQParamsResult_fails:
  "(\<nexists>t0 t1. r = ITuple [ITensor t0, ITensor t1]) \<Longrightarrow> \<exists>e. checkCalculateQParamsResult r = Inl e"
  using checkCalculateQParamsResult_ok [of r]
  by (cases "checkCalculateQParamsResult r") auto

text \<open>The extractor on an observer record, up to the result of the calibration.\<close>

lemma getQSchemeAndQParamVector_record:
  assumes "output g n = Inr v" and "is_tensor v"
    and "findObserverName g v = Inr (Some name)"
    and "m_attrs mdl name = Some (IObject oid)" and "ms oid = Some obs"
    and "m_methods obs ''calculate_qparams'' = Some gid"
    and "run_method oid ''calculate_qparams'' = Inr result"
  shows "getQSchemeAndQParamVector ops run_method is_tensor ms g mdl n =
     ebind (checkCalculateQParamsResult result) (\<lambda>_.
     ebind (attr obs ''dtype'') (\<lambda>scalar_type.
     ebind (toInt scalar_type) (\<lambda>st.
     ebind (torch_check (st \<noteq> Undefined) [''dtype of observer can't be undefined'']) (\<lambda>_.
     case result of
       ITuple tp \<Rightarrow>
         ebind (toTensor (tp ! 0)) (\<lambda>t0.
         ebind (toTensor (tp ! 1)) (\<lambda>t1.
         let scale = to_dtype ops t0 kFloat; zero_point = to_dtype ops t1 kInt in
         ebind (attr obs ''qscheme'') (\<lambda>qs.
         ebind (toInt qs) (\<lambda>qi.
         let qscheme = qscheme_of_int qi in
         ebind
           (if isPerChannel qscheme then
              ebind (attr obs ''ch_axis'') (\<lambda>axis.
              ebind (toInt axis) (\<lambda>ax.
              Inr [(''_scale'', ITensor scale), (''_zero_point'', ITensor zero_point),
                   (''_axis'', IInt ax)]))
            else
              ebind (item_double ops scale) (\<lambda>s.
              ebind (item_int64 ops zero_point) (\<lambda>z.
              Inr [(''_scale'', IDouble s), (''_zero_point'', IInt z)])))
           (\<lambda>qparams. Inr (qscheme, qparams @ [(''_scalar_type'', scalar_type)]))))))
     | _ \<Rightarrow> Inl (InternalAssert ''isTuple()'')))))"
  using assms
  unfolding getQSchemeAndQParamVector_def
  by (simp add: ebind_def internal_assert_def attr_def toModule_def)

text \<open>
  C5 (as amended). On an observer record, extraction fails when the calibration result is
  not a tuple of exactly two Tensors, and fails when the declared \<open>dtype\<close> is
  undefined. Otherwise, when the observer declares its \<open>qscheme\<close>, it succeeds and
  produces the qparam list, each name with its value, in the order of the quantize
  arguments: for a per-channel scheme, if the observer declares its \<open>ch_axis\<close>, the
  scale converted to float, the zero point converted to int, the axis and the declared
  element type; for a per-tensor scheme, if the converted scale and zero point can each
  be read as one number, these two numbers and the declared element type.
\<close>

theorem getQSchemeAndQParamVector_outcomes:
  assumes "output g n = Inr v" and "is_tensor v"
    and "findObserverName g v = Inr (Some name)"
    and "m_attrs mdl name = Some (IObject oid)" and "ms oid = Some obs"
    and "m_methods obs ''calculate_qparams'' = Some gid"
    and "run_method oid ''calculate_qparams'' = Inr result"
  shows "((\<nexists>t0 t1. result = ITuple [ITensor t0, ITensor t1]) \<longrightarrow>
            (\<exists>e. getQSchemeAndQParamVector ops run_method is_tensor ms g mdl n = Inl e)) \<and>
         (m_attrs obs ''dtype'' = Some (IInt Undefined) \<longrightarrow>
            (\<exists>e. getQSchemeAndQParamVector ops run_method is_tensor ms g mdl n = Inl e)) \<and>
         (\<forall>t0 t1 d q.
            result = ITuple [ITensor t0, ITensor t1] \<and>
            m_attrs obs ''dtype'' = Some (IInt d) \<and> d \<noteq> Undefined \<and>
            m_attrs obs ''qscheme'' = Some (IInt q) \<longrightarrow>
            (isPerChannel (qscheme_of_int q) \<longrightarrow>
               (\<forall>a. m_attrs obs ''ch_axis'' = Some (IInt a) \<longrightarrow>
                  getQSchemeAndQParamVector ops run_method is_tensor ms g mdl n =
                    Inr (qscheme_of_int q,
                         [(''_scale'', ITensor (to_dtype ops t0 kFloat)),
                          (''_zero_point'', ITensor (to_dtype ops t1 kInt)),
                          (''_axis'', IInt a), (''_scalar_type'', IInt d)]))) \<and>
            (\<not> isPerChannel (qscheme_of_int q) \<longrightarrow>
               (\<forall>s z. item_double ops (to_dtype ops t0 kFloat) = Inr s \<and>
                      item_int64 ops (to_dtype ops t1 kInt) = Inr z \<longrightarrow>
                  getQSchemeAndQParamVector ops run_method is_tensor ms g mdl n =
                    Inr (qscheme_of_int q,
                         [(''_scale'', IDouble s), (''_zero_point'', IInt z),
                          (''_scalar_type'', IInt d)]))))"
proof (intro conjI impI allI)
  note unf = getQSchemeAndQParamVector_record
      [of g n v is_tensor name mdl oid ms obs gid run_method result ops, OF assms]
  {
    assume "\<nexists>t0 t1. result = ITuple [ITensor t0, ITensor t1]"
    then obtain e where "checkCalculateQParamsResult result = Inl e"
      using checkCalculateQParamsResult_fails by blast
    then show "\<exists>e. getQSchemeAndQParamVector ops run_method is_tensor ms g mdl n = Inl e"
      unfolding unf by (simp add: ebind_def)
  }
  {
    assume d: "m_attrs obs ''dtype'' = Some (IInt Undefined)"
    show "\<exists>e. getQSchemeAndQParamVector ops run_method is_tensor ms g mdl n = Inl e"
    proof (cases "checkCalculateQParamsResult result")
      case (Inl e)
      then show ?thesis unfolding unf by (simp add: ebind_def)
    next
      case (Inr u)
      with d show ?thesis
        unfolding unf by (simp add: ebind_def attr_def toInt_def torch_check_def)
    qed
  }
  {
    fix t0 t1 d q a
    assume r: "result = ITuple [ITensor t0, ITensor t1] \<and>
            m_attrs obs ''dtype'' = Some (IInt d) \<and> d \<noteq> Undefined \<and>
            m_attrs obs ''qscheme'' = Some (IInt q)"
      and pc: "isPerChannel (qscheme_of_int q)"
      and ax: "m_attrs obs ''ch_axis'' = Some (IInt a)"
    from r have ok: "checkCalculateQParamsResult result = Inr ()"
      using checkCalculateQParamsResult_ok by blast
    from r ok pc ax
    show "getQSchemeAndQParamVector ops run_method is_tensor ms g mdl n =
                    Inr (qscheme_of_int q,
                         [(''_scale'', ITensor (to_dtype ops t0 kFloat)),
                          (''_zero_point'', ITensor (to_dtype ops t1 kInt)),
                          (''_axis'', IInt a), (''_scalar_type'', IInt d)])"
      unfolding unf
      by (simp add: ebind_def attr_def toInt_def torch_check_def toTensor_def)
  }
  {
    fix t0 t1 d q s z
    assume r: "result = ITuple [ITensor t0, ITensor t1] \<and>
            m_attrs obs ''dtype'' = Some (IInt d) \<and> d \<noteq> Undefined \<and>
            m_attrs obs ''qscheme'' = Some (IInt q)"
      and pt: "\<not> isPerChannel (qscheme_of_int q)"
      and it: "item_double ops (to_dtype ops t0 kFloat) = Inr s \<and>
                      item_int64 ops (to_dtype ops t1 kInt) = Inr z"
    from r have ok: "checkCalculateQParamsResult result = Inr ()"
      using checkCalculateQParamsResult_ok by blast
    from r ok pt it
    show "getQSchemeAndQParamVector ops run_method is_tensor ms g mdl n =
                    Inr (qscheme_of_int q,
                         [(''_scale'', IDouble s), (''_zero_point'', IInt z),
                          (''_scalar_type'', IInt d)])"
      unfolding unf
      by (simp add: ebind_def attr_def toInt_def torch_check_def toTensor_def)
  }
qed

lemma observed_graph_observer:
  "findObserverName observed_graph (Value 3 0) = Inr (Some ''_observer_0'')"
  by code_simp

lemma observed_graph_output: "output observed_graph 3 = Inr (Value 3 0)"
  by code_simp

lemma byte_ops_simps:
  "to_dtype byte_ops t d = ByteTensor d (bt_elems t)"
  "item_double byte_ops (ByteTensor d [x]) = Inr (real (unat x))"
  "item_int64 byte_ops (ByteTensor d [x]) = Inr (int (unat x))"
  "item_double byte_ops (ByteTensor d (x # y # ys)) =
     Inl (CheckFailed [''only one element tensors can be converted to scalars''])"
  by (simp_all add: byte_ops_def byte_item_def ebind_def)

theorem getQSchemeAndQParamVector_outcomes_witness:
  "output observed_graph 3 = Inr (Value 3 0) \<and>
   findObserverName observed_graph (Value 3 0) = Inr (Some ''_observer_0'') \<and>
   m_attrs root_obj ''_observer_0'' = Some (IObject 1) \<and>
   module_store 1 = Some observer_obj \<and>
   m_methods observer_obj ''calculate_qparams'' = Some 1 \<and>
   calibrated 1 ''calculate_qparams''
     = Inr (ITuple [ITensor (ByteTensor 0 [2]), ITensor (ByteTensor 0 [10])]) \<and>
   m_attrs observer_obj ''dtype'' = Some (IInt kQInt8) \<and> kQInt8 \<noteq> Undefined \<and>
   m_attrs observer_obj ''qscheme'' = Some (IInt 0) \<and>
   \<not> isPerChannel (qscheme_of_int 0) \<and>
   item_double byte_ops (to_dtype byte_ops (ByteTensor 0 [2]) kFloat) = Inr 2 \<and>
   item_int64 byte_ops (to_dtype byte_ops (ByteTensor 0 [10]) kInt) = Inr 10 \<and>
   getQSchemeAndQParamVector byte_ops calibrated (\<lambda>v. True) module_store observed_graph
       root_obj 3
     = Inr (kPerTensorAffine,
            [(''_scale'', IDouble 2), (''_zero_point'', IInt 10),
             (''_scalar_type'', IInt kQInt8)])"
proof -
  have m1: "m_attrs root_obj ''_observer_0'' = Some (IObject 1)"
    by (simp add: root_obj_def)
  have m2: "module_store 1 = Some observer_obj"
    by (simp add: module_store_def)
  have m3: "m_methods observer_obj ''calculate_qparams'' = Some 1"
    by (simp add: observer_obj_def)
  have m4: "m_attrs observer_obj ''dtype'' = Some (IInt kQInt8)"
    by (simp add: observer_obj_def)
  have m5: "m_attrs observer_obj ''qscheme'' = Some (IInt 0)"
    by (simp add: observer_obj_def)
  have m6: "kQInt8 \<noteq> Undefined"
    by (simp add: kQInt8_def Undefined_def)
  have m7: "qscheme_of_int 0 = kPerTensorAffine"
    by (simp add: qscheme_of_int_def)
  have m8: "\<not> isPerChannel (qscheme_of_int 0)"
    by (simp add: m7 isPerChannel_def)
  have r: "calibrated 1 ''calculate_qparams''
             = Inr (ITuple [ITensor (ByteTensor 0 [2]), ITensor (ByteTensor 0 [10])])"
    by (simp add: calibrated_def)
  have i1: "item_double byte_ops (to_dtype byte_ops (ByteTensor 0 [2]) kFloat) = Inr 2"
    by (simp add: byte_ops_simps)
  have i2: "item_int64 byte_ops (to_dtype byte_ops (ByteTensor 0 [10]) kInt) = Inr 10"
    by (simp add: byte_ops_simps)
  have t: "(\<lambda>v::ir_value. True) (Value 3 0)" by simp
  note th = getQSchemeAndQParamVector_outcomes
              [of observed_graph 3 "Value 3 0" "\<lambda>v. True" "''_observer_0''" root_obj 1
                 module_store observer_obj 1 calibrated _ byte_ops,
               OF observed_graph_output t observed_graph_observer m1 m2 m3 r]
  from th have "\<forall>t0 t1 d q.
            ITuple [ITensor (ByteTensor 0 [2]), ITensor (ByteTensor 0 [10])]
              = ITuple [ITensor t0, ITensor t1] \<and>
            m_attrs observer_obj ''dtype'' = Some (IInt d) \<and> d \<noteq> Undefined \<and>
            m_attrs observer_obj ''qscheme'' = Some (IInt q) \<longrightarrow>
            (\<not> isPerChannel (qscheme_of_int q) \<longrightarrow>
               (\<forall>s z. item_double byte_ops (to_dtype byte_ops t0 kFloat) = Inr s \<and>
                      item_int64 byte_ops (to_dtype byte_ops t1 kInt) = Inr z \<longrightarrow>
                  getQSchemeAndQParamVector byte_ops calibrated (\<lambda>v. True) module_store
                      observed_graph root_obj 3 =
                    Inr (qscheme_of_int q,
                         [(''_scale'', IDouble s), (''_zero_point'', IInt z),
                          (''_scalar_type'', IInt d)])))"
    by blast
  from this [rule_format, of "ByteTensor 0 [2]" "ByteTensor 0 [10]" kQInt8 0 2 10]
  have "getQSchemeAndQParamVector byte_ops calibrated (\<lambda>v. True) module_store observed_graph
       root_obj 3
     = Inr (kPerTensorAffine,
            [(''_scale'', IDouble 2), (''_zero_point'', IInt 10),
             (''_scalar_type'', IInt kQInt8)])"
    using m4 m5 m6 m8 i1 i2 by (simp add: m7)
  with observed_graph_output observed_graph_observer m1 m2 m3 m4 m5 m6 m8 r i1 i2
  show ?thesis by (intro conjI) assumption+
qed

text \<open>
  C5, as the specification states it, fails on an observer whose calibration returns a
  tuple of exactly two Tensors and whose \<open>dtype\<close> is defined: with the per-tensor
  scheme and two scales, reading the scale as one number is refused.
\<close>

theorem getQSchemeAndQParamVector_pair_counterexample:
  "checkCalculateQParamsResult
     (ITuple [ITensor (ByteTensor 0 [2, 4]), ITensor (ByteTensor 0 [10, 0])]
        :: (byte_tensor, real) ivalue) = Inr () \<and>
   m_attrs observer_obj ''dtype'' = Some (IInt kQInt8) \<and> kQInt8 \<noteq> Undefined \<and>
   calibrated_pair 1 ''calculate_qparams''
     = Inr (ITuple [ITensor (ByteTensor 0 [2, 4]), ITensor (ByteTensor 0 [10, 0])]) \<and>
   getQSchemeAndQParamVector byte_ops calibrated_pair (\<lambda>v. True) module_store observed_graph
       root_obj 3
     = Inl (CheckFailed [''only one element tensors can be converted to scalars''])"
proof -
  have m1: "m_attrs root_obj ''_observer_0'' = Some (IObject 1)"
    by (simp add: root_obj_def)
  have m2: "module_store 1 = Some observer_obj"
    by (simp add: module_store_def)
  have m3: "m_methods observer_obj ''calculate_qparams'' = Some 1"
    by (simp add: observer_obj_def)
  have m4: "m_attrs observer_obj ''dtype'' = Some (IInt kQInt8)"
    by (simp add: observer_obj_def)
  have m5: "m_attrs observer_obj ''qscheme'' = Some (IInt 0)"
    by (simp add: observer_obj_def)
  have m6: "kQInt8 \<noteq> Undefined"
    by (simp add: kQInt8_def Undefined_def)
  have r: "calibrated_pair 1 ''calculate_qparams''
     = Inr (ITuple [ITensor (ByteTensor 0 [2, 4]), ITensor (ByteTensor 0 [10, 0])])"
    by (simp add: calibrated_pair_def)
  have c: "checkCalculateQParamsResult
     (ITuple [ITensor (ByteTensor 0 [2, 4]), ITensor (ByteTensor 0 [10, 0])]
        :: (byte_tensor, real) ivalue) = Inr ()"
    by (simp add: checkCalculateQParamsResult_ok)
  have t: "(\<lambda>v::ir_value. True) (Value 3 0)" by simp
  have "getQSchemeAndQParamVector byte_ops calibrated_pair (\<lambda>v. True) module_store
          observed_graph root_obj 3
          = Inl (CheckFailed [''only one element tensors can be converted to scalars''])"
    unfolding getQSchemeAndQParamVector_record
                [of observed_graph 3 "Value 3 0" "\<lambda>v. True" "''_observer_0''" root_obj 1
                    module_store observer_obj 1 calibrated_pair _ byte_ops,
                 OF observed_graph_output t observed_graph_observer m1 m2 m3 r]
    by (simp add: c m4 m5 m6 ebind_def attr_def toInt_def torch_check_def toTensor_def
        qscheme_of_int_def isPerChannel_def byte_ops_simps)
  with c m4 m6 r show ?thesis by (intro conjI) assumption+
qed

section \<open>The insertion step, verified\<close>

lemma methods_kept_refl: "methods_kept h h"
  by (simp add: methods_kept_def option.rel_refl)

lemma methods_kept_trans:
  assumes "methods_kept a b" and "methods_kept b c"
  shows "methods_kept a c"
  unfolding methods_kept_def
proof
  fix m
  from assms have ab: "rel_option (\<lambda>x y. m_methods y = m_methods x) (modules a m) (modules b m)"
    and bc: "rel_option (\<lambda>x y. m_methods y = m_methods x) (modules b m) (modules c m)"
    unfolding methods_kept_def by simp_all
  then show "rel_option (\<lambda>x y. m_methods y = m_methods x) (modules a m) (modules c m)"
    by (cases "modules a m"; cases "modules b m"; cases "modules c m") simp_all
qed

lemma graph_kept_refl: "graph_kept h h gid"
  by (simp add: graph_kept_def)

lemma graph_kept_trans: "graph_kept a b gid \<Longrightarrow> graph_kept b c gid \<Longrightarrow> graph_kept a c gid"
  by (simp add: graph_kept_def)

lemma recorded_kept_refl: "recorded_kept h h"
  by (simp add: recorded_kept_def methods_kept_refl graph_kept_refl)

lemma recorded_kept_trans:
  assumes "recorded_kept a b" and "recorded_kept b c"
  shows "recorded_kept a c"
proof -
  have m: "methods_kept a c"
    using assms methods_kept_trans unfolding recorded_kept_def by blast
  have "graph_kept a c gid" if r: "observer_nodes_for_graph a gid \<noteq> None" for gid
  proof -
    from r assms(1) have ab: "graph_kept a b gid" unfolding recorded_kept_def by simp
    with r have "observer_nodes_for_graph b gid \<noteq> None" by (simp add: graph_kept_def)
    with assms(2) have "graph_kept b c gid" unfolding recorded_kept_def by simp
    with ab show ?thesis by (rule graph_kept_trans)
  qed
  with m show ?thesis unfolding recorded_kept_def by simp
qed

lemma others_kept_refl: "others_kept gid h h"
  by (simp add: others_kept_def methods_kept_refl graph_kept_refl)

lemma others_kept_trans:
  assumes "others_kept gid a b" and "others_kept gid b c"
  shows "others_kept gid a c"
  using assms methods_kept_trans graph_kept_trans unfolding others_kept_def by blast

lemma others_kept_recorded:
  assumes "others_kept gid h h'" and "observer_nodes_for_graph h gid = None"
  shows "recorded_kept h h'"
proof -
  have "graph_kept h h' x" if "observer_nodes_for_graph h x \<noteq> None" for x
  proof -
    from that assms(2) have "x \<noteq> gid" by auto
    with assms(1) show ?thesis unfolding others_kept_def by simp
  qed
  with assms(1) show ?thesis unfolding others_kept_def recorded_kept_def by simp
qed

lemma tables_kept_refl: "tables_kept h h"
  by (simp add: tables_kept_def methods_kept_refl graph_kept_refl)

lemma tables_kept_trans: "tables_kept a b \<Longrightarrow> tables_kept b c \<Longrightarrow> tables_kept a c"
  using methods_kept_trans graph_kept_trans unfolding tables_kept_def by blast

lemma tables_kept_others: "tables_kept h h' \<Longrightarrow> others_kept gid h h'"
  by (simp add: tables_kept_def others_kept_def)

lemma tables_kept_recorded: "tables_kept h h' \<Longrightarrow> recorded_kept h h'"
  by (simp add: tables_kept_def recorded_kept_def)

lemma collect_kept:
  assumes "collectObserverNodesAndValueToQuantize h gid v = Inr h'"
  shows "others_kept gid h h'"
proof -
  from assms [unfolded collectObserverNodesAndValueToQuantize_def]
  obtain g where r1: "ebind (findObserverName g v) (\<lambda>observer_name.
       case observer_name of
         None \<Rightarrow> Inr h
       | Some name \<Rightarrow>
           let h1 = h\<lparr>observer_modules_to_remove :=
                       push_back (observer_modules_to_remove h) gid name\<rparr>;
               observer = producer v
           in
           ebind (get_node g observer) (\<lambda>nd.
           ebind (is_observer_forward g nd name) (\<lambda>ok.
           ebind (internal_assert ok ''observer is a forward call of the observer module'') (\<lambda>_.
           ebind (input_at nd 0) (\<lambda>m.
             Inr (h1\<lparr>nodes_to_destroy :=
                        push_back (push_back (nodes_to_destroy h1) gid observer) gid (producer m),
                      observer_nodes_for_graph :=
                        push_back (observer_nodes_for_graph h1) gid observer\<rparr>)))))) = Inr h'"
    by (rule ebind_InrE)
  then obtain oname where r: "(case oname of
         None \<Rightarrow> Inr h
       | Some name \<Rightarrow>
           let h1 = h\<lparr>observer_modules_to_remove :=
                       push_back (observer_modules_to_remove h) gid name\<rparr>;
               observer = producer v
           in
           ebind (get_node g observer) (\<lambda>nd.
           ebind (is_observer_forward g nd name) (\<lambda>ok.
           ebind (internal_assert ok ''observer is a forward call of the observer module'') (\<lambda>_.
           ebind (input_at nd 0) (\<lambda>m.
             Inr (h1\<lparr>nodes_to_destroy :=
                        push_back (push_back (nodes_to_destroy h1) gid observer) gid (producer m),
                      observer_nodes_for_graph :=
                        push_back (observer_nodes_for_graph h1) gid observer\<rparr>)))))) = Inr h'"
    by (rule ebind_InrE)
  show ?thesis
  proof (cases oname)
    case None
    with r show ?thesis by (simp add: others_kept_refl)
  next
    case (Some name)
    with r have "\<exists>m. h' = h\<lparr>observer_modules_to_remove := push_back (observer_modules_to_remove h) gid name,
              nodes_to_destroy :=
                 push_back (push_back (nodes_to_destroy h) gid (producer v)) gid (producer m),
              observer_nodes_for_graph :=
                 push_back (observer_nodes_for_graph h) gid (producer v)\<rparr>"
      by (auto simp: ebind_Inr Let_def)
    then show ?thesis
      unfolding others_kept_def graph_kept_def
      by (auto simp: push_back_def methods_kept_def option.rel_refl)
  qed
qed

lemma collect_outputs_kept:
  assumes "collect_outputs e gid h n = Inr h'"
  shows "others_kept gid h h'"
proof -
  from assms have "\<exists>vs. foldE (\<lambda>h v. if isTensorType e gid v
                     then collectObserverNodesAndValueToQuantize h gid v else Inr h) h vs
          = Inr h'"
    unfolding collect_outputs_def by (auto simp: ebind_Inr)
  then obtain vs where
    f: "foldE (\<lambda>h v. if isTensorType e gid v
                     then collectObserverNodesAndValueToQuantize h gid v else Inr h) h vs
          = Inr h'" ..
  show ?thesis
  proof (rule foldE_rel [OF _ _ _ f])
    fix s x s'
    assume "(if isTensorType e gid x
             then collectObserverNodesAndValueToQuantize s gid x else Inr s) = Inr s'"
    then show "others_kept gid s s'"
      using collect_kept others_kept_refl by (auto split: if_splits)
  next
    show "\<And>s. others_kept gid s s" by (rule others_kept_refl)
  next
    show "\<And>a b c. others_kept gid a b \<Longrightarrow> others_kept gid b c \<Longrightarrow> others_kept gid a c"
      by (rule others_kept_trans)
  qed
qed

lemma setAttr_Inr:
  "setAttr h mid a v = Inr h' \<longleftrightarrow>
     (\<exists>mdl. modules h mid = Some mdl \<and>
            h' = h\<lparr>modules := (modules h)(mid \<mapsto> mdl\<lparr>m_attrs := (m_attrs mdl)(a \<mapsto> v)\<rparr>)\<rparr>)"
  unfolding setAttr_def get_module_def
  by (cases "modules h mid") (auto simp: ebind_def)

lemma setAttr_kept: "setAttr h mid a v = Inr h' \<Longrightarrow> tables_kept h h'"
  unfolding setAttr_Inr tables_kept_def graph_kept_def methods_kept_def
  by (auto simp: option.rel_refl)

text \<open>
  The loop that stores the qparams of an observer under their recorded names: it ends
  without an error when every qparam has a recorded name, and then the attribute table
  of the module is \<open>store_qparams\<close>.
\<close>

lemma store_fold:
  assumes "modules h mid = Some mdl"
  shows "foldE (\<lambda>h pr. case names (fst pr) of
                      None \<Rightarrow> Inl OutOfRange
                    | Some a \<Rightarrow> setAttr h mid a (snd pr)) h qparams = Inr h' \<longleftrightarrow>
         (\<forall>pr \<in> set qparams. names (fst pr) \<noteq> None) \<and>
         h' = h\<lparr>modules :=
                  (modules h)(mid \<mapsto> mdl\<lparr>m_attrs := store_qparams names (m_attrs mdl) qparams\<rparr>)\<rparr>"
  using assms
proof (induction qparams arbitrary: h mdl)
  case Nil
  have "(modules h)(mid \<mapsto> mdl) = modules h"
    using Nil by (simp add: map_upd_triv)
  then show ?case by (auto simp: store_qparams_def)
next
  case (Cons pr qparams)
  show ?case
  proof (cases "names (fst pr)")
    case None
    then show ?thesis by (simp add: ebind_def)
  next
    case (Some a)
    define h2 where "h2 = h\<lparr>modules := (modules h)(mid \<mapsto> mdl\<lparr>m_attrs := (m_attrs mdl)(a \<mapsto> snd pr)\<rparr>)\<rparr>"
    have s: "setAttr h mid a (snd pr) = Inr h2"
      unfolding setAttr_Inr h2_def using Cons.prems by simp
    have m2: "modules h2 mid = Some (mdl\<lparr>m_attrs := (m_attrs mdl)(a \<mapsto> snd pr)\<rparr>)"
      by (simp add: h2_def)
    have e: "h2\<lparr>modules := (modules h2)(mid \<mapsto> mdl\<lparr>m_attrs := (m_attrs mdl)(a \<mapsto> snd pr)\<rparr>
                 \<lparr>m_attrs := store_qparams names
                     (m_attrs (mdl\<lparr>m_attrs := (m_attrs mdl)(a \<mapsto> snd pr)\<rparr>)) qparams\<rparr>)\<rparr>
             = h\<lparr>modules := (modules h)(mid \<mapsto>
                 mdl\<lparr>m_attrs := store_qparams names (m_attrs mdl) (pr # qparams)\<rparr>)\<rparr>"
      by (simp add: h2_def store_qparams_def Some)
    have st: "foldE (\<lambda>h pr. case names (fst pr) of
                      None \<Rightarrow> Inl OutOfRange
                    | Some a \<Rightarrow> setAttr h mid a (snd pr)) h (pr # qparams)
               = foldE (\<lambda>h pr. case names (fst pr) of
                      None \<Rightarrow> Inl OutOfRange
                    | Some a \<Rightarrow> setAttr h mid a (snd pr)) h2 qparams"
      by (simp add: Some s ebind_def)
    have b: "(\<forall>x \<in> set (pr # qparams). names (fst x) \<noteq> None)
               \<longleftrightarrow> (\<forall>x \<in> set qparams. names (fst x) \<noteq> None)"
      using Some by simp
    show ?thesis
      unfolding st b using Cons.IH [OF m2] unfolding e .
  qed
qed

text \<open>
  The loops of the source over the recorded observers do what running the step again is
  to do.
\<close>

lemma reset_qparams_re_set:
  "reset_qparams e mid gid h n = Inr h' \<longleftrightarrow> re_set e mid gid h n h'"
proof (cases "graphs h gid")
  case None
  then show ?thesis
    by (simp add: reset_qparams_def re_set_def get_graph_def ebind_def)
next
  case g: (Some g)
  show ?thesis
  proof (cases "modules h mid")
    case None
    then show ?thesis
      by (simp add: reset_qparams_def re_set_def get_graph_def get_module_def ebind_def g)
  next
    case m: (Some mdl)
    show ?thesis
    proof (cases "getQSchemeAndQParamVector (tensorOps e) (runMethod e) (isTensorType e gid)
                    (modules h) g mdl n")
      case (Inl err)
      then show ?thesis
        by (simp add: reset_qparams_def re_set_def get_graph_def get_module_def ebind_def g m)
    next
      case q: (Inr qq)
      obtain qscheme qparams where qq: "qq = (qscheme, qparams)" by (cases qq)
      show ?thesis
      proof (cases "checkQScheme (qscheme_for_graph h) gid qscheme")
        case (Inl err)
        then show ?thesis
          by (simp add: reset_qparams_def re_set_def get_graph_def get_module_def ebind_def
              g m q qq)
      next
        case c: (Inr schemes)
        show ?thesis
        proof (cases "qparam_name_map_for_node h (gid, n)")
          case None
          then show ?thesis
            by (simp add: reset_qparams_def re_set_def get_graph_def get_module_def ebind_def
                g m q qq c)
        next
          case nm: (Some names)
          have m': "modules (h\<lparr>qscheme_for_graph := schemes\<rparr>) mid = Some mdl"
            using m by simp
          have u: "h\<lparr>qscheme_for_graph := schemes,
                     modules := (modules h)(mid \<mapsto>
                        mdl\<lparr>m_attrs := store_qparams names (m_attrs mdl) qparams\<rparr>)\<rparr>
                 = h\<lparr>modules := (modules h)(mid \<mapsto>
                        mdl\<lparr>m_attrs := store_qparams names (m_attrs mdl) qparams\<rparr>),
                     qscheme_for_graph := schemes\<rparr>"
            by simp
          have "reset_qparams e mid gid h n =
                  foldE (\<lambda>h pr. case names (fst pr) of
                      None \<Rightarrow> Inl OutOfRange
                    | Some a \<Rightarrow> setAttr h mid a (snd pr))
                    (h\<lparr>qscheme_for_graph := schemes\<rparr>) qparams"
            by (simp add: reset_qparams_def get_graph_def get_module_def ebind_def g m q qq c nm)
          also have "\<dots> = Inr h' \<longleftrightarrow>
                (\<forall>pr \<in> set qparams. names (fst pr) \<noteq> None) \<and>
                h' = h\<lparr>modules := (modules h)(mid \<mapsto>
                        mdl\<lparr>m_attrs := store_qparams names (m_attrs mdl) qparams\<rparr>),
                     qscheme_for_graph := schemes\<rparr>"
            using store_fold [OF m', of names qparams h'] by (simp add: u)
          also have "\<dots> \<longleftrightarrow> re_set e mid gid h n h'"
            by (simp add: re_set_def g m q qq c nm)
          finally show ?thesis .
        qed
      qed
    qed
  qed
qed

lemma reset_all_re_set_all:
  "foldE (reset_qparams e mid gid) h ns = Inr h' \<longleftrightarrow> re_set_all e mid gid h ns h'"
proof (induction ns arbitrary: h)
  case Nil
  then show ?case by auto
next
  case (Cons n ns)
  show ?case
    by (simp add: ebind_Inr Cons.IH reset_qparams_re_set)
qed

lemma re_set_kept: "re_set e mid gid h n h' \<Longrightarrow> tables_kept h h'"
  unfolding re_set_def tables_kept_def graph_kept_def methods_kept_def
  by (auto simp: option.rel_refl)

lemma re_set_all_kept: "re_set_all e mid gid h ns h' \<Longrightarrow> tables_kept h h'"
proof (induction ns arbitrary: h)
  case Nil
  then show ?case by (simp add: tables_kept_refl)
next
  case (Cons n ns)
  then show ?case
    using re_set_kept tables_kept_trans by fastforce
qed

lemma register_qparam_kept:
  assumes "register_qparam e k mid gid n ov (h, names) pr = Some (Inr (h', names'))"
  shows "others_kept gid h h'"
proof -
  obtain name qparam where pr: "pr = (name, qparam)" by (cases pr)
  from assms have "\<exists>qn nm.
    setAttr (h\<lparr>qparam_name_map_for_node := (qparam_name_map_for_node h)((gid, n) \<mapsto> nm)\<rparr>)
       mid qn qparam = Inr h'"
    unfolding register_qparam_def pr
    by (auto simp: obind_Inr Let_def split: option.splits)
  then obtain nm where
    "tables_kept (h\<lparr>qparam_name_map_for_node := (qparam_name_map_for_node h)((gid, n) \<mapsto> nm)\<rparr>) h'"
    using setAttr_kept by blast
  then show ?thesis
    by (simp add: tables_kept_def others_kept_def graph_kept_def methods_kept_def)
qed

lemma register_fold_kept:
  assumes "foldO (register_qparam e k mid gid n ov) (h, names) prs = Some (Inr (h', names'))"
  shows "others_kept gid h h'"
proof -
  have "others_kept gid (fst (h, names)) (fst (h', names'))"
  proof (rule foldO_rel [where R = "\<lambda>a b. others_kept gid (fst a) (fst b)", OF _ _ _ assms])
    fix s x s'
    assume "register_qparam e k mid gid n ov s x = Some (Inr s')"
    then show "others_kept gid (fst s) (fst s')"
      using register_qparam_kept [of e k mid gid n ov "fst s" "snd s" x "fst s'" "snd s'"]
      by simp
  next
    show "\<And>s. others_kept gid (fst s) (fst s)" by (rule others_kept_refl)
  next
    show "\<And>a b c. others_kept gid (fst a) (fst b) \<Longrightarrow> others_kept gid (fst b) (fst c)
            \<Longrightarrow> others_kept gid (fst a) (fst c)"
      by (rule others_kept_trans)
  qed
  then show ?thesis by simp
qed

lemma quantize_observer_kept:
  assumes "quantize_observer e k mid gid self h n = Some (Inr h')"
  shows "others_kept gid h h'"
proof -
  from assms have "\<exists>qs h1 names ov prs g'.
      foldO (register_qparam e k mid gid n ov) (h\<lparr>qscheme_for_graph := qs\<rparr>, []) prs
        = Some (Inr (h1, names)) \<and>
      h' = h1\<lparr>graphs := (graphs h1)(gid \<mapsto> g')\<rparr>"
    unfolding quantize_observer_def
    by (auto simp: obind_Inr; blast)
  then obtain qs h1 names ov prs g' where
    f: "foldO (register_qparam e k mid gid n ov) (h\<lparr>qscheme_for_graph := qs\<rparr>, []) prs
        = Some (Inr (h1, names))"
    and h': "h' = h1\<lparr>graphs := (graphs h1)(gid \<mapsto> g')\<rparr>"
    by blast
  from f have "others_kept gid (h\<lparr>qscheme_for_graph := qs\<rparr>) h1"
    by (rule register_fold_kept)
  then show ?thesis
    unfolding h' by (simp add: others_kept_def graph_kept_def methods_kept_def)
qed

lemma quantizeTensors_kept:
  assumes "quantizeTensors e k mid gid self h = Some (Inr h')"
  shows "others_kept gid h h'"
proof (cases "observer_nodes_for_graph h gid")
  case None
  with assms show ?thesis by (simp add: quantizeTensors_def others_kept_refl)
next
  case (Some ns)
  with assms have f: "foldO (quantize_observer e k mid gid self) h ns = Some (Inr h')"
    by (simp add: quantizeTensors_def)
  show ?thesis
  proof (rule foldO_rel [OF _ _ _ f])
    show "\<And>s x s'. quantize_observer e k mid gid self s x = Some (Inr s') \<Longrightarrow> others_kept gid s s'"
      by (rule quantize_observer_kept)
  next
    show "\<And>s. others_kept gid s s" by (rule others_kept_refl)
  next
    show "\<And>a b c. others_kept gid a b \<Longrightarrow> others_kept gid b c \<Longrightarrow> others_kept gid a c"
      by (rule others_kept_trans)
  qed
qed

lemma run_kept:
  "run e k h mid method_name = Some (Inr h') \<Longrightarrow> recorded_kept h h'"
proof (induction k arbitrary: h mid method_name h')
  case 0
  then show ?case by simp
next
  case (Suc k)
  from Suc.prems [unfolded run.simps]
  obtain invoked_methods where
    r1: "obind (foldO (\<lambda>h invoked. run e k h (fst invoked) (snd invoked)) h invoked_methods) (\<lambda>h1.
     obind (Some (ebind (get_module h1 mid) (\<lambda>mdl. get_method mdl method_name))) (\<lambda>gid.
       case observer_nodes_for_graph h1 gid of
         Some ns \<Rightarrow> Some (foldE (reset_qparams e mid gid) h1 ns)
       | None \<Rightarrow>
           obind (Some (get_graph h1 gid)) (\<lambda>g.
             let input_values = filter (isTensorType e gid) (tl (graph_inputs g)) in
             obind (Some (foldE (collect_outputs e gid) h1 (visit_blocks [top_block g]))) (\<lambda>h2.
             obind (Some (foldE (\<lambda>h v. collectObserverNodesAndValueToQuantize h gid v)
                            h2 input_values)) (\<lambda>h3.
             obind (Some (self_of g)) (\<lambda>self.
               quantizeTensors e k mid gid self h3)))))) = Some (Inr h')"
    by (rule obind_InrE)
  then obtain h1 where
    f: "foldO (\<lambda>h invoked. run e k h (fst invoked) (snd invoked)) h invoked_methods
          = Some (Inr h1)"
    and r2: "obind (Some (ebind (get_module h1 mid) (\<lambda>mdl. get_method mdl method_name))) (\<lambda>gid.
       case observer_nodes_for_graph h1 gid of
         Some ns \<Rightarrow> Some (foldE (reset_qparams e mid gid) h1 ns)
       | None \<Rightarrow>
           obind (Some (get_graph h1 gid)) (\<lambda>g.
             let input_values = filter (isTensorType e gid) (tl (graph_inputs g)) in
             obind (Some (foldE (collect_outputs e gid) h1 (visit_blocks [top_block g]))) (\<lambda>h2.
             obind (Some (foldE (\<lambda>h v. collectObserverNodesAndValueToQuantize h gid v)
                            h2 input_values)) (\<lambda>h3.
             obind (Some (self_of g)) (\<lambda>self.
               quantizeTensors e k mid gid self h3))))) = Some (Inr h')"
    by (rule obind_InrE)
  have k1: "recorded_kept h h1"
  proof (rule foldO_rel [OF _ _ _ f])
    show "\<And>s x s'. run e k s (fst x) (snd x) = Some (Inr s') \<Longrightarrow> recorded_kept s s'"
      by (rule Suc.IH)
  next
    show "\<And>s. recorded_kept s s" by (rule recorded_kept_refl)
  next
    show "\<And>a b c. recorded_kept a b \<Longrightarrow> recorded_kept b c \<Longrightarrow> recorded_kept a c"
      by (rule recorded_kept_trans)
  qed
  from r2 obtain gid where
    r3: "(case observer_nodes_for_graph h1 gid of
         Some ns \<Rightarrow> Some (foldE (reset_qparams e mid gid) h1 ns)
       | None \<Rightarrow>
           obind (Some (get_graph h1 gid)) (\<lambda>g.
             let input_values = filter (isTensorType e gid) (tl (graph_inputs g)) in
             obind (Some (foldE (collect_outputs e gid) h1 (visit_blocks [top_block g]))) (\<lambda>h2.
             obind (Some (foldE (\<lambda>h v. collectObserverNodesAndValueToQuantize h gid v)
                            h2 input_values)) (\<lambda>h3.
             obind (Some (self_of g)) (\<lambda>self.
               quantizeTensors e k mid gid self h3))))) = Some (Inr h')"
    by (rule obind_InrE)
  have k2: "recorded_kept h1 h'"
  proof (cases "observer_nodes_for_graph h1 gid")
    case (Some ns)
    with r3 have f2: "foldE (reset_qparams e mid gid) h1 ns = Inr h'" by simp
    then have "re_set_all e mid gid h1 ns h'" by (simp add: reset_all_re_set_all)
    then have "tables_kept h1 h'" by (rule re_set_all_kept)
    then show ?thesis by (rule tables_kept_recorded)
  next
    case None
    with r3 have "\<exists>g h2 h3 self.
        foldE (collect_outputs e gid) h1 (visit_blocks [top_block g]) = Inr h2 \<and>
        foldE (\<lambda>h v. collectObserverNodesAndValueToQuantize h gid v) h2
          (filter (isTensorType e gid) (tl (graph_inputs g))) = Inr h3 \<and>
        quantizeTensors e k mid gid self h3 = Some (Inr h')"
      by (auto simp: obind_Inr Let_def)
    then obtain g h2 h3 self where
      c1: "foldE (collect_outputs e gid) h1 (visit_blocks [top_block g]) = Inr h2"
      and c2: "foldE (\<lambda>h v. collectObserverNodesAndValueToQuantize h gid v) h2
          (filter (isTensorType e gid) (tl (graph_inputs g))) = Inr h3"
      and c3: "quantizeTensors e k mid gid self h3 = Some (Inr h')"
      by blast
    have "others_kept gid h1 h2"
    proof (rule foldE_rel [OF _ _ _ c1])
      show "\<And>s x s'. collect_outputs e gid s x = Inr s' \<Longrightarrow> others_kept gid s s'"
        by (rule collect_outputs_kept)
    next
      show "\<And>s. others_kept gid s s" by (rule others_kept_refl)
    next
      show "\<And>a b c. others_kept gid a b \<Longrightarrow> others_kept gid b c \<Longrightarrow> others_kept gid a c"
        by (rule others_kept_trans)
    qed
    moreover have "others_kept gid h2 h3"
    proof (rule foldE_rel [OF _ _ _ c2])
      show "\<And>s x s'. collectObserverNodesAndValueToQuantize s gid x = Inr s'
              \<Longrightarrow> others_kept gid s s'"
        by (rule collect_kept)
    next
      show "\<And>s. others_kept gid s s" by (rule others_kept_refl)
    next
      show "\<And>a b c. others_kept gid a b \<Longrightarrow> others_kept gid b c \<Longrightarrow> others_kept gid a c"
        by (rule others_kept_trans)
    qed
    moreover have "others_kept gid h3 h'"
      using c3 by (rule quantizeTensors_kept)
    ultimately have "others_kept gid h1 h'"
      using others_kept_trans by blast
    then show ?thesis using None by (rule others_kept_recorded)
  qed
  from k1 k2 show ?case by (rule recorded_kept_trans)
qed

lemma invoked_kept:
  assumes "foldO (\<lambda>h invoked. run e k h (fst invoked) (snd invoked)) h invoked_methods
             = Some (Inr h1)"
  shows "recorded_kept h h1"
proof (rule foldO_rel [OF _ _ _ assms])
  show "\<And>s x s'. run e k s (fst x) (snd x) = Some (Inr s') \<Longrightarrow> recorded_kept s s'"
    by (rule run_kept)
next
  show "\<And>s. recorded_kept s s" by (rule recorded_kept_refl)
next
  show "\<And>a b c. recorded_kept a b \<Longrightarrow> recorded_kept b c \<Longrightarrow> recorded_kept a c"
    by (rule recorded_kept_trans)
qed

text \<open>
  On a method whose Graph is recorded, the run is the loop over the recorded observers,
  from the state that the runs of the invoked methods leave.
\<close>

lemma run_recorded:
  assumes m: "modules h mid = Some mdl" and g: "m_methods mdl method_name = Some gid"
    and ns: "observer_nodes_for_graph h gid = Some ns"
    and inv: "getInvokedMethods e h mid method_name = Inr invoked"
    and f: "foldO (\<lambda>h i. run e k h (fst i) (snd i)) h invoked = Some (Inr h1)"
  shows "run e (Suc k) h mid method_name = Some (foldE (reset_qparams e mid gid) h1 ns)"
proof -
  from f have k: "recorded_kept h h1" by (rule invoked_kept)
  then have "rel_option (\<lambda>a b. m_methods b = m_methods a) (modules h mid) (modules h1 mid)"
    unfolding recorded_kept_def methods_kept_def by simp
  with m obtain mdl1 where m1: "modules h1 mid = Some mdl1"
    and mm: "m_methods mdl1 = m_methods mdl"
    by (cases "modules h1 mid") auto
  from k ns have "graph_kept h h1 gid" unfolding recorded_kept_def by simp
  with ns have ns1: "observer_nodes_for_graph h1 gid = Some ns"
    by (simp add: graph_kept_def)
  show ?thesis
    by (simp add: inv f obind_def ebind_def get_module_def get_method_def m1 mm g ns1)
qed

lemma observed_visit: "visit_blocks [top_block observed_graph] = [2, 3, 4]"
  by (simp add: observed_graph_def)

lemma observed_invoked:
  "getInvokedMethods calibrated_env recorded_helper 0 ''forward'' = Inr []"
proof -
  have m: "get_module recorded_helper 0 = Inr quantized_root_obj"
    by (simp add: get_module_def recorded_helper_def)
  have g: "get_method quantized_root_obj ''forward'' = Inr 0"
    by (simp add: get_method_def quantized_root_obj_def)
  have gr: "get_graph recorded_helper 0 = Inr observed_graph"
    by (simp add: get_graph_def recorded_helper_def)
  have i2: "invoked_method calibrated_env recorded_helper 0 observed_graph 2 = Inr []"
    by (simp add: invoked_method_def get_node_def observed_graph_def ebind_def)
  have i4: "invoked_method calibrated_env recorded_helper 0 observed_graph 4 = Inr []"
    by (simp add: invoked_method_def get_node_def observed_graph_def ebind_def)
  have s: "self_of observed_graph = Inr (Value 0 0)"
    by (simp add: self_of_def graph_inputs_def observed_graph_def upt_rec)
  have n3: "get_node observed_graph 3 = Inr \<lparr> kind = ''prim::CallMethod'', inputs = [Value 2 0, Value 0 1],
                 num_outputs = 1, attr_name = Some ''forward'' \<rparr>"
    by (simp add: get_node_def observed_graph_def)
  have n2: "node_of observed_graph (Value 2 0) = Inr \<lparr> kind = ''prim::GetAttr'', inputs = [Value 0 0], num_outputs = 1,
                 attr_name = Some ''_observer_0'' \<rparr>"
    by (simp add: node_of_def get_node_def observed_graph_def)
  have f: "find_str ''_observer_0'' ''_observer_'' = Some 0"
    by (simp add: find_str_def)
  have i3: "invoked_method calibrated_env recorded_helper 0 observed_graph 3 = Inr []"
    unfolding invoked_method_def n3
    by (simp add: ebind_def input_at_def s_name_def s n2 f)
  show ?thesis
    by (simp add: getInvokedMethods_def ebind_def m g gr observed_visit i2 i3 i4
        del: visit_blocks.simps)
qed

lemma observed_qparams:
  "getQSchemeAndQParamVector byte_ops calibrated (\<lambda>v. True)
      (Map.empty(0 \<mapsto> quantized_root_obj, 1 \<mapsto> observer_obj)) observed_graph quantized_root_obj 3
     = Inr (kPerTensorAffine,
         [(''_scale'', IDouble 2), (''_zero_point'', IInt 10), (''_scalar_type'', IInt kQInt8)])"
proof -
  have m1: "m_attrs quantized_root_obj ''_observer_0'' = Some (IObject 1)"
    by (simp add: quantized_root_obj_def)
  have m2: "(Map.empty(0 \<mapsto> quantized_root_obj, 1 \<mapsto> observer_obj)) (1::nat) = Some observer_obj"
    by simp
  have m3: "m_methods observer_obj ''calculate_qparams'' = Some 1"
    by (simp add: observer_obj_def)
  have m4: "m_attrs observer_obj ''dtype'' = Some (IInt kQInt8)"
    by (simp add: observer_obj_def)
  have m5: "m_attrs observer_obj ''qscheme'' = Some (IInt 0)"
    by (simp add: observer_obj_def)
  have m6: "kQInt8 \<noteq> Undefined"
    by (simp add: kQInt8_def Undefined_def)
  have r: "calibrated 1 ''calculate_qparams''
             = Inr (ITuple [ITensor (ByteTensor 0 [2]), ITensor (ByteTensor 0 [10])])"
    by (simp add: calibrated_def)
  have c: "checkCalculateQParamsResult
     (ITuple [ITensor (ByteTensor 0 [2]), ITensor (ByteTensor 0 [10])]
        :: (byte_tensor, real) ivalue) = Inr ()"
    by (simp add: checkCalculateQParamsResult_ok)
  have t: "(\<lambda>v::ir_value. True) (Value 3 0)" by simp
  show ?thesis
    unfolding getQSchemeAndQParamVector_record
                [of observed_graph 3 "Value 3 0" "\<lambda>v. True" "''_observer_0''" quantized_root_obj 1
                    "Map.empty(0 \<mapsto> quantized_root_obj, 1 \<mapsto> observer_obj)"
                    observer_obj 1 calibrated _ byte_ops, OF observed_graph_output t
                    observed_graph_observer m1 m2 m3 r]
    by (simp add: c m4 m5 m6 ebind_def attr_def toInt_def torch_check_def toTensor_def
        byte_ops_simps qscheme_of_int_def isPerChannel_def)
qed

lemma observed_reset:
  "reset_qparams calibrated_env 0 0 recorded_helper 3 = Inr recalibrated_helper"
proof -
  have m: "get_module recorded_helper 0 = Inr quantized_root_obj"
    by (simp add: get_module_def recorded_helper_def)
  have gr: "get_graph recorded_helper 0 = Inr observed_graph"
    by (simp add: get_graph_def recorded_helper_def)
  have ms: "modules recorded_helper = Map.empty(0 \<mapsto> quantized_root_obj, 1 \<mapsto> observer_obj)"
    by (simp add: recorded_helper_def)
  have e1: "runMethod calibrated_env = calibrated" "isTensorType calibrated_env 0 = (\<lambda>v. True)"
    "tensorOps calibrated_env = byte_ops"
    by (simp_all add: calibrated_env_def)
  have q: "checkQScheme (qscheme_for_graph recorded_helper) 0 kPerTensorAffine
             = Inr (qscheme_for_graph recorded_helper)"
    by (simp add: checkQScheme_def recorded_helper_def torch_check_def ebind_def)
  have nm: "qparam_name_map_for_node recorded_helper (0, 3) =
     Some (Map.empty(''_scale'' \<mapsto> ''x_scale_0'',
            ''_zero_point'' \<mapsto> ''x_zero_point_0'', ''_scalar_type'' \<mapsto> ''x_scalar_type_0''))"
    by (simp add: recorded_helper_def)
  have qp: "getQSchemeAndQParamVector (tensorOps calibrated_env) (runMethod calibrated_env)
      (isTensorType calibrated_env 0)
      (modules recorded_helper) observed_graph quantized_root_obj 3
     = Inr (kPerTensorAffine,
         [(''_scale'', IDouble 2), (''_zero_point'', IInt 10), (''_scalar_type'', IInt kQInt8)])"
    unfolding e1 ms by (rule observed_qparams)
  have upd: "recorded_helper\<lparr>qscheme_for_graph := qscheme_for_graph recorded_helper\<rparr>
               = recorded_helper"
    by simp
  show ?thesis
    apply (simp add: reset_qparams_def ebind_def m gr qp q nm upd)
    apply (simp add: setAttr_def get_module_def ebind_def recalibrated_helper_def recorded_helper_def)
    done
qed

text \<open>
  C4. Let the Graph of a method of a Module object be recorded in the memo tables, with
  its observer Nodes. A run of the insertion step on the method returns a state exactly
  when the methods that the method invokes are found, the runs on them return a state,
  and from that state, for each recorded observer Node in turn, the calibration of the
  observer is read again and every qparam is stored in the object under the attribute
  name recorded for it. The state returned has the Graph as it was, with the observer
  Nodes recorded for it, and every other recorded Graph as it was: no Node is inserted.
\<close>

theorem run_again_on_recorded:
  assumes "modules h mid = Some mdl" and "m_methods mdl method_name = Some gid"
    and "observer_nodes_for_graph h gid = Some ns"
  shows "(run e (Suc k) h mid method_name = Some (Inr h') \<longleftrightarrow>
            (\<exists>invoked h1.
               getInvokedMethods e h mid method_name = Inr invoked \<and>
               foldO (\<lambda>h i. run e k h (fst i) (snd i)) h invoked = Some (Inr h1) \<and>
               re_set_all e mid gid h1 ns h')) \<and>
         (run e (Suc k) h mid method_name = Some (Inr h') \<longrightarrow>
            graphs h' gid = graphs h gid \<and>
            observer_nodes_for_graph h' gid = Some ns \<and>
            recorded_kept h h')"
proof (intro conjI impI iffI)
  assume r: "run e (Suc k) h mid method_name = Some (Inr h')"
  then have k: "recorded_kept h h'" by (rule run_kept)
  with assms(3) have gk: "graph_kept h h' gid" unfolding recorded_kept_def by simp
  from gk show "graphs h' gid = graphs h gid" by (simp add: graph_kept_def)
  from gk assms(3) show "observer_nodes_for_graph h' gid = Some ns"
    by (simp add: graph_kept_def)
  from k show "recorded_kept h h'" .
next
  assume r: "run e (Suc k) h mid method_name = Some (Inr h')"
  from r [unfolded run.simps]
  obtain invoked where inv: "Some (getInvokedMethods e h mid method_name) = Some (Inr invoked)"
    and r1: "obind (foldO (\<lambda>h invoked. run e k h (fst invoked) (snd invoked)) h invoked) (\<lambda>h1.
     obind (Some (ebind (get_module h1 mid) (\<lambda>mdl. get_method mdl method_name))) (\<lambda>gid.
       case observer_nodes_for_graph h1 gid of
         Some ns \<Rightarrow> Some (foldE (reset_qparams e mid gid) h1 ns)
       | None \<Rightarrow>
           obind (Some (get_graph h1 gid)) (\<lambda>g.
             let input_values = filter (isTensorType e gid) (tl (graph_inputs g)) in
             obind (Some (foldE (collect_outputs e gid) h1 (visit_blocks [top_block g]))) (\<lambda>h2.
             obind (Some (foldE (\<lambda>h v. collectObserverNodesAndValueToQuantize h gid v)
                            h2 input_values)) (\<lambda>h3.
             obind (Some (self_of g)) (\<lambda>self.
               quantizeTensors e k mid gid self h3)))))) = Some (Inr h')"
    by (rule obind_InrE)
  from r1 obtain h1 where
    f: "foldO (\<lambda>h invoked. run e k h (fst invoked) (snd invoked)) h invoked = Some (Inr h1)"
    by (rule obind_InrE)
  from inv have inv': "getInvokedMethods e h mid method_name = Inr invoked" by simp
  from r run_recorded [OF assms inv' f]
  have "foldE (reset_qparams e mid gid) h1 ns = Inr h'" by simp
  then have "re_set_all e mid gid h1 ns h'" by (simp add: reset_all_re_set_all)
  with inv' f show "\<exists>invoked h1.
               getInvokedMethods e h mid method_name = Inr invoked \<and>
               foldO (\<lambda>h i. run e k h (fst i) (snd i)) h invoked = Some (Inr h1) \<and>
               re_set_all e mid gid h1 ns h'"
    by blast
next
  assume "\<exists>invoked h1.
               getInvokedMethods e h mid method_name = Inr invoked \<and>
               foldO (\<lambda>h i. run e k h (fst i) (snd i)) h invoked = Some (Inr h1) \<and>
               re_set_all e mid gid h1 ns h'"
  then obtain invoked h1 where inv: "getInvokedMethods e h mid method_name = Inr invoked"
    and f: "foldO (\<lambda>h i. run e k h (fst i) (snd i)) h invoked = Some (Inr h1)"
    and s: "re_set_all e mid gid h1 ns h'"
    by blast
  from s have "foldE (reset_qparams e mid gid) h1 ns = Inr h'"
    by (simp add: reset_all_re_set_all)
  with run_recorded [OF assms inv f]
  show "run e (Suc k) h mid method_name = Some (Inr h')" by simp
qed

theorem run_again_on_recorded_witness:
  "modules recorded_helper 0 = Some quantized_root_obj \<and>
   m_methods quantized_root_obj ''forward'' = Some 0 \<and>
   observer_nodes_for_graph recorded_helper 0 = Some [3] \<and>
   getInvokedMethods calibrated_env recorded_helper 0 ''forward'' = Inr [] \<and>
   re_set_all calibrated_env 0 0 recorded_helper [3] recalibrated_helper \<and>
   run calibrated_env 1 recorded_helper 0 ''forward'' = Some (Inr recalibrated_helper) \<and>
   graphs recalibrated_helper 0 = Some observed_graph \<and>
   observer_nodes_for_graph recalibrated_helper 0 = Some [3] \<and>
   recorded_kept recorded_helper recalibrated_helper \<and>
   (\<exists>m. modules recalibrated_helper 0 = Some m \<and>
        m_attrs m ''x_scale_0'' = Some (IDouble 2) \<and>
        m_attrs m ''x_zero_point_0'' = Some (IInt 10) \<and>
        m_attrs m ''x_scalar_type_0'' = Some (IInt kQInt8))"
proof -
  have m: "modules recorded_helper 0 = Some quantized_root_obj"
    by (simp add: recorded_helper_def)
  have g: "m_methods quantized_root_obj ''forward'' = Some 0"
    by (simp add: quantized_root_obj_def)
  have ns: "observer_nodes_for_graph recorded_helper 0 = Some [3]"
    by (simp add: recorded_helper_def)
  have s: "re_set_all calibrated_env 0 0 recorded_helper [3] recalibrated_helper"
    using observed_reset by (simp add: reset_qparams_re_set [symmetric])
  have f: "foldO (\<lambda>h i. run calibrated_env 0 h (fst i) (snd i)) recorded_helper []
             = Some (Inr recorded_helper)"
    by simp
  note th = run_again_on_recorded
              [OF m g ns, of calibrated_env 0 recalibrated_helper]
  from th observed_invoked f s
  have r: "run calibrated_env 1 recorded_helper 0 ''forward'' = Some (Inr recalibrated_helper)"
    by (simp del: run.simps foldO.simps re_set_all.simps)
  with th have k: "graphs recalibrated_helper 0 = graphs recorded_helper 0"
    "observer_nodes_for_graph recalibrated_helper 0 = Some [3]"
    "recorded_kept recorded_helper recalibrated_helper"
    by (simp_all del: run.simps)
  have gr: "graphs recalibrated_helper 0 = Some observed_graph"
    by (simp add: recalibrated_helper_def recorded_helper_def)
  have at: "\<exists>m. modules recalibrated_helper 0 = Some m \<and>
        m_attrs m ''x_scale_0'' = Some (IDouble 2) \<and>
        m_attrs m ''x_zero_point_0'' = Some (IInt 10) \<and>
        m_attrs m ''x_scalar_type_0'' = Some (IInt kQInt8)"
    by (simp add: recalibrated_helper_def)
  from m g ns observed_invoked s r gr k(2,3) at show ?thesis
    by (intro conjI) assumption+
qed

section \<open>Replication of the dynamic quantization chain, verified\<close>

lemma chain_use_effect:
  assumes nd: "nodes g u = Some nd" and b: "bounded g"
  shows "replicate_chain_use a dtype k dout g (u, s) =
     Inr (g \<lparr> nodes := (nodes g)(
              next_node g \<mapsto> constant_node,
              next_node g + 1 \<mapsto> \<lparr> kind = ''aten::_choose_qparams_per_tensor'',
                        inputs = [a, Value (next_node g) 0], num_outputs = 2,
                        attr_name = None \<rparr>,
              next_node g + 2 \<mapsto> \<lparr> kind = k,
                        inputs = [a, Value (next_node g + 1) 0, Value (next_node g + 1) 1, dtype],
                        num_outputs = 1, attr_name = None \<rparr>,
              next_node g + 3 \<mapsto> dequantize_of (Value (next_node g + 2) 0),
              u \<mapsto> replace_value dout (Value (next_node g + 3) 0) nd),
            next_node := next_node g + 4,
            top_block :=
              insert_before_block u (BNode (next_node g + 3) [])
                (insert_before_block u (BNode (next_node g + 2) [])
                  (insert_before_block u (BNode (next_node g + 1) [])
                    (insert_before_block u (BNode (next_node g) []) (top_block g)))) \<rparr>)"
proof -
  from b nd have "u < next_node g" unfolding bounded_def by blast
  then have ne: "u \<noteq> next_node g" "u \<noteq> Suc (next_node g)" "u \<noteq> Suc (Suc (next_node g))"
    "u \<noteq> Suc (Suc (Suc (next_node g)))" by simp_all
  have e: "next_node g + 3 = Suc (Suc (Suc (next_node g)))"
    "next_node g + 4 = Suc (Suc (Suc (Suc (next_node g))))" by simp_all
  show ?thesis
    using nd ne
    unfolding replicate_chain_use_def with_insert_point_def insertChooseQParamQuantDequant_def
      insertChooseQParams_def insertConstant_def insertQuant_def insertDeQuant_def create_def
      insertNode_def replaceInputWith_def get_node_def output_def ebind_def Let_def
      dequantize_of_def constant_node_def
    by (simp add: fun_upd_twist e)
qed

lemma chain_fanned_Nil: "bounded g \<Longrightarrow> chain_fanned g a dtype k dout [] g"
  unfolding chain_fanned_def by simp

lemma chain_fanned_step:
  assumes inv: "chain_fanned g a dtype k dout us g'"
    and b: "bounded g" and live: "nodes g u \<noteq> None"
    and pa: "producer a < next_node g" and pd: "producer dtype < next_node g"
    and po: "producer dout < next_node g"
  shows "\<exists>g''. replicate_chain_use a dtype k dout g' (u, s) = Inr g'' \<and>
     chain_fanned g a dtype k dout (us @ [(u, s)]) g''"
proof -
  let ?n = "next_node g" and ?n' = "next_node g'"
  from inv have n': "?n' = ?n + 4 * length us" and b': "bounded g'"
    and lf: "\<forall>p. leaf_at_block p (top_block g) \<longrightarrow> leaf_at_block p (top_block g')"
    and sh: "\<forall>m < ?n. shape g' m = shape g m"
    and fr: "\<forall>m < ?n. m \<notin> fst ` set us \<longrightarrow> nodes g' m = nodes g m"
    and new: "\<forall>i < length us.
         nodes g' (?n + 4 * i) = Some constant_node \<and>
         nodes g' (?n + 4 * i + 1) =
           Some \<lparr> kind = ''aten::_choose_qparams_per_tensor'',
                  inputs = [a, Value (?n + 4 * i) 0], num_outputs = 2,
                  attr_name = None \<rparr> \<and>
         nodes g' (?n + 4 * i + 2) =
           Some \<lparr> kind = k,
                  inputs = [a, Value (?n + 4 * i + 1) 0,
                            Value (?n + 4 * i + 1) 1, dtype],
                  num_outputs = 1, attr_name = None \<rparr> \<and>
         nodes g' (?n + 4 * i + 3) =
           Some (dequantize_of (Value (?n + 4 * i + 2) 0))"
    and keep: "\<forall>m slot v. m < ?n \<longrightarrow> v \<noteq> dout \<longrightarrow> reads g m slot v \<longrightarrow> reads g' m slot v"
    and moved: "\<forall>m slot. m \<in> fst ` set us \<longrightarrow> reads g m slot dout \<longrightarrow>
         (\<exists>i < length us. reads g' m slot (Value (?n + 4 * i + 3) 0))"
    and old: "\<forall>m slot v. m < ?n \<longrightarrow> producer v < ?n \<longrightarrow> reads g' m slot v \<longrightarrow>
         reads g m slot v \<and> (v = dout \<longrightarrow> m \<notin> fst ` set us)"
    unfolding chain_fanned_def by simp_all
  from live obtain nd0 where nd0: "nodes g u = Some nd0" by auto
  have u: "u < ?n" using bounded_live [OF b nd0] .
  from sh u have "shape g' u = shape g u" by simp
  with nd0 obtain nd where nd: "nodes g' u = Some nd"
    by (cases "nodes g' u") (auto simp: shape_def)
  have le: "?n \<le> ?n'" using n' by simp
  define to where "to = Value (?n' + 3) 0"
  define g'' where "g'' = g' \<lparr> nodes := (nodes g')(
              ?n' \<mapsto> constant_node,
              ?n' + 1 \<mapsto> \<lparr> kind = ''aten::_choose_qparams_per_tensor'',
                        inputs = [a, Value ?n' 0], num_outputs = 2,
                        attr_name = None \<rparr>,
              ?n' + 2 \<mapsto> \<lparr> kind = k,
                        inputs = [a, Value (?n' + 1) 0, Value (?n' + 1) 1, dtype],
                        num_outputs = 1, attr_name = None \<rparr>,
              ?n' + 3 \<mapsto> dequantize_of (Value (?n' + 2) 0),
              u \<mapsto> replace_value dout to nd),
            next_node := ?n' + 4,
            top_block :=
              insert_before_block u (BNode (?n' + 3) [])
                (insert_before_block u (BNode (?n' + 2) [])
                  (insert_before_block u (BNode (?n' + 1) [])
                    (insert_before_block u (BNode ?n' []) (top_block g')))) \<rparr>"
  have run: "replicate_chain_use a dtype k dout g' (u, s) = Inr g''"
    unfolding g''_def to_def by (rule chain_use_effect [OF nd b'])
  have nn: "next_node g'' = ?n + 4 * length (us @ [(u, s)])"
    by (simp add: g''_def n')
  have nu: "nodes g'' u = Some (replace_value dout to nd)"
    by (simp add: g''_def)
  have nold: "nodes g'' m = nodes g' m" if "m \<noteq> u" "m < ?n'" for m
    using that by (simp add: g''_def)
  have nfresh:
    "nodes g'' ?n' = Some constant_node"
    "nodes g'' (?n' + 1) = Some \<lparr> kind = ''aten::_choose_qparams_per_tensor'',
                        inputs = [a, Value ?n' 0], num_outputs = 2, attr_name = None \<rparr>"
    "nodes g'' (?n' + 2) = Some \<lparr> kind = k,
                        inputs = [a, Value (?n' + 1) 0, Value (?n' + 1) 1, dtype],
                        num_outputs = 1, attr_name = None \<rparr>"
    "nodes g'' (?n' + 3) = Some (dequantize_of (Value (?n' + 2) 0))"
    using u le by (simp_all add: g''_def)
  have nabove: "nodes g'' m = None" if "m \<ge> ?n' + 4" for m
    using that u le bounded_None [OF b', of m] by (simp add: g''_def)
  have to_new: "producer to = ?n' + 3" by (simp add: to_def)
  have ru: "reads g'' u slot v \<longleftrightarrow>
      (\<exists>x. reads g' u slot x \<and> v = (if x = dout then to else x))" for slot v
    using nd by (auto simp: reads_def nu replace_value_def)
  have rold: "reads g'' m slot v \<longleftrightarrow> reads g' m slot v" if "m \<noteq> u" "m < ?n'" for m slot v
    using nold [OF that] by (simp add: reads_def)
  have b'': "bounded g''"
  proof (rule bounded_readsI)
    fix d assume "d \<ge> next_node g''"
    then show "nodes g'' d = None" using nabove by (simp add: g''_def)
  next
    fix m slot v assume r: "reads g'' m slot v"
    have nx: "next_node g'' = ?n' + 4" by (simp add: g''_def)
    consider "m = u" | "m \<noteq> u" "m < ?n'" | "m = ?n'" | "m = ?n' + 1" | "m = ?n' + 2"
      | "m = ?n' + 3" | "m \<ge> ?n' + 4" by linarith
    then show "producer v < next_node g''"
    proof cases
      case 1
      with r ru obtain x where "reads g' u slot x" "v = (if x = dout then to else x)" by blast
      with bounded_reads [OF b', of u slot x] to_new nx show ?thesis by (cases "x = dout") auto
    next
      case 2
      with r rold have "reads g' m slot v" by simp
      with bounded_reads [OF b'] nx show ?thesis by fastforce
    next
      case 3
      with r nfresh(1) show ?thesis by (simp add: reads_def constant_node_def)
    next
      case 4
      with r nfresh(2) pa le nx show ?thesis
        by (auto simp: reads_def nth_Cons split: nat.splits)
    next
      case 5
      with r nfresh(3) pa pd le nx show ?thesis
        by (auto simp: reads_def nth_Cons split: nat.splits)
    next
      case 6
      with r nfresh(4) nx show ?thesis
        by (auto simp: reads_def dequantize_of_def)
    next
      case 7
      with r nabove show ?thesis by (simp add: reads_def)
    qed
  qed
  have lf'': "\<forall>p. leaf_at_block p (top_block g) \<longrightarrow> leaf_at_block p (top_block g'')"
    using lf leaf_at_insert(1) by (simp add: g''_def)
  have sh'': "\<forall>m < ?n. shape g'' m = shape g m"
  proof (intro allI impI)
    fix m assume m: "m < ?n"
    show "shape g'' m = shape g m"
    proof (cases "m = u")
      case True
      have "shape g'' u = shape g' u" using nd nu by (simp add: shape_def replace_value_def)
      with sh u True show ?thesis by simp
    next
      case False
      with m le nold [of m] have "nodes g'' m = nodes g' m" by simp
      then have "shape g'' m = shape g' m" by (simp add: shape_def)
      with sh m show ?thesis by simp
    qed
  qed
  have fr'': "\<forall>m < ?n. m \<notin> fst ` set (us @ [(u, s)]) \<longrightarrow> nodes g'' m = nodes g m"
  proof (intro allI impI)
    fix m assume m: "m < ?n" and nu: "m \<notin> fst ` set (us @ [(u, s)])"
    then have "m \<noteq> u" "m \<notin> fst ` set us" by auto
    with m le nold [of m] fr show "nodes g'' m = nodes g m" by simp
  qed
  have new'': "\<forall>i < length (us @ [(u, s)]).
         nodes g'' (?n + 4 * i) = Some constant_node \<and>
         nodes g'' (?n + 4 * i + 1) =
           Some \<lparr> kind = ''aten::_choose_qparams_per_tensor'',
                  inputs = [a, Value (?n + 4 * i) 0], num_outputs = 2,
                  attr_name = None \<rparr> \<and>
         nodes g'' (?n + 4 * i + 2) =
           Some \<lparr> kind = k,
                  inputs = [a, Value (?n + 4 * i + 1) 0,
                            Value (?n + 4 * i + 1) 1, dtype],
                  num_outputs = 1, attr_name = None \<rparr> \<and>
         nodes g'' (?n + 4 * i + 3) =
           Some (dequantize_of (Value (?n + 4 * i + 2) 0))"
  proof (intro allI impI)
    fix i assume i: "i < length (us @ [(u, s)])"
    show "nodes g'' (?n + 4 * i) = Some constant_node \<and>
         nodes g'' (?n + 4 * i + 1) =
           Some \<lparr> kind = ''aten::_choose_qparams_per_tensor'',
                  inputs = [a, Value (?n + 4 * i) 0], num_outputs = 2,
                  attr_name = None \<rparr> \<and>
         nodes g'' (?n + 4 * i + 2) =
           Some \<lparr> kind = k,
                  inputs = [a, Value (?n + 4 * i + 1) 0,
                            Value (?n + 4 * i + 1) 1, dtype],
                  num_outputs = 1, attr_name = None \<rparr> \<and>
         nodes g'' (?n + 4 * i + 3) =
           Some (dequantize_of (Value (?n + 4 * i + 2) 0))"
    proof (cases "i < length us")
      case True
      then have lt: "?n + 4 * i + 3 < ?n'" using n' by simp
      have "nodes g'' (?n + 4 * i + r) = nodes g' (?n + 4 * i + r)" if "r \<le> 3" for r
        using nold [of "?n + 4 * i + r"] u lt that by simp
      from this [of 0] this [of 1] this [of 2] this [of 3] new True show ?thesis by simp
    next
      case False
      with i have "i = length us" by simp
      then have "?n + 4 * i = ?n'" using n' by simp
      with nfresh show ?thesis by simp
    qed
  qed
  have ne_to: "to \<noteq> dout" using po le by (auto simp: to_def)
  have keep'': "\<forall>m slot v. m < ?n \<longrightarrow> v \<noteq> dout \<longrightarrow> reads g m slot v \<longrightarrow> reads g'' m slot v"
  proof (intro allI impI)
    fix m slot v assume m: "m < ?n" and v: "v \<noteq> dout" and r: "reads g m slot v"
    with keep have r': "reads g' m slot v" by simp
    show "reads g'' m slot v"
    proof (cases "m = u")
      case True
      with r' v show ?thesis unfolding True ru by auto
    next
      case False
      with m le r' rold [of m] show ?thesis by simp
    qed
  qed
  have moved'': "\<forall>m slot. m \<in> fst ` set (us @ [(u, s)]) \<longrightarrow> reads g m slot dout \<longrightarrow>
         (\<exists>i < length (us @ [(u, s)]). reads g'' m slot (Value (?n + 4 * i + 3) 0))"
  proof (intro allI impI)
    fix m slot assume mu: "m \<in> fst ` set (us @ [(u, s)])" and r: "reads g m slot dout"
    have m: "m < ?n" using r by (rule reads_bounded [OF b])
    show "\<exists>i < length (us @ [(u, s)]). reads g'' m slot (Value (?n + 4 * i + 3) 0)"
    proof (cases "m \<in> fst ` set us")
      case True
      with moved r obtain i where i: "i < length us"
        and ri: "reads g' m slot (Value (?n + 4 * i + 3) 0)" by blast
      have nd': "Value (?n + 4 * i + 3) 0 \<noteq> dout" using po by auto
      have "reads g'' m slot (Value (?n + 4 * i + 3) 0)"
      proof (cases "m = u")
        case True
        with ri nd' show ?thesis unfolding True ru by auto
      next
        case False
        with m le ri rold [of m] show ?thesis by simp
      qed
      moreover from i have "i < length (us @ [(u, s)])" by simp
      ultimately show ?thesis by blast
    next
      case False
      with mu have mu': "m = u" by auto
      from False fr m have "nodes g' m = nodes g m" by simp
      with r have "reads g' u slot dout" using mu' by (simp add: reads_def)
      then have "reads g'' u slot to" unfolding ru by auto
      moreover have "to = Value (?n + 4 * length us + 3) 0" by (simp add: to_def n')
      moreover have "length us < length (us @ [(u, s)])" by simp
      ultimately show ?thesis using mu' by metis
    qed
  qed
  have old'': "\<forall>m slot v. m < ?n \<longrightarrow> producer v < ?n \<longrightarrow> reads g'' m slot v \<longrightarrow>
         reads g m slot v \<and> (v = dout \<longrightarrow> m \<notin> fst ` set (us @ [(u, s)]))"
  proof (intro allI impI)
    fix m slot v assume m: "m < ?n" and pv: "producer v < ?n" and r: "reads g'' m slot v"
    show "reads g m slot v \<and> (v = dout \<longrightarrow> m \<notin> fst ` set (us @ [(u, s)]))"
    proof (cases "m = u")
      case True
      with r ru obtain x where x: "reads g' u slot x" "v = (if x = dout then to else x)"
        by blast
      have "x \<noteq> dout"
      proof
        assume "x = dout"
        with x have "v = to" by simp
        with pv to_new le show False by simp
      qed
      with x have "reads g' u slot v" "v \<noteq> dout" by simp_all
      with old u pv True show ?thesis by simp
    next
      case False
      with m le r rold [of m] have "reads g' m slot v" by simp
      with old m pv False show ?thesis by auto
    qed
  qed
  from nn b'' lf'' sh'' fr'' new'' keep'' moved'' old''
  have "chain_fanned g a dtype k dout (us @ [(u, s)]) g''"
    unfolding chain_fanned_def by blast
  with run show ?thesis by blast
qed


lemma chain_fanned_fold:
  assumes b: "bounded g" and live: "\<forall>x \<in> set us. nodes g (fst x) \<noteq> None"
    and pa: "producer a < next_node g" and pd: "producer dtype < next_node g"
    and po: "producer dout < next_node g"
  shows "\<exists>g'. foldE (replicate_chain_use a dtype k dout) g us = Inr g' \<and>
     chain_fanned g a dtype k dout us g'"
  using live
proof (induction us rule: rev_induct)
  case Nil
  then show ?case using chain_fanned_Nil [OF b] by simp
next
  case (snoc x us)
  obtain u s where x: "x = (u, s)" by (cases x)
  from snoc.prems have "\<forall>x \<in> set us. nodes g (fst x) \<noteq> None" by simp
  from snoc.IH [OF this] obtain g' where
    f: "foldE (replicate_chain_use a dtype k dout) g us = Inr g'"
    and inv: "chain_fanned g a dtype k dout us g'" by blast
  from snoc.prems x have "nodes g u \<noteq> None" by simp
  from chain_fanned_step [OF inv b this pa pd po, of s] obtain g'' where
    "replicate_chain_use a dtype k dout g' (u, s) = Inr g''"
    "chain_fanned g a dtype k dout (us @ [(u, s)]) g''" by blast
  with f x show ?case by (simp add: foldE_snoc ebind_def)
qed

text \<open>A fresh Node reads \<open>a\<close>, \<open>dtype\<close> or the output of a fresh Node.\<close>

lemma chain_fanned_fresh:
  assumes inv: "chain_fanned g a dtype k dout us g'"
    and m: "next_node g \<le> m" and r: "reads g' m slot v"
  shows "v = a \<or> v = dtype \<or> next_node g \<le> producer v"
proof -
  let ?n = "next_node g"
  from inv have n': "next_node g' = ?n + 4 * length us" and b': "bounded g'"
    and new: "\<forall>i < length us.
         nodes g' (?n + 4 * i) = Some constant_node \<and>
         nodes g' (?n + 4 * i + 1) =
           Some \<lparr> kind = ''aten::_choose_qparams_per_tensor'',
                  inputs = [a, Value (?n + 4 * i) 0], num_outputs = 2,
                  attr_name = None \<rparr> \<and>
         nodes g' (?n + 4 * i + 2) =
           Some \<lparr> kind = k,
                  inputs = [a, Value (?n + 4 * i + 1) 0,
                            Value (?n + 4 * i + 1) 1, dtype],
                  num_outputs = 1, attr_name = None \<rparr> \<and>
         nodes g' (?n + 4 * i + 3) =
           Some (dequantize_of (Value (?n + 4 * i + 2) 0))"
    unfolding chain_fanned_def by simp_all
  have lt: "m < ?n + 4 * length us" using reads_bounded [OF b' r] n' by simp
  define i where "i = (m - ?n) div 4"
  define j where "j = (m - ?n) mod 4"
  have m_eq: "m = ?n + 4 * i + j" using m by (simp add: i_def j_def)
  have i: "i < length us" using lt m by (simp add: i_def less_mult_imp_div_less mult.commute)
  have j: "j < 4" by (simp add: j_def)
  from new i have nw:
    "nodes g' (?n + 4 * i) = Some constant_node"
    "nodes g' (?n + 4 * i + 1) =
           Some \<lparr> kind = ''aten::_choose_qparams_per_tensor'',
                  inputs = [a, Value (?n + 4 * i) 0], num_outputs = 2,
                  attr_name = None \<rparr>"
    "nodes g' (?n + 4 * i + 2) =
           Some \<lparr> kind = k,
                  inputs = [a, Value (?n + 4 * i + 1) 0,
                            Value (?n + 4 * i + 1) 1, dtype],
                  num_outputs = 1, attr_name = None \<rparr>"
    "nodes g' (?n + 4 * i + 3) =
           Some (dequantize_of (Value (?n + 4 * i + 2) 0))"
    by simp_all
  from j consider "j = 0" | "j = 1" | "j = 2" | "j = 3" by linarith
  then show ?thesis
  proof cases
    case 1
    with r m_eq nw(1) show ?thesis by (simp add: reads_def constant_node_def)
  next
    case 2
    with r m_eq nw(2) show ?thesis by (auto simp: reads_def nth_Cons split: nat.splits)
  next
    case 3
    with r m_eq nw(3) show ?thesis by (auto simp: reads_def nth_Cons split: nat.splits)
  next
    case 4
    with r m_eq nw(4) show ?thesis by (auto simp: reads_def dequantize_of_def)
  qed
qed

lemma destroy_outputs:
  assumes nd: "nodes g p = Some nd"
    and u: "\<And>m slot i. \<not> reads g m slot (Value p i)"
    and lf: "leaf_at_block p (top_block g)"
  shows "destroy g p = Inr (g \<lparr> nodes := (nodes g)(p := None),
           top_block := remove_block p (top_block g) \<rparr>)"
proof -
  have "uses g (Value p i) = []" for i using u by (rule uses_empty)
  then have "\<not> list_ex (\<lambda>i. uses g (Value p i) \<noteq> []) [0..<num_outputs nd]"
    by (simp add: list_ex_iff)
  moreover have "(case find_in_block p (top_block g) of None \<Rightarrow> [p] | Some e \<Rightarrow> ids_bnode e) = [p]"
    using find_in_leaf(1) [OF lf] by (cases "find_in_block p (top_block g)") auto
  moreover have "(\<lambda>m. if m \<in> set [p] then None else nodes g m) = (nodes g)(p := None)"
    by auto
  ultimately show ?thesis
    using nd by (simp add: destroy_def get_node_def ebind_def Let_def)
qed


lemma ReplicateChooseQParamsQuantDequant_effect:
  assumes b: "bounded g"
    and col: "filterE (multi_use_match g) matches = Inr [(c, q, d)]"
    and ch: "dynamic_chain g (c, q, d) a dtype"
  shows "\<exists>g'. ReplicateChooseQParamsQuantDequant matches g = Inr g' \<and>
     nodes g' c = None \<and> nodes g' q = None \<and> nodes g' d = None \<and>
     (\<forall>i < length (uses g (Value d 0)).
        nodes g' (next_node g + 4 * i + 2) = Some (quantize_of a (next_node g + 4 * i + 1) dtype) \<and>
        nodes g' (next_node g + 4 * i + 3) =
          Some (dequantize_of (Value (next_node g + 4 * i + 2) 0))) \<and>
     (\<forall>x \<in> set (uses g (Value d 0)). \<exists>i < length (uses g (Value d 0)).
        reads g' (fst x) (snd x) (Value (next_node g + 4 * i + 3) 0))"
proof -
  let ?n = "next_node g" and ?k = "''aten::quantize_per_tensor''"
  define dout where "dout = Value d 0"
  define us where "us = uses g dout"
  have us_eq: "uses g (Value d 0) = us" by (simp add: us_def dout_def)
  from ch obtain rr where nc: "nodes g c = Some (choose_qparams_of a rr)"
    and prr: "producer rr \<noteq> d"
    and nq: "nodes g q = Some (quantize_of a c dtype)"
    and ndq: "nodes g d = Some (dequantize_of (Value q 0))"
    and pa': "producer a \<notin> {c, q, d}" and pd': "producer dtype \<notin> {c, q, d}"
    and rc: "\<forall>m slot i. reads g m slot (Value c i) \<longrightarrow> m = q"
    and rq: "\<forall>m slot. reads g m slot (Value q 0) \<longrightarrow> m = d"
    and lc: "leaf_at_block c (top_block g)" and lq: "leaf_at_block q (top_block g)"
    and ld: "leaf_at_block d (top_block g)"
    unfolding dynamic_chain_def by auto
  have cn: "c < ?n" and qn: "q < ?n" and dn: "d < ?n"
    using bounded_live [OF b] nc nq ndq by blast+
  have ne: "c \<noteq> d" "q \<noteq> d" "c \<noteq> q"
    using nc nq ndq by (auto simp: choose_qparams_of_def quantize_of_def dequantize_of_def)
  have rqa: "reads g q 0 a" and rqd: "reads g q 3 dtype"
    using nq by (simp_all add: reads_def quantize_of_def)
  have pa: "producer a < ?n" using bounded_reads [OF b rqa] .
  have pd: "producer dtype < ?n" using bounded_reads [OF b rqd] .
  have po: "producer dout < ?n" using dn by (simp add: dout_def)
  have ado: "a \<noteq> dout" "dtype \<noteq> dout" using pa' pd' by (auto simp: dout_def)
  have us_reads: "reads g (fst x) (snd x) dout" if "x \<in> set us" for x
    using that uses_iff_bounded [OF b, of "fst x" "snd x" dout] by (simp add: us_def)
  have live: "\<forall>x \<in> set us. nodes g (fst x) \<noteq> None"
    using us_reads reads_live by blast
  have users: "m \<notin> {c, q, d}" if "m \<in> fst ` set us" for m
  proof -
    from that obtain x where "x \<in> set us" "m = fst x" by auto
    with us_reads have r: "reads g m (snd x) dout" by simp
    show ?thesis
    proof
      assume "m \<in> {c, q, d}"
      then consider "m = c" | "m = q" | "m = d" by auto
      then show False
      proof cases
        case 1
        with r nc pa' prr show False
          by (auto simp: reads_def choose_qparams_of_def nth_Cons dout_def split: nat.splits)
      next
        case 2
        with r nq pa' pd' ne show False
          by (auto simp: reads_def quantize_of_def nth_Cons dout_def split: nat.splits)
      next
        case 3
        with r ndq ne show False by (auto simp: reads_def dequantize_of_def dout_def)
      qed
    qed
  qed
  from col have mne: "matches \<noteq> []" by auto
  have rcq: "replicate_chain g (c, q, d) =
      foldE (replicate_chain_use a dtype ?k dout) g us"
    using nq ndq
    by (simp add: replicate_chain_def get_node_def ebind_def input_at_def output_def
        quantize_of_def dequantize_of_def dout_def us_def)
  from chain_fanned_fold [OF b live pa pd po, of ?k] obtain g1 where
    f1: "foldE (replicate_chain_use a dtype ?k dout) g us = Inr g1"
    and inv: "chain_fanned g a dtype ?k dout us g1" by blast
  from inv have n1: "next_node g1 = ?n + 4 * length us" and b1: "bounded g1"
    and lf: "\<forall>p. leaf_at_block p (top_block g) \<longrightarrow> leaf_at_block p (top_block g1)"
    and fr: "\<forall>m < ?n. m \<notin> fst ` set us \<longrightarrow> nodes g1 m = nodes g m"
    and new: "\<forall>i < length us.
         nodes g1 (?n + 4 * i) = Some constant_node \<and>
         nodes g1 (?n + 4 * i + 1) =
           Some \<lparr> kind = ''aten::_choose_qparams_per_tensor'',
                  inputs = [a, Value (?n + 4 * i) 0], num_outputs = 2,
                  attr_name = None \<rparr> \<and>
         nodes g1 (?n + 4 * i + 2) =
           Some \<lparr> kind = ?k,
                  inputs = [a, Value (?n + 4 * i + 1) 0,
                            Value (?n + 4 * i + 1) 1, dtype],
                  num_outputs = 1, attr_name = None \<rparr> \<and>
         nodes g1 (?n + 4 * i + 3) =
           Some (dequantize_of (Value (?n + 4 * i + 2) 0))"
    and moved: "\<forall>m slot. m \<in> fst ` set us \<longrightarrow> reads g m slot dout \<longrightarrow>
         (\<exists>i < length us. reads g1 m slot (Value (?n + 4 * i + 3) 0))"
    and old: "\<forall>m slot v. m < ?n \<longrightarrow> producer v < ?n \<longrightarrow> reads g1 m slot v \<longrightarrow>
         reads g m slot v \<and> (v = dout \<longrightarrow> m \<notin> fst ` set us)"
    unfolding chain_fanned_def by simp_all
  have n1c: "nodes g1 c = Some (choose_qparams_of a rr)"
    and n1q: "nodes g1 q = Some (quantize_of a c dtype)"
    and n1d: "nodes g1 d = Some (dequantize_of (Value q 0))"
  proof -
    have "c \<notin> fst ` set us" "q \<notin> fst ` set us" "d \<notin> fst ` set us"
      using users by blast+
    with fr cn qn dn have "nodes g1 c = nodes g c" "nodes g1 q = nodes g q"
      "nodes g1 d = nodes g d" by simp_all
    with nc nq ndq show "nodes g1 c = Some (choose_qparams_of a rr)"
      and "nodes g1 q = Some (quantize_of a c dtype)"
      and "nodes g1 d = Some (dequantize_of (Value q 0))" by simp_all
  qed
  text \<open>No Node of \<open>g1\<close> reads the outputs of the old chain, but the chain itself.\<close>
  have old1: "reads g m slot v \<and> (v = dout \<longrightarrow> m \<notin> fst ` set us)"
    if "reads g1 m slot v" "producer v < ?n" "v \<noteq> a" "v \<noteq> dtype" for m slot v
  proof (cases "m < ?n")
    case True
    with old that show ?thesis by blast
  next
    case False
    then have "?n \<le> m" by simp
    from chain_fanned_fresh [OF inv this that(1)] that show ?thesis by simp
  qed
  have no_d1: "\<not> reads g1 m slot dout" for m slot
  proof
    assume r: "reads g1 m slot dout"
    from old1 [OF r po ado(1) [symmetric] ado(2) [symmetric]]
    have rg: "reads g m slot dout" and nu: "m \<notin> fst ` set us" by simp_all
    from rg have "(m, slot) \<in> set us" using uses_iff_bounded [OF b] by (simp add: us_def)
    then have "m \<in> fst ` set us" by force
    with nu show False by simp
  qed
  have only_d1: "m = d" if "reads g1 m slot (Value q 0)" for m slot
  proof -
    have "Value q 0 \<noteq> a" "Value q 0 \<noteq> dtype" using pa' pd' by auto
    from old1 [OF that _ this] qn have "reads g m slot (Value q 0)" by simp
    with rq show ?thesis by blast
  qed
  have only_q1: "m = q" if "reads g1 m slot (Value c i)" for m slot i
  proof -
    have "Value c i \<noteq> a" "Value c i \<noteq> dtype" using pa' pd' by auto
    from old1 [OF that _ this] cn have "reads g m slot (Value c i)" by simp
    with rc show ?thesis by blast
  qed
  text \<open>The inputs of the old chain are removed.\<close>
  define g2 where "g2 = g1 \<lparr> nodes := (nodes g1)(
      d \<mapsto> (dequantize_of (Value q 0)) \<lparr> inputs := [] \<rparr>,
      q \<mapsto> (quantize_of a c dtype) \<lparr> inputs := [] \<rparr>,
      c \<mapsto> (choose_qparams_of a rr) \<lparr> inputs := [] \<rparr>) \<rparr>"
  have rm: "remove_chain_inputs g1 (c, q, d) = Inr g2"
    using n1c n1q n1d ne
    by (simp add: remove_chain_inputs_def removeAllInputs_def get_node_def ebind_def g2_def)
  have r2: "reads g2 m slot v \<longleftrightarrow> m \<notin> {c, q, d} \<and> reads g1 m slot v" for m slot v
    by (auto simp: reads_def g2_def)
  have t2: "top_block g2 = top_block g1" by (simp add: g2_def)
  text \<open>The old chain is destroyed, last Node first.\<close>
  define g3 where "g3 = g2 \<lparr> nodes := (nodes g2)(d := None),
      top_block := remove_block d (top_block g2) \<rparr>"
  define g4 where "g4 = g3 \<lparr> nodes := (nodes g3)(q := None),
      top_block := remove_block q (top_block g3) \<rparr>"
  define g5 where "g5 = g4 \<lparr> nodes := (nodes g4)(c := None),
      top_block := remove_block c (top_block g4) \<rparr>"
  have d3: "destroy g2 d = Inr g3"
    unfolding g3_def
  proof (rule destroy_leaf)
    show "nodes g2 d = Some ((dequantize_of (Value q 0)) \<lparr> inputs := [] \<rparr>)"
      using ne by (simp add: g2_def)
    show "num_outputs ((dequantize_of (Value q 0)) \<lparr> inputs := [] \<rparr>) = 1"
      by (simp add: dequantize_of_def)
    show "\<not> reads g2 m slot (Value d 0)" for m slot using no_d1 r2 by (simp add: dout_def)
    show "leaf_at_block d (top_block g2)" using lf ld t2 by simp
  qed
  have r3: "reads g3 m slot v \<longleftrightarrow> m \<notin> {c, q, d} \<and> reads g1 m slot v" for m slot v
    using r2 [of m slot v] by (auto simp: g3_def reads_removed)
  have d4: "destroy g3 q = Inr g4"
    unfolding g4_def
  proof (rule destroy_leaf)
    show "nodes g3 q = Some ((quantize_of a c dtype) \<lparr> inputs := [] \<rparr>)"
      using ne by (simp add: g3_def g2_def)
    show "num_outputs ((quantize_of a c dtype) \<lparr> inputs := [] \<rparr>) = 1"
      by (simp add: quantize_of_def)
    show "\<not> reads g3 m slot (Value q 0)" for m slot using only_d1 r3 by auto
    show "leaf_at_block q (top_block g3)"
      using lf lq t2 by (simp add: g3_def leaf_at_remove(1))
  qed
  have r4: "reads g4 m slot v \<longleftrightarrow> m \<notin> {c, q, d} \<and> reads g1 m slot v" for m slot v
    using r3 [of m slot v] by (auto simp: g4_def reads_removed)
  have d5: "destroy g4 c = Inr g5"
    unfolding g5_def
  proof (rule destroy_outputs)
    show "nodes g4 c = Some ((choose_qparams_of a rr) \<lparr> inputs := [] \<rparr>)"
      using ne by (simp add: g4_def g3_def g2_def)
    show "\<not> reads g4 m slot (Value c i)" for m slot i using only_q1 r4 by auto
    show "leaf_at_block c (top_block g4)"
      using lf lc t2 by (simp add: g4_def g3_def leaf_at_remove(1))
  qed
  have run: "ReplicateChooseQParamsQuantDequant matches g = Inr g5"
    using mne col rcq f1 rm d3 d4 d5
    by (simp add: ReplicateChooseQParamsQuantDequant_def destroy_chain_def ebind_def)
  have n5: "nodes g5 m = (if m \<in> {c, q, d} then None else nodes g1 m)" for m
    by (simp add: g5_def g4_def g3_def g2_def)
  have r5: "reads g5 m slot v \<longleftrightarrow> m \<notin> {c, q, d} \<and> reads g1 m slot v" for m slot v
    by (simp add: reads_def n5)
  have fresh5: "\<forall>i < length us.
        nodes g5 (?n + 4 * i + 2) = Some (quantize_of a (?n + 4 * i + 1) dtype) \<and>
        nodes g5 (?n + 4 * i + 3) = Some (dequantize_of (Value (?n + 4 * i + 2) 0))"
  proof (intro allI impI)
    fix i assume i: "i < length us"
    have "?n + 4 * i + 2 \<notin> {c, q, d}" "?n + 4 * i + 3 \<notin> {c, q, d}"
      using cn qn dn by auto
    with new i show "nodes g5 (?n + 4 * i + 2) = Some (quantize_of a (?n + 4 * i + 1) dtype) \<and>
        nodes g5 (?n + 4 * i + 3) = Some (dequantize_of (Value (?n + 4 * i + 2) 0))"
      unfolding n5 by (simp add: quantize_of_def)
  qed
  have uses5: "\<forall>x \<in> set us. \<exists>i < length us.
        reads g5 (fst x) (snd x) (Value (?n + 4 * i + 3) 0)"
  proof
    fix x assume x: "x \<in> set us"
    then have m: "fst x \<in> fst ` set us" by simp
    from moved m us_reads [OF x] obtain i where "i < length us"
      "reads g1 (fst x) (snd x) (Value (?n + 4 * i + 3) 0)" by blast
    with users [OF m] show "\<exists>i < length us.
        reads g5 (fst x) (snd x) (Value (?n + 4 * i + 3) 0)"
      unfolding r5 by blast
  qed
  have "nodes g5 c = None" "nodes g5 q = None" "nodes g5 d = None" by (simp_all add: n5)
  with run fresh5 uses5 show ?thesis unfolding us_eq by blast
qed


lemma dynamic_bounded: "bounded dynamic_graph"
  unfolding bounded_def dynamic_graph_def choose_qparams_of_def quantize_of_def
    dequantize_of_def
  by (auto split: if_splits)

lemma dynamic_chain_456: "dynamic_chain dynamic_graph (4, 5, 6) (Value 0 1) (Value 2 0)"
  unfolding dynamic_chain_def reads_def dynamic_graph_def choose_qparams_of_def
    quantize_of_def dequantize_of_def
  by (auto simp: nth_Cons split: if_splits nat.splits)

lemma dynamic_uses: "uses dynamic_graph (Value 6 0) = [(7, 0), (8, 0)]"
  by code_simp

lemma dynamic_matches:
  "filterE (multi_use_match dynamic_graph) [(4, 5, 6)] = Inr [(4, 5, 6)]"
proof -
  have "output dynamic_graph 6 = Inr (Value 6 0)"
    by (simp add: output_def get_node_def ebind_def dynamic_graph_def dequantize_of_def)
  then show ?thesis by (simp add: multi_use_match_def ebind_def dynamic_uses)
qed

text \<open>
  The replication of the dynamic chain wraps a Value once for every use of its
  dequantized form: when the chain of \<open>a\<close> is the one match whose dequantized
  Value has more than one use, the pass returns, the old quantize Node is destroyed, and
  as many fresh quantize Nodes as there were uses wrap \<open>a\<close>, every use reading the
  dequantize Node of one of them.
\<close>

lemma ReplicateChooseQParamsQuantDequant_wraps_per_use:
  assumes "bounded g"
    and "filterE (multi_use_match g) matches = Inr [(c, q, d)]"
    and "dynamic_chain g (c, q, d) a dtype"
  shows "\<exists>g' qs. ReplicateChooseQParamsQuantDequant matches g = Inr g' \<and>
     nodes g' q = None \<and> distinct qs \<and> length qs = length (uses g (Value d 0)) \<and>
     1 < length qs \<and>
     (\<forall>m \<in> set qs. nodes g m = None \<and> quantizes g' m a) \<and>
     (\<forall>x \<in> set (uses g (Value d 0)). \<exists>m \<in> set qs. \<exists>dq.
        nodes g' dq = Some (dequantize_of (Value m 0)) \<and>
        reads g' (fst x) (snd x) (Value dq 0))"
proof -
  let ?n = "next_node g" and ?us = "uses g (Value d 0)"
  from ReplicateChooseQParamsQuantDequant_effect [OF assms] obtain g' where
    run: "ReplicateChooseQParamsQuantDequant matches g = Inr g'"
    and gone: "nodes g' q = None"
    and fresh: "\<forall>i < length ?us.
        nodes g' (?n + 4 * i + 2) = Some (quantize_of a (?n + 4 * i + 1) dtype) \<and>
        nodes g' (?n + 4 * i + 3) = Some (dequantize_of (Value (?n + 4 * i + 2) 0))"
    and moved: "\<forall>x \<in> set ?us. \<exists>i < length ?us.
        reads g' (fst x) (snd x) (Value (?n + 4 * i + 3) 0)"
    by blast
  define qs where "qs = map (\<lambda>i. ?n + 4 * i + 2) [0..<length ?us]"
  have inj: "inj_on (\<lambda>i. ?n + 4 * i + 2) (set [0..<length ?us])"
    by (simp add: inj_on_def)
  have dist: "distinct qs" unfolding qs_def using inj by (simp add: distinct_map)
  have len: "length qs = length ?us" by (simp add: qs_def)
  have mem: "m \<in> set qs \<longleftrightarrow> (\<exists>i < length ?us. m = ?n + 4 * i + 2)" for m
    by (auto simp: qs_def)
  from assms(2) have "multi_use_match g (c, q, d) = Inr True"
    using filterE_props [of "multi_use_match g" matches "[(c, q, d)]"] by simp
  then have many: "1 < length ?us"
    by (auto simp: multi_use_match_def ebind_Inr output_def split: if_splits)
  have wraps: "\<forall>m \<in> set qs. nodes g m = None \<and> quantizes g' m a"
  proof
    fix m assume "m \<in> set qs"
    then obtain i where i: "i < length ?us" and m: "m = ?n + 4 * i + 2"
      unfolding mem by blast
    from fresh i m have "nodes g' m = Some (quantize_of a (?n + 4 * i + 1) dtype)" by simp
    then have "quantizes g' m a" by (simp add: quantizes_def reads_def quantize_of_def)
    moreover have "nodes g m = None" using bounded_None [OF assms(1), of m] m by simp
    ultimately show "nodes g m = None \<and> quantizes g' m a" by simp
  qed
  have each: "\<forall>x \<in> set ?us. \<exists>m \<in> set qs. \<exists>dq.
        nodes g' dq = Some (dequantize_of (Value m 0)) \<and>
        reads g' (fst x) (snd x) (Value dq 0)"
  proof
    fix x assume "x \<in> set ?us"
    with moved obtain i where i: "i < length ?us"
      and r: "reads g' (fst x) (snd x) (Value (?n + 4 * i + 3) 0)" by blast
    from fresh i have "nodes g' (?n + 4 * i + 3) = Some (dequantize_of (Value (?n + 4 * i + 2) 0))"
      by simp
    moreover have "?n + 4 * i + 2 \<in> set qs" unfolding mem using i by blast
    ultimately show "\<exists>m \<in> set qs. \<exists>dq.
        nodes g' dq = Some (dequantize_of (Value m 0)) \<and>
        reads g' (fst x) (snd x) (Value dq 0)"
      using r by blast
  qed
  from run gone dist len many wraps each show ?thesis by (metis (no_types, lifting))
qed

lemma ReplicateChooseQParamsQuantDequant_wraps_per_use_example:
  "bounded dynamic_graph \<and>
   filterE (multi_use_match dynamic_graph) [(4, 5, 6)] = Inr [(4, 5, 6)] \<and>
   dynamic_chain dynamic_graph (4, 5, 6) (Value 0 1) (Value 2 0) \<and>
   uses dynamic_graph (Value 6 0) = [(7, 0), (8, 0)] \<and>
   (\<exists>g' qs. ReplicateChooseQParamsQuantDequant [(4, 5, 6)] dynamic_graph = Inr g' \<and>
     nodes g' 5 = None \<and> distinct qs \<and> length qs = 2 \<and>
     (\<forall>m \<in> set qs. nodes dynamic_graph m = None \<and> quantizes g' m (Value 0 1)) \<and>
     (\<forall>x \<in> set [(7, 0), (8, 0)]. \<exists>m \<in> set qs. \<exists>dq.
        nodes g' dq = Some (dequantize_of (Value m 0)) \<and>
        reads g' (fst x) (snd x) (Value dq 0)))"
proof -
  from ReplicateChooseQParamsQuantDequant_wraps_per_use
         [OF dynamic_bounded dynamic_matches dynamic_chain_456]
  obtain g' qs where
    1: "ReplicateChooseQParamsQuantDequant [(4, 5, 6)] dynamic_graph = Inr g'"
    and 2: "nodes g' 5 = None" and 3: "distinct qs"
    and 4: "length qs = length (uses dynamic_graph (Value 6 0))"
    and 5: "\<forall>m \<in> set qs. nodes dynamic_graph m = None \<and> quantizes g' m (Value 0 1)"
    and 6: "\<forall>x \<in> set (uses dynamic_graph (Value 6 0)). \<exists>m \<in> set qs. \<exists>dq.
        nodes g' dq = Some (dequantize_of (Value m 0)) \<and>
        reads g' (fst x) (snd x) (Value dq 0)"
    by blast
  from 4 have 4: "length qs = 2" by (simp add: dynamic_uses)
  from 6 have 6: "\<forall>x \<in> set [(7, 0), (8, 0)]. \<exists>m \<in> set qs. \<exists>dq.
        nodes g' dq = Some (dequantize_of (Value m 0)) \<and>
        reads g' (fst x) (snd x) (Value dq 0)"
    unfolding dynamic_uses .
  from 1 2 3 4 5 6
  have "\<exists>g' qs. ReplicateChooseQParamsQuantDequant [(4, 5, 6)] dynamic_graph = Inr g' \<and>
     nodes g' 5 = None \<and> distinct qs \<and> length qs = 2 \<and>
     (\<forall>m \<in> set qs. nodes dynamic_graph m = None \<and> quantizes g' m (Value 0 1)) \<and>
     (\<forall>x \<in> set [(7, 0), (8, 0)]. \<exists>m \<in> set qs. \<exists>dq.
        nodes g' dq = Some (dequantize_of (Value m 0)) \<and>
        reads g' (fst x) (snd x) (Value dq 0))"
    by blast
  with dynamic_bounded dynamic_matches dynamic_chain_456 dynamic_uses show ?thesis by blast
qed

text \<open>
  After the replication of the dynamic chain, which is a stage of the pass, the input
  \<open>x\<close> of the Graph is wrapped by two quantize Nodes, one in front of each linear
  operator.
\<close>

lemma ReplicateChooseQParamsQuantDequant_twice:
  "\<exists>g'. ReplicateChooseQParamsQuantDequant [(4, 5, 6)] dynamic_graph = Inr g' \<and>
     quantizes g' 11 (Value 0 1) \<and> quantizes g' 15 (Value 0 1)"
proof -
  have n: "next_node dynamic_graph = 9" by (simp add: dynamic_graph_def)
  from ReplicateChooseQParamsQuantDequant_effect
         [OF dynamic_bounded dynamic_matches dynamic_chain_456]
  obtain g' where run: "ReplicateChooseQParamsQuantDequant [(4, 5, 6)] dynamic_graph = Inr g'"
    and fresh: "\<forall>i < 2. nodes g' (9 + 4 * i + 2) = Some (quantize_of (Value 0 1) (9 + 4 * i + 1) (Value 2 0))"
    unfolding dynamic_uses n by auto
  from fresh [rule_format, of 0] have "nodes g' 11 = Some (quantize_of (Value 0 1) 10 (Value 2 0))"
    by simp
  moreover from fresh [rule_format, of 1]
  have "nodes g' 15 = Some (quantize_of (Value 0 1) 14 (Value 2 0))" by simp
  ultimately have "quantizes g' 11 (Value 0 1)" "quantizes g' 15 (Value 0 1)"
    by (simp_all add: quantizes_def reads_def quantize_of_def)
  with run show ?thesis by blast
qed

end
